(* ===== verification/HPQ_Prelude.thy ===== *)
theory HPQ_Prelude
  imports Main "HOL-Library.Word"
begin

text \<open>
  Shared vocabulary of the development: the faults a C++ operation can end in, the result type and
  its bind, the conversions between \<^verbatim>\<open>int\<close> and \<^verbatim>\<open>unsigned int\<close>, and the arithmetic of circular
  indices that every queue theory uses.

  A C++ \<^verbatim>\<open>unsigned int\<close> is a 32-bit word (its operators wrap). A C++ \<^verbatim>\<open>int\<close> is an integer; the
  conversion to \<^verbatim>\<open>unsigned\<close> is \<open>word_of_int\<close> and the conversion back is \<open>sint\<close>, as g++ has it.
\<close>

section \<open>Results and faults\<close>

datatype fault =
    NullDeref
  | DanglingRef
  | UninitRead
  | OutOfBounds
  | DivByZero
  | LogicError string
  | OutOfFuel

type_synonym 'a result = "fault + 'a"

definition bind_r :: "'a result \<Rightarrow> ('a \<Rightarrow> 'b result) \<Rightarrow> 'b result" where
  "bind_r m f = (case m of Inl e \<Rightarrow> Inl e | Inr x \<Rightarrow> f x)"

lemma bind_r_simps [simp]:
  "bind_r (Inl e) f = Inl e"
  "bind_r (Inr x) f = f x"
  by (simp_all add: bind_r_def)

lemma bind_r_Inr_iff: "bind_r m f = Inr y \<longleftrightarrow> (\<exists>x. m = Inr x \<and> f x = Inr y)"
  by (cases m) auto

lemma bind_r_assoc: "bind_r (bind_r m f) g = bind_r m (\<lambda>x. bind_r (f x) g)"
  by (cases m) auto

lemma bind_r_cong [fundef_cong]:
  "m = m' \<Longrightarrow> (\<And>x. m' = Inr x \<Longrightarrow> f x = f' x) \<Longrightarrow> bind_r m f = bind_r m' f'"
  by (cases m') auto

section \<open>Machine integers\<close>

type_synonym c_uint = "32 word"

named_theorems c_arith \<open>conversions between int and unsigned int inside the index range\<close>

lemma uint_c_uint_range: "0 \<le> uint (x :: c_uint)" "uint (x :: c_uint) < 4294967296"
  using uint_lt2p [of x] by simp_all

lemma sint_of_small: "uint (x :: c_uint) < 2147483648 \<Longrightarrow> sint x = uint x"
  by (simp add: sint_uint signed_take_bit_int_eq_self_iff order_trans [OF _ uint_c_uint_range(1)])

lemma uint_of_int_small [c_arith]:
  "0 \<le> i \<Longrightarrow> i < 4294967296 \<Longrightarrow> uint (word_of_int i :: c_uint) = i"
  by (simp add: uint_word_of_int)

lemma sint_of_int_small [c_arith]:
  "0 \<le> i \<Longrightarrow> i < 2147483648 \<Longrightarrow> sint (word_of_int i :: c_uint) = i"
  by (simp add: sint_of_small uint_of_int_small)

lemma uint_c_uint_pos [c_arith]: "0 < uint (x :: c_uint) \<longleftrightarrow> x \<noteq> 0"
  by (simp add: less_le uint_0_iff eq_commute [of 0])

lemma sint_of_int_add [c_arith]:
  assumes "0 \<le> i" and "i + uint n < 2147483648"
  shows "sint (word_of_int i + n :: c_uint) = i + uint n"
proof -
  have "word_of_int i + n = (word_of_int (i + uint n) :: c_uint)" by simp
  then show ?thesis
    using assms sint_of_int_small [of "i + uint n"] by (simp add: add_nonneg_nonneg)
qed

lemma sint_of_int_mod [c_arith]:
  assumes "0 \<le> i" and "i < 2147483648" and "n \<noteq> 0"
  shows "sint (word_of_int i mod n :: c_uint) = i mod uint n"
proof -
  have i: "uint (word_of_int i mod n :: c_uint) = i mod uint n"
    using assms by (simp add: uint_mod_distrib uint_of_int_small)
  have "i mod uint n \<le> i"
    using assms by (simp add: zmod_le_nonneg_dividend)
  then show ?thesis
    using i assms by (simp add: sint_of_small)
qed

section \<open>Circular indices\<close>

text \<open>
  \<open>cdist n r i\<close> is the number of steps from slot \<open>r\<close> forward to slot \<open>i\<close> in a ring of \<open>n\<close> slots.
\<close>

definition cdist :: "int \<Rightarrow> int \<Rightarrow> int \<Rightarrow> int" where
  "cdist n r i = (i - r) mod n"

named_theorems circ \<open>circular index arithmetic\<close>

lemma mod_sub_cases:
  fixes n :: int
  assumes "0 \<le> i" "i < n" "0 \<le> r" "r < n"
  shows "(i - r) mod n = (if r \<le> i then i - r else i - r + n)"
proof (cases "r \<le> i")
  case True
  then show ?thesis using assms by (simp add: mod_pos_pos_trivial)
next
  case False
  have "(i - r) mod n = (i - r + n) mod n" by simp
  also have "\<dots> = i - r + n" using assms False by (intro mod_pos_pos_trivial) auto
  finally show ?thesis using False by simp
qed

lemma mod_add_cases:
  fixes n :: int
  assumes "0 \<le> r" "r < n" "0 \<le> k" "k \<le> n"
  shows "(r + k) mod n = (if r + k < n then r + k else r + k - n)"
proof (cases "r + k < n")
  case True
  then show ?thesis using assms by (simp add: mod_pos_pos_trivial)
next
  case False
  have "(r + k) mod n = (r + k - n) mod n" by simp
  also have "\<dots> = r + k - n" using assms False by (intro mod_pos_pos_trivial) auto
  finally show ?thesis using False by simp
qed

lemma cdist_cases:
  "0 \<le> i \<Longrightarrow> i < n \<Longrightarrow> 0 \<le> r \<Longrightarrow> r < n \<Longrightarrow>
   cdist n r i = (if r \<le> i then i - r else i - r + n)"
  unfolding cdist_def by (rule mod_sub_cases)

lemma cdist_range [circ]: "0 < n \<Longrightarrow> 0 \<le> cdist n r i" "0 < n \<Longrightarrow> cdist n r i < n"
  by (simp_all add: cdist_def)

lemma cdist_self [simp]: "cdist n r r = 0"
  by (simp add: cdist_def)

lemma cdist_add [circ]: "0 \<le> k \<Longrightarrow> k < n \<Longrightarrow> cdist n r ((r + k) mod n) = k"
  by (simp add: cdist_def mod_diff_left_eq)

lemma cdist_inverse [circ]: "0 \<le> i \<Longrightarrow> i < n \<Longrightarrow> (r + cdist n r i) mod n = i"
  by (simp add: cdist_def mod_add_right_eq)

lemma cdist_zero_iff:
  "0 \<le> i \<Longrightarrow> i < n \<Longrightarrow> 0 \<le> r \<Longrightarrow> r < n \<Longrightarrow> cdist n r i = 0 \<longleftrightarrow> i = r"
  by (auto simp: cdist_cases)

lemma cdist_inj:
  "cdist n r i = cdist n r j \<Longrightarrow> 0 \<le> i \<Longrightarrow> i < n \<Longrightarrow> 0 \<le> j \<Longrightarrow> j < n \<Longrightarrow> i = j"
  by (metis cdist_inverse)

lemma ring_full_iff:
  "0 \<le> w \<Longrightarrow> w < n \<Longrightarrow> 0 \<le> r \<Longrightarrow> r < n \<Longrightarrow> (w + 1) mod n = r \<longleftrightarrow> cdist n r w = n - 1"
  by (auto simp: cdist_cases mod_add_cases)

lemma cdist_succ:
  "0 \<le> w \<Longrightarrow> w < n \<Longrightarrow> 0 \<le> r \<Longrightarrow> r < n \<Longrightarrow> cdist n r w < n - 1 \<Longrightarrow>
   cdist n r ((w + 1) mod n) = cdist n r w + 1"
  by (auto simp: cdist_cases mod_add_cases split: if_splits)

lemma cdist_pred:
  "0 \<le> w \<Longrightarrow> w < n \<Longrightarrow> 0 \<le> r \<Longrightarrow> r < n \<Longrightarrow> 0 < cdist n r w \<Longrightarrow>
   cdist n ((r + 1) mod n) w = cdist n r w - 1"
  by (auto simp: cdist_cases mod_add_cases split: if_splits)

lemma slot_shift: "((r + 1) mod n + k) mod n = (r + (k + 1)) mod (n :: int)"
  by (simp add: mod_simps algebra_simps)

lemma ring_step_inj:
  fixes n :: int
  assumes "(p :: int) mod n = q mod n" and "p < q + n" and "q < p + n"
  shows "p = q"
proof -
  from assms(1) have "n dvd p - q" by (simp add: mod_eq_dvd_iff)
  then obtain k where k: "p - q = n * k" by (auto elim: dvdE)
  have "k = 0"
  proof (rule ccontr)
    assume "k \<noteq> 0"
    have "0 < n" using assms(2,3) by linarith
    from \<open>k \<noteq> 0\<close> consider "k \<ge> 1" | "k \<le> -1" by linarith
    then show False
    proof cases
      case 1
      then have "n * 1 \<le> n * k" using \<open>0 < n\<close> by (intro mult_left_mono) auto
      then show False using k assms(2) by simp
    next
      case 2
      then have "n * k \<le> n * (-1)" using \<open>0 < n\<close> by (intro mult_left_mono) auto
      then show False using k assms(3) by simp
    qed
  qed
  then show ?thesis using k by simp
qed

end
