(* ===== verification/Data_Array.thy ===== *)
theory Data_Array
  imports HPQ_Prelude
begin

text \<open>
  Queue entries and the arrays that store them: \<^verbatim>\<open>queue/QueueEntryBase.h\<close>,
  \<^verbatim>\<open>queue/ProcessingQueueDataArray.h\<close> and \<^verbatim>\<open>queue/SingleTypeDataArray.h\<close>.

  An entry type is a set of virtual functions (\<open>entry_ops\<close>): which member of a storage cell can hold
  an entry (\<^verbatim>\<open>QueueData::getQueueEntry\<close>), whether the array accepts it, what a fresh cell holds and
  what \<^verbatim>\<open>operator=\<close> leaves in the destination. A pointer or reference to an entry is \<open>entry_ref\<close>: the
  static \<^verbatim>\<open>nullEntry\<close>, or a member of a cell of an allocated array. The arrays a data array has
  allocated are an explicit store, so that reading through a reference into a deleted array is the
  fault \<open>DanglingRef\<close>.

  The locale \<open>entry_class\<close> is what the queues rely on: a fresh member has the type of its member,
  assignment between members of one type copies the value, and a stored entry is not null.
\<close>

section \<open>Entries and references\<close>

datatype 'm entry_ref = NullEntry | Cell nat nat 'm

record ('e, 'm) entry_ops =
  isCompatibleEntry :: "'e \<Rightarrow> bool"
  memberFor :: "'e \<Rightarrow> 'm option"
  defaultMember :: "'m \<Rightarrow> 'e"
  assign :: "'e \<Rightarrow> 'e \<Rightarrow> 'e"
  isNull :: "'e \<Rightarrow> bool"
  nullEntry :: 'e
  dataEntrySize :: c_uint

record ('e, 'm) DataArray =
  daCurrentSize :: c_uint
  queueDataEntries :: "nat option"
  arrays :: "nat \<rightharpoonup> ('m \<Rightarrow> 'e) list"
  freshArray :: nat

section \<open>Operations\<close>

definition DataArray_init :: "('e, 'm) DataArray" where
  "DataArray_init = \<lparr>daCurrentSize = 0, queueDataEntries = None, arrays = Map.empty, freshArray = 0\<rparr>"

text \<open>
  \<^verbatim>\<open>resize\<close> installs a new array of default-constructed cells and returns the pointer to the old one,
  which stays allocated until \<^verbatim>\<open>deleteEntries\<close>.
\<close>

definition DataArray_resize ::
  "('e, 'm) entry_ops \<Rightarrow> c_uint \<Rightarrow> ('e, 'm) DataArray \<Rightarrow> nat option \<times> ('e, 'm) DataArray" where
  "DataArray_resize ops queueSize d =
     (queueDataEntries d,
      d\<lparr>arrays := (arrays d)(freshArray d \<mapsto> replicate (unat queueSize) (defaultMember ops)),
        queueDataEntries := Some (freshArray d),
        daCurrentSize := queueSize,
        freshArray := Suc (freshArray d)\<rparr>)"

definition deleteEntries :: "nat option \<Rightarrow> ('e, 'm) DataArray \<Rightarrow> ('e, 'm) DataArray" where
  "deleteEntries p d =
     (case p of None \<Rightarrow> d | Some a \<Rightarrow> d\<lparr>arrays := (arrays d)(a := None)\<rparr>)"

definition getQueueEntry ::
  "('e, 'm) entry_ops \<Rightarrow> c_uint \<Rightarrow> 'e \<Rightarrow> ('e, 'm) DataArray \<Rightarrow> 'm entry_ref option result" where
  "getQueueEntry ops i entry d =
     (if i < daCurrentSize d
      then (case queueDataEntries d of
              None \<Rightarrow> Inl NullDeref
            | Some a \<Rightarrow> Inr (map_option (Cell a (unat i)) (memberFor ops entry)))
      else Inr None)"

definition deref :: "('e, 'm) entry_ops \<Rightarrow> 'm entry_ref \<Rightarrow> ('e, 'm) DataArray \<Rightarrow> 'e result" where
  "deref ops p d =
     (case p of
        NullEntry \<Rightarrow> Inr (nullEntry ops)
      | Cell a i m \<Rightarrow>
          (case arrays d a of
             None \<Rightarrow> Inl DanglingRef
           | Some cs \<Rightarrow> if i < length cs then Inr ((cs ! i) m) else Inl OutOfBounds))"

text \<open>
  \<^verbatim>\<open>copyTo\<close> is \<^verbatim>\<open>*destination = *this\<close>: the destination's virtual \<^verbatim>\<open>operator=\<close>. Assigning to the static
  \<^verbatim>\<open>nullEntry\<close>, which has no data members, changes nothing.
\<close>

definition copyTo ::
  "('e, 'm) entry_ops \<Rightarrow> 'e \<Rightarrow> 'm entry_ref \<Rightarrow> ('e, 'm) DataArray \<Rightarrow> ('e, 'm) DataArray result" where
  "copyTo ops entry p d =
     (case p of
        NullEntry \<Rightarrow> Inr d
      | Cell a i m \<Rightarrow>
          (case arrays d a of
             None \<Rightarrow> Inl DanglingRef
           | Some cs \<Rightarrow>
               if i < length cs
               then Inr (d\<lparr>arrays := (arrays d)(a \<mapsto> cs[i := (cs ! i)(m := assign ops ((cs ! i) m) entry)])\<rparr>)
               else Inl OutOfBounds))"

section \<open>The contract of an entry type\<close>

definition storable :: "('e, 'm) entry_ops \<Rightarrow> 'e \<Rightarrow> 'm \<Rightarrow> bool" where
  "storable ops e m \<longleftrightarrow> isCompatibleEntry ops e \<and> memberFor ops e = Some m"

definition cell_ok :: "('e, 'm) entry_ops \<Rightarrow> ('m \<Rightarrow> 'e) \<Rightarrow> bool" where
  "cell_ok ops c \<longleftrightarrow> (\<forall>m. storable ops (c m) m)"

text \<open>
  \<open>data_ok ops n a d\<close>: the current array of \<open>d\<close> is \<open>a\<close>, has \<open>n\<close> cells, each well typed, and ids that
  were never handed out are not allocated.
\<close>

definition data_ok ::
  "('e, 'm) entry_ops \<Rightarrow> c_uint \<Rightarrow> nat \<Rightarrow> ('e, 'm) DataArray \<Rightarrow> bool" where
  "data_ok ops n a d \<longleftrightarrow>
     daCurrentSize d = n \<and> queueDataEntries d = Some a \<and> a < freshArray d \<and>
     (\<exists>cs. arrays d a = Some cs \<and> length cs = unat n \<and> (\<forall>c \<in> set cs. cell_ok ops c))"

text \<open>\<open>frame_except ops a i d d'\<close>: every member outside cell \<open>i\<close> of array \<open>a\<close> reads the same in \<open>d'\<close> as in \<open>d\<close>.\<close>

definition frame_except ::
  "('e, 'm) entry_ops \<Rightarrow> nat \<Rightarrow> nat \<Rightarrow> ('e, 'm) DataArray \<Rightarrow> ('e, 'm) DataArray \<Rightarrow> bool" where
  "frame_except ops a i d d' \<longleftrightarrow>
     (\<forall>b j k. b \<noteq> a \<or> j \<noteq> i \<longrightarrow> deref ops (Cell b j k) d' = deref ops (Cell b j k) d)"

locale entry_class =
  fixes ops :: "('e, 'm) entry_ops"
  assumes default_storable: "storable ops (defaultMember ops m) m"
    and assign_copies: "storable ops d m \<Longrightarrow> storable ops e m \<Longrightarrow> assign ops d e = e"
    and stored_not_null: "storable ops e m \<Longrightarrow> \<not> isNull ops e"
    and null_is_null: "isNull ops (nullEntry ops)"
begin

lemma cell_ok_default: "cell_ok ops (defaultMember ops)"
  by (simp add: cell_ok_def default_storable)

lemma data_ok_resize:
  "data_ok ops n (freshArray d) (snd (DataArray_resize ops n d))"
  by (simp add: data_ok_def DataArray_resize_def cell_ok_default)

lemma getQueueEntry_storable:
  "data_ok ops n a d \<Longrightarrow> storable ops e m \<Longrightarrow> i < n \<Longrightarrow>
   getQueueEntry ops i e d = Inr (Some (Cell a (unat i) m))"
  by (simp add: getQueueEntry_def data_ok_def storable_def)

lemma copyTo_ok:
  assumes d: "data_ok ops n a d" and e: "storable ops e m" and i: "i < unat n"
  obtains d' where "copyTo ops e (Cell a i m) d = Inr d'" and "data_ok ops n a d'"
    and "deref ops (Cell a i m) d' = Inr e" and "frame_except ops a i d d'"
    and "freshArray d' = freshArray d"
proof -
  from d obtain cs where cs: "arrays d a = Some cs" "length cs = unat n"
    "\<forall>c \<in> set cs. cell_ok ops c"
    by (auto simp: data_ok_def)
  let ?c = "(cs ! i)(m := assign ops ((cs ! i) m) e)"
  let ?d = "d\<lparr>arrays := (arrays d)(a \<mapsto> cs[i := ?c])\<rparr>"
  have ok: "cell_ok ops (cs ! i)" using cs i by simp
  then have c: "?c m = e" using e assign_copies [of "(cs ! i) m" m e] by (simp add: cell_ok_def)
  have "cell_ok ops ?c"
    using ok e c by (auto simp: cell_ok_def)
  then have "data_ok ops n a ?d"
    using d cs i set_update_subset_insert [of cs i ?c] by (auto simp: data_ok_def)
  then show thesis
  proof (rule that [of ?d, rotated])
    show "copyTo ops e (Cell a i m) d = Inr ?d"
      using cs i by (simp add: copyTo_def)
    show "deref ops (Cell a i m) ?d = Inr e"
      using cs i c by (simp add: deref_def)
    show "frame_except ops a i d ?d"
      using cs i by (auto simp: frame_except_def deref_def nth_list_update)
  qed simp
qed

end

section \<open>Changes in place\<close>

text \<open>A consumer's change of the entry it was given a reference to.\<close>

definition writeRef :: "'m entry_ref \<Rightarrow> 'e \<Rightarrow> ('e, 'm) DataArray \<Rightarrow> ('e, 'm) DataArray result" where
  "writeRef p e d =
     (case p of
        NullEntry \<Rightarrow> Inr d
      | Cell a i m \<Rightarrow>
          (case arrays d a of
             None \<Rightarrow> Inl DanglingRef
           | Some cs \<Rightarrow>
               if i < length cs then Inr (d\<lparr>arrays := (arrays d)(a \<mapsto> cs[i := (cs ! i)(m := e)])\<rparr>)
               else Inl OutOfBounds))"

text \<open>An entry keeps its dynamic type when it changes.\<close>

definition same_type :: "('e, 'm) entry_ops \<Rightarrow> 'e \<Rightarrow> 'e \<Rightarrow> bool" where
  "same_type ops e e' \<longleftrightarrow> (\<forall>m. storable ops e m \<longrightarrow> storable ops e' m)"

lemma writeRef_ok:
  assumes d: "data_ok ops n a d" and r: "deref ops p d = Inr e" and t: "same_type ops e e'"
  obtains d' where "writeRef p e' d = Inr d'" and "data_ok ops n a d'" and "p \<noteq> NullEntry \<longrightarrow> deref ops p d' = Inr e'"
    and "\<forall>p'. p' \<noteq> p \<longrightarrow> deref ops p' d' = deref ops p' d"
proof (cases p)
  case NullEntry
  then show thesis using that [of d] d by (simp add: writeRef_def)
next
  case (Cell b i m)
  then obtain cs where cs: "arrays d b = Some cs" "i < length cs" "(cs ! i) m = e"
    using r by (auto simp: deref_def split: option.splits if_splits)
  let ?c = "(cs ! i)(m := e')"
  let ?d = "d\<lparr>arrays := (arrays d)(b \<mapsto> cs[i := ?c])\<rparr>"
  have "cell_ok ops (cs ! i) \<Longrightarrow> cell_ok ops ?c" using cs(3) t by (auto simp: cell_ok_def same_type_def)
  then have "data_ok ops n a ?d"
    using d cs set_update_subset_insert [of cs i ?c] by (auto simp: data_ok_def split: if_splits)
  then show thesis
    by (rule that [of ?d, rotated]) (use cs Cell in \<open>auto simp: writeRef_def deref_def nth_list_update split: entry_ref.splits option.splits\<close>)
qed

section \<open>SingleTypeDataArray\<close>

text \<open>
  The class template stores entries of one type: \<^verbatim>\<open>getQueueEntry\<close> returns its only member for every
  entry, without looking at the entry's dynamic type. It does not implement \<^verbatim>\<open>isCompatibleEntry\<close>,
  which a subclass has to provide; it is the parameter \<open>compatible\<close> here. An entry is of the stored
  type (\<open>OfType\<close>) or of some other type; \<^verbatim>\<open>operator=\<close> of the stored type is its value copy, and an
  entry of another type is not assigned.
\<close>

datatype ('q, 'o) dyn_entry = OfType 'q | OtherType 'o

definition SingleType_ops ::
  "(('q, 'o) dyn_entry \<Rightarrow> bool) \<Rightarrow> 'q \<Rightarrow> ('q, 'o) dyn_entry \<Rightarrow> c_uint \<Rightarrow> (('q, 'o) dyn_entry, unit) entry_ops" where
  "SingleType_ops compatible dflt null sz =
     \<lparr>isCompatibleEntry = compatible,
      memberFor = (\<lambda>_. Some ()),
      defaultMember = (\<lambda>_. OfType dflt),
      assign = (\<lambda>d e. case e of OfType q \<Rightarrow> OfType q | OtherType _ \<Rightarrow> d),
      isNull = (\<lambda>e. case e of OfType _ \<Rightarrow> False | OtherType _ \<Rightarrow> True),
      nullEntry = null,
      dataEntrySize = sz\<rparr>"

definition of_stored_type :: "('q, 'o) dyn_entry \<Rightarrow> bool" where
  "of_stored_type e = (case e of OfType _ \<Rightarrow> True | OtherType _ \<Rightarrow> False)"

interpretation single: entry_class "SingleType_ops of_stored_type dflt (OtherType null) sz"
  for dflt :: 'q and null :: 'o and sz :: c_uint
  by unfold_locales
    (auto simp: storable_def SingleType_ops_def of_stored_type_def split: dyn_entry.splits)

end
