(* ===== verification/Queue_Base.thy ===== *)
theory Queue_Base
  imports Data_Array
begin

text \<open>
  The small classes every queue is built from: the status constants (\<^verbatim>\<open>queue/QueueConstants.cpp\<close>),
  the statistics (\<^verbatim>\<open>queue/QueueStats.h\<close>), the reader's cursor (\<^verbatim>\<open>queue/ReaderIndex.h\<close>), the mutex
  wrapper (\<^verbatim>\<open>threading/Mutex.h\<close>) and the base class \<^verbatim>\<open>queue/ProcessingQueue.h\<close> with its size policy.
\<close>

section \<open>QueueConstants\<close>

definition IS_FULL :: int where "IS_FULL = -1"
definition CANNOT_ADD :: int where "CANNOT_ADD = -2"
definition IS_TERMINATED :: int where "IS_TERMINATED = -3"
definition DEQUEUED :: int where "DEQUEUED = -4"

lemmas queue_constants = IS_FULL_def CANNOT_ADD_def IS_TERMINATED_def DEQUEUED_def

section \<open>QueueStats\<close>

record QueueStats =
  statSize :: c_uint
  addedCount :: c_uint
  removedCount :: c_uint

definition QueueStats_init :: "c_uint \<Rightarrow> QueueStats" where
  "QueueStats_init sz = \<lparr>statSize = sz, addedCount = 0, removedCount = 0\<rparr>"

definition incrementAddedCount :: "QueueStats \<Rightarrow> QueueStats" where
  "incrementAddedCount s = s\<lparr>addedCount := addedCount s + 1\<rparr>"

definition incrementRemovedCountBy :: "c_uint \<Rightarrow> QueueStats \<Rightarrow> QueueStats" where
  "incrementRemovedCountBy n s = s\<lparr>removedCount := removedCount s + n\<rparr>"

definition incrementRemovedCount :: "QueueStats \<Rightarrow> QueueStats" where
  "incrementRemovedCount s = s\<lparr>removedCount := removedCount s + 1\<rparr>"

definition stats_setSize :: "c_uint \<Rightarrow> QueueStats \<Rightarrow> QueueStats" where
  "stats_setSize n s = s\<lparr>statSize := n\<rparr>"

definition stats_isUsed :: "QueueStats \<Rightarrow> bool" where
  "stats_isUsed s \<longleftrightarrow> 0 < addedCount s"

text \<open>The three numbers \<^verbatim>\<open>print\<close> writes: entries still enqueued, entries handled, capacity.\<close>

definition stats_print :: "QueueStats \<Rightarrow> c_uint \<times> c_uint \<times> c_uint" where
  "stats_print s = (addedCount s - removedCount s, removedCount s, statSize s)"

section \<open>ReaderIndex\<close>

text \<open>Readers are objects with an address; \<open>rid\<close> is the address, a NULL pointer is \<open>None\<close>.\<close>

type_synonym rid = nat

record ReaderIndex =
  workerIdentifier :: int
  ri_index :: int
  ri_isEmpty :: bool
  ri_isDone :: bool
  ri_inQueue :: bool
  ri_previous :: "rid option"
  ri_next :: "rid option"
  ri_nextIndex :: int

definition ReaderIndex_init :: "int \<Rightarrow> ReaderIndex" where
  "ReaderIndex_init w = \<lparr>workerIdentifier = w, ri_index = -1, ri_isEmpty = True, ri_isDone = False,
     ri_inQueue = False, ri_previous = None, ri_next = None, ri_nextIndex = -1\<rparr>"

section \<open>Mutex\<close>

text \<open>
  \<^verbatim>\<open>pthreadWrapper::Mutex\<close> is a recursive pthread mutex: the owner may acquire it again, and it is free
  when it was released as often as it was acquired. A thread that has to wait is \<open>None\<close>.
\<close>

type_synonym tid = nat

record Mutex =
  owner :: "tid option"
  depth :: nat

definition Mutex_init :: Mutex where
  "Mutex_init = \<lparr>owner = None, depth = 0\<rparr>"

definition Mutex_acquire :: "tid \<Rightarrow> Mutex \<Rightarrow> Mutex option" where
  "Mutex_acquire t m =
     (case owner m of
        None \<Rightarrow> Some \<lparr>owner = Some t, depth = 1\<rparr>
      | Some u \<Rightarrow> if u = t then Some (m\<lparr>depth := Suc (depth m)\<rparr>) else None)"

definition Mutex_release :: "tid \<Rightarrow> Mutex \<Rightarrow> Mutex" where
  "Mutex_release t m =
     (if owner m = Some t
      then (if depth m \<le> 1 then Mutex_init else m\<lparr>depth := depth m - 1\<rparr>)
      else m)"

definition mutex_ok :: "Mutex \<Rightarrow> bool" where
  "mutex_ok m \<longleftrightarrow> (owner m = None \<longleftrightarrow> depth m = 0)"

lemma mutex_ok_acquire: "mutex_ok m \<Longrightarrow> Mutex_acquire t m = Some m' \<Longrightarrow> mutex_ok m'"
  by (auto simp: mutex_ok_def Mutex_acquire_def split: option.splits if_splits)

lemma mutex_ok_release: "mutex_ok m \<Longrightarrow> mutex_ok (Mutex_release t m)"
  by (auto simp: mutex_ok_def Mutex_release_def Mutex_init_def)

lemma Mutex_acquire_owner: "Mutex_acquire t m = Some m' \<Longrightarrow> owner m' = Some t"
  by (auto simp: Mutex_acquire_def split: option.splits if_splits)

lemma Mutex_release_acquire:
  "mutex_ok m \<Longrightarrow> Mutex_acquire t m = Some m' \<Longrightarrow> Mutex_release t m' = m"
  by (cases m) (auto simp: mutex_ok_def Mutex_acquire_def Mutex_release_def Mutex_init_def
      split: option.splits if_splits)

section \<open>ProcessingQueue\<close>

record ('e, 'm) ProcessingQueue =
  deleteQueueData :: bool
  queueData :: "'m entry_ref option list"
  dataEntries :: "('e, 'm) DataArray"
  currentSize :: c_uint

text \<open>
  \<^verbatim>\<open>nextIndex\<close>: \<^verbatim>\<open>(index + 1) % currentSize\<close> converts the sum to unsigned, takes the unsigned remainder
  (which traps when the size is 0) and converts the result back to \<^verbatim>\<open>int\<close>.
\<close>

definition nextIndex :: "int \<Rightarrow> c_uint \<Rightarrow> int result" where
  "nextIndex i n = (if n = 0 then Inl DivByZero else Inr (sint (word_of_int (i + 1) mod n :: c_uint)))"

lemma nextIndex_ok [c_arith]:
  "0 \<le> i \<Longrightarrow> i < 2147483647 \<Longrightarrow> n \<noteq> 0 \<Longrightarrow> nextIndex i n = Inr ((i + 1) mod uint n)"
  by (simp add: nextIndex_def sint_of_int_mod del: of_int_add)

text \<open>
  \<^verbatim>\<open>getEntrySize\<close> adds the size of the pointer kept per slot; \<^verbatim>\<open>MAX_QUEUE_SIZE\<close> is the number of entries
  that fit in 500 MB.
\<close>

definition getEntrySize :: "('e, 'm) entry_ops \<Rightarrow> c_uint" where
  "getEntrySize ops = dataEntrySize ops + 8"

definition MAX_QUEUE_SIZE :: "c_uint \<Rightarrow> c_uint result" where
  "MAX_QUEUE_SIZE entrySize = (if entrySize = 0 then Inl DivByZero else Inr (524288000 div entrySize))"

definition UINT_MAX :: c_uint where "UINT_MAX = 4294967295"

definition getNewQueueSize :: "('e, 'm) entry_ops \<Rightarrow> ('e, 'm, 'z) ProcessingQueue_scheme \<Rightarrow> c_uint result" where
  "getNewQueueSize ops q =
     (let newSize = currentSize q;
          newSize' = (if UINT_MAX div 2 \<le> newSize then UINT_MAX else newSize * 2)
      in bind_r (MAX_QUEUE_SIZE (getEntrySize ops)) (\<lambda>maxSize.
           Inr (if maxSize < newSize' then maxSize else newSize')))"

lemma uint_double_small:
  assumes "\<not> UINT_MAX div 2 \<le> (n :: c_uint)"
  shows "uint (n * 2) = 2 * uint n"
proof -
  have "uint n < 2147483647"
    using assms by (simp add: UINT_MAX_def word_le_def)
  then show ?thesis
    using uint_c_uint_range [of n] by (simp add: uint_word_ariths)
qed

text \<open>The size \<^verbatim>\<open>getNewQueueSize\<close> asks for, as an integer: twice the size, capped twice.\<close>

lemma getNewQueueSize_uint:
  assumes "getEntrySize ops \<noteq> 0"
  shows "\<exists>n. getNewQueueSize ops q = Inr n \<and>
    uint n = min (524288000 div uint (getEntrySize ops))
                 (if 2147483647 \<le> uint (currentSize q) then 4294967295 else 2 * uint (currentSize q))"
proof -
  have max: "uint (524288000 div getEntrySize ops) = 524288000 div uint (getEntrySize ops)"
    by (simp add: uint_div_distrib)
  have half: "UINT_MAX div 2 \<le> currentSize q \<longleftrightarrow> 2147483647 \<le> uint (currentSize q)"
    by (simp add: UINT_MAX_def word_le_def)
  show ?thesis
  proof (cases "UINT_MAX div 2 \<le> currentSize q")
    case True
    then show ?thesis
      using assms max half
      by (auto simp: getNewQueueSize_def MAX_QUEUE_SIZE_def Let_def word_less_def UINT_MAX_def min_def)
  next
    case False
    then have "uint (currentSize q * 2) = 2 * uint (currentSize q)"
      by (rule uint_double_small)
    then show ?thesis
      using False assms max half
      by (auto simp: getNewQueueSize_def MAX_QUEUE_SIZE_def Let_def word_less_def min_def)
  qed
qed

end
