(* ===== verification/Fifo_Spec.thy ===== *)
theory Fifo_Spec
  imports Queue_Base
begin

text \<open>
  The contract of a bounded FIFO queue that can grow, as a locale over a list abstraction, and what
  every client of it gets: in any sequence of insertions, removals and resizes, the entries delivered
  followed by the entries still queued are the entries queued at the start followed by the entries
  accepted, in order. Nothing is lost, duplicated or reordered, and no operation faults.
\<close>

datatype 'e qop = Enq 'e | Deq | Grow c_uint

text \<open>
  \<open>run_ops\<close> runs a sequence of operations and collects the entries accepted (the insertion returned an
  index) and the entries delivered.
\<close>

fun run_ops ::
  "('e \<Rightarrow> 'q \<Rightarrow> (int \<times> 'q) result) \<Rightarrow> ('q \<Rightarrow> ('e option \<times> 'q) result) \<Rightarrow> (c_uint \<Rightarrow> 'q \<Rightarrow> 'q result) \<Rightarrow>
   'e qop list \<Rightarrow> 'q \<Rightarrow> ('e list \<times> 'e list \<times> 'q) result" where
  "run_ops enq deq grow [] q = Inr ([], [], q)"
| "run_ops enq deq grow (Enq e # os) q =
     bind_r (enq e q) (\<lambda>(i, q1).
     bind_r (run_ops enq deq grow os q1) (\<lambda>(acc, del, q2).
       Inr (if 0 \<le> i then e # acc else acc, del, q2)))"
| "run_ops enq deq grow (Deq # os) q =
     bind_r (deq q) (\<lambda>(r, q1).
     bind_r (run_ops enq deq grow os q1) (\<lambda>(acc, del, q2).
       Inr (acc, (case r of None \<Rightarrow> del | Some e \<Rightarrow> e # del), q2)))"
| "run_ops enq deq grow (Grow n # os) q =
     bind_r (grow n q) (\<lambda>q1. run_ops enq deq grow os q1)"

definition grows_within :: "int \<Rightarrow> 'e qop list \<Rightarrow> bool" where
  "grows_within limit os = list_all (\<lambda>x. case x of Grow n \<Rightarrow> uint n \<le> limit | _ \<Rightarrow> True) os"

locale bounded_fifo =
  fixes invar :: "'q \<Rightarrow> bool" and list_of :: "'q \<Rightarrow> 'e list" and slots :: "'q \<Rightarrow> int"
    and accepts :: "'e \<Rightarrow> bool" and limit :: int
    and enq :: "'e \<Rightarrow> 'q \<Rightarrow> (int \<times> 'q) result"
    and deq :: "'q \<Rightarrow> ('e option \<times> 'q) result"
    and grow :: "c_uint \<Rightarrow> 'q \<Rightarrow> 'q result"
  assumes capacity: "invar q \<Longrightarrow> int (length (list_of q)) \<le> slots q - 1"
    and enq_room: "invar q \<Longrightarrow> accepts e \<Longrightarrow> int (length (list_of q)) < slots q - 1 \<Longrightarrow>
      \<exists>i q'. enq e q = Inr (i, q') \<and> 0 \<le> i \<and> invar q' \<and> list_of q' = list_of q @ [e] \<and> slots q' = slots q"
    and enq_full: "invar q \<Longrightarrow> int (length (list_of q)) = slots q - 1 \<Longrightarrow> enq e q = Inr (IS_FULL, q)"
    and enq_refused: "invar q \<Longrightarrow> \<not> accepts e \<Longrightarrow> int (length (list_of q)) < slots q - 1 \<Longrightarrow>
      enq e q = Inr (CANNOT_ADD, q)"
    and deq_empty: "invar q \<Longrightarrow> list_of q = [] \<Longrightarrow> \<exists>q'. deq q = Inr (None, q') \<and> invar q' \<and>
      list_of q' = [] \<and> slots q' = slots q"
    and deq_first: "invar q \<Longrightarrow> list_of q = e # es \<Longrightarrow> \<exists>q'. deq q = Inr (Some e, q') \<and> invar q' \<and>
      list_of q' = es \<and> slots q' = slots q"
    and grow_keeps: "invar q \<Longrightarrow> uint n \<le> limit \<Longrightarrow> \<exists>q'. grow n q = Inr q' \<and> invar q' \<and>
      list_of q' = list_of q \<and> slots q' = max (slots q) (uint n)"
begin

lemma enq_cases:
  assumes "invar q"
  obtains i q' where "enq e q = Inr (i, q')" "0 \<le> i" "invar q'" "list_of q' = list_of q @ [e]"
  | i where "enq e q = Inr (i, q)" "i < 0"
proof (cases "int (length (list_of q)) < slots q - 1")
  case False
  then have "int (length (list_of q)) = slots q - 1" using capacity [OF assms] by linarith
  then show thesis using that(2) enq_full [OF assms] by (simp add: IS_FULL_def)
next
  case True
  show thesis
  proof (cases "accepts e")
    case acc: True
    then show thesis using that(1) enq_room [OF assms acc True] by blast
  next
    case False
    then show thesis using that(2) enq_refused [OF assms False True] by (simp add: CANNOT_ADD_def)
  qed
qed

theorem fifo_run:
  "invar q \<Longrightarrow> grows_within limit os \<Longrightarrow>
   \<exists>acc del q'. run_ops enq deq grow os q = Inr (acc, del, q') \<and> invar q' \<and>
     del @ list_of q' = list_of q @ acc"
proof (induction os arbitrary: q)
  case Nil
  then show ?case by simp
next
  case (Cons x os)
  note IH = Cons.IH
  have os: "grows_within limit os" using Cons.prems(2) by (simp add: grows_within_def)
  show ?case
  proof (cases x)
    case (Enq e)
    from Cons.prems(1) show ?thesis
    proof (cases rule: enq_cases [where e = e])
      case (1 i q')
      then show ?thesis using Enq IH [OF 1(3) os] by auto
    next
      case (2 i)
      then show ?thesis using Enq IH [OF Cons.prems(1) os] by auto
    qed
  next
    case Deq
    show ?thesis
    proof (cases "list_of q")
      case Nil
      with deq_empty [OF Cons.prems(1)] show ?thesis using Deq IH [OF _ os] by fastforce
    next
      case (Cons e es)
      with deq_first [OF Cons.prems(1)] show ?thesis using Deq IH [OF _ os] by fastforce
    qed
  next
    case (Grow n)
    then have "uint n \<le> limit" using Cons.prems(2) by (simp add: grows_within_def)
    from grow_keeps [OF Cons.prems(1) this] show ?thesis using Grow IH [OF _ os] by fastforce
  qed
qed

end

end
