(* ===== verification/Sample_Entries.thy ===== *)
theory Sample_Entries
  imports Data_Array
begin

text \<open>
  The entry types the repository queues: \<^verbatim>\<open>sample/SampleQueueEntry1.h\<close>, \<^verbatim>\<open>sample/SampleQueueEntry2.h\<close>,
  the statuses they report (\<^verbatim>\<open>sample/SampleStatus.h\<close>), their time stamps (\<^verbatim>\<open>base/DateTime.h\<close>) and the
  array that stores both types (\<^verbatim>\<open>sample/SampleDataArray.h\<close>). The array's virtual functions,
  \<open>sample_ops\<close>, satisfy the contract \<open>entry_class\<close>.
\<close>

section \<open>Status\<close>

datatype statusCode = STATUS_SUCCESS | STATUS_ERROR | STATUS_UNKNOWN

record Status =
  status :: statusCode

definition Status_default :: Status where
  "Status_default = \<lparr>status = STATUS_UNKNOWN\<rparr>"

definition Status_isSuccess :: "Status \<Rightarrow> bool" where
  "Status_isSuccess s \<longleftrightarrow> status s = STATUS_SUCCESS"

definition Status_isError :: "Status \<Rightarrow> bool" where
  "Status_isError s \<longleftrightarrow> status s = STATUS_ERROR"

definition Status_appendDataTo :: "string \<Rightarrow> Status \<Rightarrow> string" where
  "Status_appendDataTo str s =
     str @ [CHR 0x09] @ ''result: '' @ (if Status_isSuccess s then ''success'' else ''failure'')"

definition Status_appendTo :: "string \<Rightarrow> Status \<Rightarrow> string" where
  "Status_appendTo str s = Status_appendDataTo (str @ ''Operation Status:'' @ [CHR 0x0A]) s"

definition Status_new :: "statusCode \<Rightarrow> Status" where
  "Status_new c = \<lparr>status = c\<rparr>"

definition convertToStringValue_Status :: "Status \<Rightarrow> string" where
  "convertToStringValue_Status value = Status_appendTo [] value"

definition Status_output :: "string \<Rightarrow> Status \<Rightarrow> string" where
  "Status_output stream s = stream @ Status_appendTo [] s"

section \<open>DateTime\<close>

record DateTime =
  timeSecs :: int

definition DateTime_add :: "DateTime \<Rightarrow> DateTime \<Rightarrow> DateTime" where
  "DateTime_add d t = d\<lparr>timeSecs := timeSecs d + timeSecs t\<rparr>"

definition DateTime_clear :: "DateTime \<Rightarrow> DateTime" where
  "DateTime_clear d = d\<lparr>timeSecs := 0\<rparr>"

definition hasTime :: "DateTime \<Rightarrow> bool" where
  "hasTime d \<longleftrightarrow> 0 < timeSecs d"

section \<open>Entries\<close>

text \<open>
  The status holder of an entry is a pointer to the producer's result receiver; receivers are
  identified by their address.
\<close>

type_synonym receiver_id = nat

record QueueEntryData1 =
  statusHolder :: "receiver_id option"
  id1 :: "64 word"
  string1 :: string
  id2 :: int
  withTimeStamp1 :: bool
  timeStamp1 :: DateTime

record QueueEntryData2 =
  withTimeStamp2 :: bool
  timeStamp2 :: DateTime
  stringData :: string
  str2 :: string
  bytes :: "8 word list"
  statusValue :: "receiver_id option"

datatype queue_entry = NullBase | SampleQueueEntry1 QueueEntryData1 | SampleQueueEntry2 QueueEntryData2

definition QueueEntryData1_new ::
  "64 word \<Rightarrow> string \<Rightarrow> int \<Rightarrow> DateTime \<Rightarrow> receiver_id option \<Rightarrow> QueueEntryData1" where
  "QueueEntryData1_new i1 s1 i2 ts linked =
     \<lparr>statusHolder = linked, id1 = i1, string1 = s1, id2 = i2, withTimeStamp1 = hasTime ts, timeStamp1 = ts\<rparr>"

definition QueueEntryData1_default :: QueueEntryData1 where
  "QueueEntryData1_default =
     \<lparr>statusHolder = None, id1 = 0, string1 = [], id2 = 0, withTimeStamp1 = False,
      timeStamp1 = \<lparr>timeSecs = 0\<rparr>\<rparr>"

definition QueueEntryData2_new ::
  "string \<Rightarrow> bool \<Rightarrow> DateTime \<Rightarrow> string \<Rightarrow> 8 word list \<Rightarrow> receiver_id option \<Rightarrow> QueueEntryData2" where
  "QueueEntryData2_new sd wts ts s bs linked =
     \<lparr>withTimeStamp2 = wts, timeStamp2 = ts, stringData = sd, str2 = s, bytes = bs, statusValue = linked\<rparr>"

definition QueueEntryData2_default :: QueueEntryData2 where
  "QueueEntryData2_default =
     \<lparr>withTimeStamp2 = False, timeStamp2 = \<lparr>timeSecs = 0\<rparr>, stringData = [], str2 = [], bytes = [],
      statusValue = None\<rparr>"

text \<open>
  The virtual \<^verbatim>\<open>operator=\<close>: the destination takes the source's members when the source has the
  destination's dynamic type; otherwise only the (empty) base part is assigned.
\<close>

fun assign_entry :: "queue_entry \<Rightarrow> queue_entry \<Rightarrow> queue_entry" where
  "assign_entry (SampleQueueEntry1 d) (SampleQueueEntry1 e) = SampleQueueEntry1 e"
| "assign_entry (SampleQueueEntry2 d) (SampleQueueEntry2 e) = SampleQueueEntry2 e"
| "assign_entry d e = d"

fun entry_isNull :: "queue_entry \<Rightarrow> bool" where
  "entry_isNull NullBase = True"
| "entry_isNull (SampleQueueEntry1 _) = False"
| "entry_isNull (SampleQueueEntry2 _) = False"

section \<open>SampleDataArray\<close>

datatype sample_member = Data1 | Data2

fun SampleQueueData_getQueueEntry :: "queue_entry \<Rightarrow> sample_member option" where
  "SampleQueueData_getQueueEntry (SampleQueueEntry1 _) = Some Data1"
| "SampleQueueData_getQueueEntry (SampleQueueEntry2 _) = Some Data2"
| "SampleQueueData_getQueueEntry NullBase = None"

fun sample_default :: "sample_member \<Rightarrow> queue_entry" where
  "sample_default Data1 = SampleQueueEntry1 QueueEntryData1_default"
| "sample_default Data2 = SampleQueueEntry2 QueueEntryData2_default"

text \<open>\<open>sz\<close> is \<^verbatim>\<open>sizeof(SampleQueueData)\<close>, which the compiler fixes.\<close>

definition sample_ops :: "c_uint \<Rightarrow> (queue_entry, sample_member) entry_ops" where
  "sample_ops sz =
     \<lparr>isCompatibleEntry = (\<lambda>_. True),
      memberFor = SampleQueueData_getQueueEntry,
      defaultMember = sample_default,
      assign = assign_entry,
      isNull = entry_isNull,
      nullEntry = NullBase,
      dataEntrySize = sz\<rparr>"

fun_cases memberForE: "SampleQueueData_getQueueEntry e = Some m"

lemma storable_sample:
  "storable (sample_ops sz) e m \<longleftrightarrow> SampleQueueData_getQueueEntry e = Some m"
  by (simp add: storable_def sample_ops_def)

lemma storable_sample_iff: "(\<exists>m. storable (sample_ops sz) e m) \<longleftrightarrow> e \<noteq> NullBase"
  by (cases e) (auto simp: storable_sample)

interpretation sample: entry_class "sample_ops sz" for sz
proof
  show "storable (sample_ops sz) (defaultMember (sample_ops sz) m) m" for m
    by (cases m) (simp_all add: storable_def sample_ops_def)
  show "assign (sample_ops sz) d e = e"
    if "storable (sample_ops sz) d m" "storable (sample_ops sz) e m" for d e m
    using that by (auto simp: storable_def sample_ops_def elim!: memberForE)
  show "\<not> isNull (sample_ops sz) e" if "storable (sample_ops sz) e m" for e m
    using that by (auto simp: storable_def sample_ops_def elim!: memberForE)
  show "isNull (sample_ops sz) (nullEntry (sample_ops sz))"
    by (simp add: sample_ops_def)
qed

end
