(* ===== verification/Reader_Writer_Queue.thy ===== *)
theory Reader_Writer_Queue
  imports Fifo_Spec Sample_Entries
begin

text \<open>
  The single-reader single-writer ring queue, \<^verbatim>\<open>queue/ReaderWriterQueue.h\<close> and \<^verbatim>\<open>.cpp\<close>: insertion,
  removal, the emptiness and fullness tests, growth, and the refinement of all of them to a bounded
  FIFO list. \<open>contents\<close> is the abstraction function, \<open>rwq_inv\<close> the representation invariant.
\<close>

section \<open>State\<close>

record ('e, 'm) ReaderWriterQueue = "('e, 'm) ProcessingQueue" +
  stats :: QueueStats
  readIndex :: int
  writeIndex :: int
  rwDebug :: bool

definition ReaderWriterQueue_new ::
  "('e, 'm) entry_ops \<Rightarrow> c_uint \<Rightarrow> ('e, 'm) DataArray \<Rightarrow> bool \<Rightarrow> ('e, 'm) ReaderWriterQueue" where
  "ReaderWriterQueue_new ops queueSize d del =
     \<lparr>deleteQueueData = del,
      queueData = replicate (unat queueSize) None,
      dataEntries = snd (DataArray_resize ops queueSize d),
      currentSize = queueSize,
      stats = QueueStats_init queueSize,
      readIndex = 0,
      writeIndex = 0,
      rwDebug = False\<rparr>"

section \<open>Operations\<close>

definition adjustIndexForComparison :: "c_uint \<Rightarrow> int \<Rightarrow> int \<Rightarrow> int" where
  "adjustIndexForComparison n i r =
     sint (if i < r then word_of_int i + n else word_of_int i :: c_uint)"

definition isFull :: "('e, 'm, 'z) ReaderWriterQueue_scheme \<Rightarrow> int result" where
  "isFull q = bind_r (nextIndex (writeIndex q) (currentSize q)) (\<lambda>n.
     Inr (if n = readIndex q then IS_FULL else n))"

text \<open>Reads and writes of the pointer array, with the bounds the hardware does not check.\<close>

definition queueData_get :: "int \<Rightarrow> 'm entry_ref option list \<Rightarrow> 'm entry_ref result" where
  "queueData_get i qd =
     (if 0 \<le> i \<and> nat i < length qd
      then (case qd ! nat i of None \<Rightarrow> Inl UninitRead | Some p \<Rightarrow> Inr p)
      else Inl OutOfBounds)"

definition queueData_set ::
  "int \<Rightarrow> 'm entry_ref \<Rightarrow> ('e, 'm, 'z) ReaderWriterQueue_scheme \<Rightarrow> ('e, 'm, 'z) ReaderWriterQueue_scheme result" where
  "queueData_set i p q =
     (if 0 \<le> i \<and> nat i < length (queueData q)
      then Inr (q\<lparr>queueData := (queueData q)[nat i := Some p]\<rparr>)
      else Inl OutOfBounds)"

definition insertAt ::
  "('e, 'm) entry_ops \<Rightarrow> 'e \<Rightarrow> 'm entry_ref \<Rightarrow> int \<Rightarrow> ('e, 'm, 'z) ReaderWriterQueue_scheme \<Rightarrow>
   ('e, 'm, 'z) ReaderWriterQueue_scheme result" where
  "insertAt ops entry destination i q =
     bind_r (queueData_set i destination q) (\<lambda>q1.
     bind_r (copyTo ops entry destination (dataEntries q1)) (\<lambda>d.
       Inr (q1\<lparr>dataEntries := d\<rparr>)))"

definition insertEntry ::
  "('e, 'm) entry_ops \<Rightarrow> 'e \<Rightarrow> ('e, 'm, 'z) ReaderWriterQueue_scheme \<Rightarrow>
   (bool \<times> ('e, 'm, 'z) ReaderWriterQueue_scheme) result" where
  "insertEntry ops entry q =
     (if isCompatibleEntry ops entry
      then bind_r (getQueueEntry ops (word_of_int (writeIndex q)) entry (dataEntries q)) (\<lambda>queueEntry.
        (case queueEntry of
           Some p \<Rightarrow> bind_r (insertAt ops entry p (writeIndex q) q) (\<lambda>q1. Inr (True, q1))
         | None \<Rightarrow> Inr (False, q)))
      else Inr (False, q))"

definition tryInsert ::
  "('e, 'm) entry_ops \<Rightarrow> 'e \<Rightarrow> ('e, 'm, 'z) ReaderWriterQueue_scheme \<Rightarrow>
   (int \<times> ('e, 'm, 'z) ReaderWriterQueue_scheme) result" where
  "tryInsert ops entry q =
     bind_r (isFull q) (\<lambda>n.
       if n = IS_FULL then Inr (IS_FULL, q)
       else bind_r (insertEntry ops entry q) (\<lambda>(inserted, q1).
         if \<not> inserted then Inr (CANNOT_ADD, q1) else Inr (n, q1)))"

definition ReaderWriterQueue_add ::
  "('e, 'm) entry_ops \<Rightarrow> 'e \<Rightarrow> ('e, 'm, 'z) ReaderWriterQueue_scheme \<Rightarrow>
   (int \<times> ('e, 'm, 'z) ReaderWriterQueue_scheme) result" where
  "ReaderWriterQueue_add ops entry q =
     bind_r (tryInsert ops entry q) (\<lambda>(n, q1).
       if n < 0 then Inr (n, q1)
       else Inr (writeIndex q1, q1\<lparr>writeIndex := n, stats := incrementAddedCount (stats q1)\<rparr>))"

definition ReaderWriterQueue_isEmpty ::
  "('e, 'm, 'z) ReaderWriterQueue_scheme \<Rightarrow> ReaderIndex \<Rightarrow> bool \<times> ReaderIndex" where
  "ReaderWriterQueue_isEmpty q ri =
     (let e = (readIndex q = writeIndex q) in (e, ri\<lparr>ri_isEmpty := e\<rparr>))"

definition ReaderWriterQueue_remove ::
  "('e, 'm, 'z) ReaderWriterQueue_scheme \<Rightarrow> ReaderIndex \<Rightarrow>
   ('m entry_ref \<times> ('e, 'm, 'z) ReaderWriterQueue_scheme \<times> ReaderIndex) result" where
  "ReaderWriterQueue_remove q ri =
     (let (empty, ri1) = ReaderWriterQueue_isEmpty q ri
      in if empty then Inr (NullEntry, q, ri1)
         else let ri2 = ri1\<lparr>ri_index := readIndex q\<rparr>
              in bind_r (queueData_get (readIndex q) (queueData q)) (\<lambda>res.
                 bind_r (nextIndex (readIndex q) (currentSize q)) (\<lambda>n.
                   Inr (res, q\<lparr>readIndex := n\<rparr>, ri2))))"

text \<open>
  The copying loop of \<^verbatim>\<open>resize\<close>. It starts at the read index and runs while the index is before the
  write index; \<^verbatim>\<open>currentSize\<close> already holds the new size, the old size is a parameter. \<open>fuel\<close> bounds the
  number of tests of the loop condition; running out is \<open>OutOfFuel\<close>.
\<close>

fun resizeLoop ::
  "nat \<Rightarrow> ('e, 'm) entry_ops \<Rightarrow> 'm entry_ref option list \<Rightarrow> c_uint \<Rightarrow> int \<Rightarrow> int \<Rightarrow>
   ('e, 'm, 'z) ReaderWriterQueue_scheme \<Rightarrow> ('e, 'm, 'z) ReaderWriterQueue_scheme result" where
  "resizeLoop 0 ops oldQueueData oldSize adjustment i q = Inl OutOfFuel"
| "resizeLoop (Suc fuel) ops oldQueueData oldSize adjustment i q =
     (if adjustIndexForComparison (currentSize q) i (readIndex q)
           < adjustIndexForComparison (currentSize q) (writeIndex q) (readIndex q)
      then
        (let newIndex = (if writeIndex q < i then i + adjustment else i) in
         bind_r (queueData_get i oldQueueData) (\<lambda>oldEntry.
         bind_r (deref ops oldEntry (dataEntries q)) (\<lambda>old.
         bind_r (getQueueEntry ops (word_of_int newIndex) old (dataEntries q)) (\<lambda>newEntry.
         bind_r (case newEntry of
                   Some p \<Rightarrow> insertAt ops old p newIndex q
                 | None \<Rightarrow> queueData_set newIndex NullEntry q) (\<lambda>q1.
         bind_r (nextIndex i oldSize) (\<lambda>i1.
           resizeLoop fuel ops oldQueueData oldSize adjustment i1 q1))))))
      else Inr q)"

definition ReaderWriterQueue_resize ::
  "('e, 'm) entry_ops \<Rightarrow> c_uint \<Rightarrow> ('e, 'm, 'z) ReaderWriterQueue_scheme \<Rightarrow>
   ('e, 'm, 'z) ReaderWriterQueue_scheme result" where
  "ReaderWriterQueue_resize ops size' q =
     (if size' \<le> currentSize q then Inr q
      else
        let oldQueueData = queueData q;
            (oldEntries, d) = DataArray_resize ops size' (dataEntries q);
            oldSize = currentSize q;
            q1 = q\<lparr>queueData := replicate (unat size') None, dataEntries := d, currentSize := size'\<rparr>;
            adjustment = sint (size' - oldSize)
        in bind_r (resizeLoop (Suc (unat oldSize)) ops oldQueueData oldSize adjustment (readIndex q) q1) (\<lambda>q2.
             let q3 = (if writeIndex q2 + 1 \<le> readIndex q2
                       then q2\<lparr>readIndex := readIndex q2 + adjustment\<rparr> else q2)
             in Inr (q3\<lparr>dataEntries := deleteEntries oldEntries (dataEntries q3),
                        stats := stats_setSize size' (stats q3)\<rparr>)))"

definition getNumElements :: "('e, 'm, 'z) ReaderWriterQueue_scheme \<Rightarrow> int" where
  "getNumElements q = writeIndex q - readIndex q"

text \<open>
  \<^verbatim>\<open>print\<close> writes one line per waiting entry: a running count, the slot and the entry.
\<close>

fun printLoop ::
  "nat \<Rightarrow> ('e, 'm) entry_ops \<Rightarrow> int \<Rightarrow> int \<Rightarrow> ('e, 'm, 'z) ReaderWriterQueue_scheme \<Rightarrow>
   (int \<times> int \<times> 'e) list result" where
  "printLoop 0 ops count i q = Inl OutOfFuel"
| "printLoop (Suc fuel) ops count i q =
     (if adjustIndexForComparison (currentSize q) i (readIndex q)
           < adjustIndexForComparison (currentSize q) (writeIndex q) (readIndex q)
      then
        bind_r (queueData_get i (queueData q)) (\<lambda>p.
        bind_r (deref ops p (dataEntries q)) (\<lambda>entry.
        bind_r (nextIndex i (currentSize q)) (\<lambda>i1.
        bind_r (printLoop fuel ops (count + 1) i1 q) (\<lambda>rest.
          Inr ((count + 1, i, entry) # rest)))))
      else Inr [])"

definition ReaderWriterQueue_print ::
  "('e, 'm) entry_ops \<Rightarrow> ('e, 'm, 'z) ReaderWriterQueue_scheme \<Rightarrow> (int \<times> int \<times> 'e) list result" where
  "ReaderWriterQueue_print ops q = printLoop (Suc (unat (currentSize q))) ops 0 (readIndex q) q"

text \<open>
  How a consumer uses \<^verbatim>\<open>remove\<close>: it reads through the reference and treats the null entry as "nothing".
\<close>

definition ReaderWriterQueue_consume ::
  "('e, 'm) entry_ops \<Rightarrow> ReaderIndex \<Rightarrow> ('e, 'm, 'z) ReaderWriterQueue_scheme \<Rightarrow>
   ('e option \<times> ('e, 'm, 'z) ReaderWriterQueue_scheme) result" where
  "ReaderWriterQueue_consume ops ri q =
     bind_r (ReaderWriterQueue_remove q ri) (\<lambda>(p, q1, ri1).
     bind_r (deref ops p (dataEntries q1)) (\<lambda>entry.
       Inr (if isNull ops entry then None else Some entry, q1)))"

text \<open>A writer that adds a list of entries, whatever each insertion returns.\<close>

fun addAll ::
  "('e, 'm) entry_ops \<Rightarrow> 'e list \<Rightarrow> ('e, 'm, 'z) ReaderWriterQueue_scheme \<Rightarrow>
   ('e, 'm, 'z) ReaderWriterQueue_scheme result" where
  "addAll ops [] q = Inr q"
| "addAll ops (e # es) q = bind_r (ReaderWriterQueue_add ops e q) (\<lambda>(i, q1). addAll ops es q1)"

section \<open>Abstraction and invariant\<close>

abbreviation ring_size :: "('e, 'm, 'z) ReaderWriterQueue_scheme \<Rightarrow> int" where
  "ring_size q \<equiv> uint (currentSize q)"

definition liveCount :: "('e, 'm, 'z) ReaderWriterQueue_scheme \<Rightarrow> nat" where
  "liveCount q = nat (cdist (ring_size q) (readIndex q) (writeIndex q))"

definition slotAt :: "('e, 'm, 'z) ReaderWriterQueue_scheme \<Rightarrow> nat \<Rightarrow> int" where
  "slotAt q k = (readIndex q + int k) mod ring_size q"

definition slotValue :: "('e, 'm) entry_ops \<Rightarrow> ('e, 'm, 'z) ReaderWriterQueue_scheme \<Rightarrow> int \<Rightarrow> 'e" where
  "slotValue ops q i =
     (case queueData q ! nat i of
        None \<Rightarrow> nullEntry ops
      | Some p \<Rightarrow> (case deref ops p (dataEntries q) of Inl _ \<Rightarrow> nullEntry ops | Inr e \<Rightarrow> e))"

definition contents :: "('e, 'm) entry_ops \<Rightarrow> ('e, 'm, 'z) ReaderWriterQueue_scheme \<Rightarrow> 'e list" where
  "contents ops q = map (\<lambda>k. slotValue ops q (slotAt q k)) [0..<liveCount q]"

text \<open>
  The index part of the invariant: the ring has between 1 and \<open>2 ^ 30\<close> slots and both indices are
  slots. Up to \<open>2 ^ 30\<close> slots, an adjusted index (at most twice the size) is still a positive \<^verbatim>\<open>int\<close>.
\<close>

definition ring_ok :: "('e, 'm, 'z) ReaderWriterQueue_scheme \<Rightarrow> bool" where
  "ring_ok q \<longleftrightarrow> currentSize q \<noteq> 0 \<and> ring_size q \<le> 1073741824 \<and>
     length (queueData q) = unat (currentSize q) \<and>
     0 \<le> readIndex q \<and> readIndex q < ring_size q \<and>
     0 \<le> writeIndex q \<and> writeIndex q < ring_size q"

definition slot_ok :: "nat \<Rightarrow> ('e, 'm, 'z) ReaderWriterQueue_scheme \<Rightarrow> int \<Rightarrow> bool" where
  "slot_ok a q i \<longleftrightarrow> (\<exists>m. queueData q ! nat i = Some (Cell a (nat i) m))"

definition rwq_inv :: "('e, 'm) entry_ops \<Rightarrow> ('e, 'm, 'z) ReaderWriterQueue_scheme \<Rightarrow> bool" where
  "rwq_inv ops q \<longleftrightarrow> ring_ok q \<and>
     (\<exists>a. data_ok ops (currentSize q) a (dataEntries q) \<and> (\<forall>k < liveCount q. slot_ok a q (slotAt q k)))"

text \<open>The slot at the write index already holds \<open>e\<close>, and the write index has not moved over it yet.\<close>

definition stored :: "('e, 'm) entry_ops \<Rightarrow> ('e, 'm, 'z) ReaderWriterQueue_scheme \<Rightarrow> 'e \<Rightarrow> bool" where
  "stored ops q e \<longleftrightarrow> slotValue ops q (writeIndex q) = e \<and>
     (\<exists>a. data_ok ops (currentSize q) a (dataEntries q) \<and> slot_ok a q (writeIndex q))"

section \<open>Index lemmas\<close>

lemma adjustIndexForComparison_eq [c_arith]:
  assumes "0 \<le> i" and "i + uint n < 2147483648"
  shows "adjustIndexForComparison n i r = (if i < r then i + uint n else i)"
proof -
  have "i < 2147483648" using assms uint_c_uint_range(1) [of n] by linarith
  then show ?thesis
    using assms by (simp add: adjustIndexForComparison_def sint_of_int_add sint_of_int_small)
qed

lemma adjust_less_iff:
  assumes "0 \<le> i" "i < uint n" "0 \<le> j" "j < uint n" "0 \<le> r" "r < uint n" "uint n \<le> 1073741824"
  shows "adjustIndexForComparison n i r < adjustIndexForComparison n j r \<longleftrightarrow>
    cdist (uint n) r i < cdist (uint n) r j"
  using assms by (auto simp: adjustIndexForComparison_eq cdist_cases)

lemma ring_okD:
  assumes "ring_ok q"
  shows "currentSize q \<noteq> 0" "0 < ring_size q" "ring_size q \<le> 1073741824"
    "length (queueData q) = unat (currentSize q)"
    "0 \<le> readIndex q" "readIndex q < ring_size q" "0 \<le> writeIndex q" "writeIndex q < ring_size q"
  using assms by (auto simp: ring_ok_def c_arith)

lemma nat_less_unat: "0 \<le> i \<Longrightarrow> i < uint (n :: c_uint) \<Longrightarrow> nat i < unat n"
  by (simp add: nat_less_iff)

lemma slotAt_range:
  assumes "ring_ok q" shows "0 \<le> slotAt q k" "slotAt q k < ring_size q"
  using ring_okD [OF assms] by (simp_all add: slotAt_def)

lemma nextIndex_slotAt:
  assumes "ring_ok q"
  shows "nextIndex (slotAt q k) (currentSize q) = Inr (slotAt q (Suc k))"
proof -
  have "slotAt q k < 2147483647"
    using slotAt_range(2) [OF assms, of k] ring_okD(3) [OF assms] by linarith
  then have "nextIndex (slotAt q k) (currentSize q) = Inr ((slotAt q k + 1) mod ring_size q)"
    using slotAt_range(1) [OF assms] ring_okD(1) [OF assms] by (simp add: nextIndex_ok)
  then show ?thesis by (simp add: slotAt_def mod_simps algebra_simps)
qed

lemma int_liveCount: "ring_ok q \<Longrightarrow> int (liveCount q) = cdist (ring_size q) (readIndex q) (writeIndex q)"
  using ring_okD [of q] by (simp add: liveCount_def circ)

lemma liveCount_less: "ring_ok q \<Longrightarrow> int (liveCount q) < ring_size q"
  using ring_okD [of q] by (simp add: int_liveCount circ)

lemma cdist_slotAt:
  assumes "ring_ok q" "int k < ring_size q"
  shows "cdist (ring_size q) (readIndex q) (slotAt q k) = int k"
  using assms by (simp add: slotAt_def circ)

lemma slotAt_liveCount: "ring_ok q \<Longrightarrow> slotAt q (liveCount q) = writeIndex q"
  using ring_okD [of q] by (simp add: slotAt_def int_liveCount circ)

lemma slotAt_inj:
  assumes "ring_ok q" "int j < ring_size q" "int k < ring_size q" "slotAt q j = slotAt q k"
  shows "j = k"
  using cdist_slotAt [OF assms(1,2)] cdist_slotAt [OF assms(1,3)] assms(4) by (metis of_nat_eq_iff)

lemma slotAt_not_write:
  "ring_ok q \<Longrightarrow> k < liveCount q \<Longrightarrow> slotAt q k \<noteq> writeIndex q"
  using slotAt_inj [of q k "liveCount q"] liveCount_less [of q] slotAt_liveCount [of q] by auto

lemma isFull_eq:
  assumes "ring_ok q"
  shows "isFull q =
    Inr (if int (liveCount q) = ring_size q - 1 then IS_FULL else (writeIndex q + 1) mod ring_size q)"
  using ring_okD [OF assms]
  by (simp add: isFull_def nextIndex_ok int_liveCount [OF assms] ring_full_iff)

lemma next_slot_valid:
  assumes "ring_ok q"
  shows "\<not> (writeIndex q + 1) mod ring_size q < 0" "(writeIndex q + 1) mod ring_size q \<noteq> IS_FULL"
proof -
  have "0 \<le> (writeIndex q + 1) mod ring_size q"
    using ring_okD(2) [OF assms] by (rule pos_mod_sign)
  then show "\<not> (writeIndex q + 1) mod ring_size q < 0" "(writeIndex q + 1) mod ring_size q \<noteq> IS_FULL"
    unfolding IS_FULL_def by linarith+
qed

lemma isEmpty_iff:
  assumes "ring_ok q"
  shows "fst (ReaderWriterQueue_isEmpty q ri) \<longleftrightarrow> liveCount q = 0"
proof -
  have "liveCount q = 0 \<longleftrightarrow> writeIndex q = readIndex q"
    using ring_okD [OF assms] by (auto simp: liveCount_def cdist_cases)
  then show ?thesis by (auto simp: ReaderWriterQueue_isEmpty_def Let_def)
qed

lemma length_contents [simp]: "length (contents ops q) = liveCount q"
  by (simp add: contents_def)

lemma contents_nth: "k < liveCount q \<Longrightarrow> contents ops q ! k = slotValue ops q (slotAt q k)"
  by (simp add: contents_def)

lemma contents_cong:
  assumes "readIndex q' = readIndex q" "writeIndex q' = writeIndex q" "currentSize q' = currentSize q"
    and "\<And>k. k < liveCount q \<Longrightarrow> slotValue ops q' (slotAt q k) = slotValue ops q (slotAt q k)"
  shows "contents ops q' = contents ops q"
  using assms by (simp add: contents_def liveCount_def slotAt_def)

section \<open>Insertion\<close>

context entry_class
begin

lemma insertAt_ok:
  assumes d: "data_ok ops n a (dataEntries q)" and e: "storable ops e m"
    and i: "0 \<le> i" "i < uint n" and len: "length (queueData q) = unat n"
  obtains d' where
    "insertAt ops e (Cell a (nat i) m) i q =
       Inr (q\<lparr>queueData := (queueData q)[nat i := Some (Cell a (nat i) m)], dataEntries := d'\<rparr>)"
    and "data_ok ops n a d'" and "deref ops (Cell a (nat i) m) d' = Inr e"
    and "frame_except ops a (nat i) (dataEntries q) d'"
    and "freshArray d' = freshArray (dataEntries q)"
proof -
  have ni: "nat i < unat n" using i by (rule nat_less_unat)
  show thesis
  proof (rule copyTo_ok [OF d e ni])
    fix d'
    assume "copyTo ops e (Cell a (nat i) m) (dataEntries q) = Inr d'" "data_ok ops n a d'"
      "deref ops (Cell a (nat i) m) d' = Inr e" "frame_except ops a (nat i) (dataEntries q) d'"
      "freshArray d' = freshArray (dataEntries q)"
    then show thesis
      using that [of d'] i ni len by (simp add: insertAt_def queueData_set_def)
  qed
qed

lemma slot_ok_value:
  assumes "slot_ok a q i" "data_ok ops n a (dataEntries q)" "0 \<le> i" "i < uint n"
  obtains m where "queueData q ! nat i = Some (Cell a (nat i) m)"
    and "deref ops (Cell a (nat i) m) (dataEntries q) = Inr (slotValue ops q i)"
    and "storable ops (slotValue ops q i) m"
proof -
  from assms(2) obtain cs where cs: "arrays (dataEntries q) a = Some cs" "length cs = unat n"
    "\<forall>c \<in> set cs. cell_ok ops c"
    by (auto simp: data_ok_def)
  have ni: "nat i < unat n" using assms(3,4) by (rule nat_less_unat)
  from assms(1) obtain m where m: "queueData q ! nat i = Some (Cell a (nat i) m)"
    by (auto simp: slot_ok_def)
  have v: "slotValue ops q i = (cs ! nat i) m"
    using cs m ni by (simp add: slotValue_def deref_def)
  have "cell_ok ops (cs ! nat i)" using cs ni by simp
  then show thesis
    using that [of m] m v cs ni by (simp add: deref_def cell_ok_def)
qed

lemma slotValue_frame:
  assumes "slot_ok a q j" and "queueData q' ! nat j = queueData q ! nat j"
    and "frame_except ops b i (dataEntries q) (dataEntries q')" and "b \<noteq> a \<or> nat j \<noteq> i"
  shows "slotValue ops q' j = slotValue ops q j" and "slot_ok a q' j"
  using assms by (auto simp: slot_ok_def slotValue_def frame_except_def)

lemma insertEntry_ok:
  assumes d: "data_ok ops (currentSize q) a (dataEntries q)" and ring: "ring_ok q"
    and e: "storable ops e m"
  obtains d' where
    "insertEntry ops e q =
       Inr (True, q\<lparr>queueData := (queueData q)[nat (writeIndex q) := Some (Cell a (nat (writeIndex q)) m)],
                    dataEntries := d'\<rparr>)"
    and "data_ok ops (currentSize q) a d'" and "deref ops (Cell a (nat (writeIndex q)) m) d' = Inr e"
    and "frame_except ops a (nat (writeIndex q)) (dataEntries q) d'"
proof -
  note r = ring_okD [OF ring]
  have w: "uint (word_of_int (writeIndex q) :: c_uint) = writeIndex q"
    using r by (intro uint_of_int_small) linarith+
  then have "unat (word_of_int (writeIndex q) :: c_uint) = nat (writeIndex q)"
    by (metis nat_uint_eq)
  moreover have "word_of_int (writeIndex q) < currentSize q"
    using r w by (simp add: word_less_def)
  ultimately have g: "getQueueEntry ops (word_of_int (writeIndex q)) e (dataEntries q) =
      Inr (Some (Cell a (nat (writeIndex q)) m))"
    using getQueueEntry_storable [OF d e] by simp
  have c: "isCompatibleEntry ops e" using e by (simp add: storable_def)
  show thesis
  proof (rule insertAt_ok [OF d e r(7,8,4)], goal_cases)
    case (1 d')
    then show thesis using that [of d'] g c by (simp add: insertEntry_def)
  qed
qed

text \<open>
  The two halves of \<^verbatim>\<open>add\<close>. Storing writes the slot at the write index, which no waiting entry uses;
  publishing advances the write index over it.
\<close>

lemma store_ok:
  assumes inv: "rwq_inv ops q" and e: "storable ops e m"
  obtains q1 where "insertEntry ops e q = Inr (True, q1)"
    and "q1 = q\<lparr>queueData := queueData q1, dataEntries := dataEntries q1\<rparr>"
    and "rwq_inv ops q1" and "contents ops q1 = contents ops q" and "stored ops q1 e"
    and "\<And>k. k < liveCount q \<Longrightarrow> queueData q1 ! nat (slotAt q k) = queueData q ! nat (slotAt q k)"
proof -
  from inv obtain a where ring: "ring_ok q" and d: "data_ok ops (currentSize q) a (dataEntries q)"
    and live: "\<And>k. k < liveCount q \<Longrightarrow> slot_ok a q (slotAt q k)"
    by (auto simp: rwq_inv_def)
  note r = ring_okD [OF ring]
  let ?w = "writeIndex q"
  show thesis
  proof (rule insertEntry_ok [OF d ring e])
    fix d'
    let ?q1 = "q\<lparr>queueData := (queueData q)[nat ?w := Some (Cell a (nat ?w) m)], dataEntries := d'\<rparr>"
    assume ins: "insertEntry ops e q = Inr (True, ?q1)"
      and d': "data_ok ops (currentSize q) a d'"
      and new: "deref ops (Cell a (nat ?w) m) d' = Inr e"
      and fr: "frame_except ops a (nat ?w) (dataEntries q) d'"
    have ne: "nat (slotAt q k) \<noteq> nat ?w" if "k < liveCount q" for k
      using slotAt_not_write [OF ring that] slotAt_range [OF ring, of k] r by auto
    have old: "slotValue ops ?q1 (slotAt q k) = slotValue ops q (slotAt q k) \<and> slot_ok a ?q1 (slotAt q k)"
      if "k < liveCount q" for k
      using ne [OF that] slotValue_frame [OF live [OF that], where q' = ?q1 and b = a and i = "nat ?w"] fr by simp
    have "stored ops ?q1 e"
      using r new d' nat_less_unat [of ?w "currentSize q"] by (auto simp: stored_def slotValue_def slot_ok_def)
    moreover have "rwq_inv ops ?q1"
      using ring d' old r by (auto simp: rwq_inv_def liveCount_def slotAt_def ring_ok_def intro!: exI [of _ a])
    moreover have "contents ops ?q1 = contents ops q"
      using old by (intro contents_cong) simp_all
    ultimately show thesis using ins by (intro that [of ?q1]) (auto simp: ne [symmetric])
  qed
qed

lemma publish_ok:
  fixes t :: QueueStats
  assumes inv: "rwq_inv ops q" and st: "stored ops q e" and room: "int (liveCount q) < ring_size q - 1"
  defines "q' \<equiv> q\<lparr>writeIndex := (writeIndex q + 1) mod ring_size q, stats := t\<rparr>"
  shows "rwq_inv ops q'" "contents ops q' = contents ops q @ [e]" "liveCount q' = Suc (liveCount q)"
proof -
  from inv obtain a where ring: "ring_ok q" and d: "data_ok ops (currentSize q) a (dataEntries q)"
    and live: "\<And>k. k < liveCount q \<Longrightarrow> slot_ok a q (slotAt q k)"
    by (auto simp: rwq_inv_def)
  note r = ring_okD [OF ring]
  have top: "slotValue ops q (writeIndex q) = e" "slot_ok a q (writeIndex q)"
    using st d by (auto simp: stored_def data_ok_def)
  show lc: "liveCount q' = Suc (liveCount q)"
    using room r cdist_succ [of "writeIndex q" "ring_size q" "readIndex q"] int_liveCount [OF ring]
    by (simp add: q'_def liveCount_def nat_add_distrib cdist_range)
  have slot: "slotAt q' k = slotAt q k" "slotValue ops q' i = slotValue ops q i" "slot_ok a q' i = slot_ok a q i" for k i
    by (simp_all add: q'_def slotAt_def slotValue_def slot_ok_def split: option.split)
  have "ring_ok q'" using ring r by (simp add: ring_ok_def q'_def)
  moreover have "data_ok ops (currentSize q') a (dataEntries q')" using d by (simp add: q'_def)
  ultimately show "rwq_inv ops q'"
    using lc slot live top slotAt_liveCount [OF ring]
    by (auto simp: rwq_inv_def less_Suc_eq intro!: exI [of _ a])
  show "contents ops q' = contents ops q @ [e]"
    using lc slot top slotAt_liveCount [OF ring] by (simp add: contents_def)
qed

lemma add_ok:
  assumes inv: "rwq_inv ops q" and e: "storable ops e m" and room: "int (liveCount q) < ring_size q - 1"
  obtains q' where "ReaderWriterQueue_add ops e q = Inr (writeIndex q, q')" and "rwq_inv ops q'"
    and "contents ops q' = contents ops q @ [e]"
    and "readIndex q' = readIndex q" and "currentSize q' = currentSize q"
    and "writeIndex q' = (writeIndex q + 1) mod ring_size q"
    and "addedCount (stats q') = addedCount (stats q) + 1"
proof (rule store_ok [OF inv e])
  fix q1 assume q1: "insertEntry ops e q = Inr (True, q1)"
    "q1 = q\<lparr>queueData := queueData q1, dataEntries := dataEntries q1\<rparr>"
    "rwq_inv ops q1" "contents ops q1 = contents ops q" "stored ops q1 e"
  have ring: "ring_ok q" using inv by (simp add: rwq_inv_def)
  have f: "writeIndex q1 = writeIndex q" "readIndex q1 = readIndex q" "currentSize q1 = currentSize q" "stats q1 = stats q"
    by (subst q1(2), simp)+
  let ?q' = "q1\<lparr>writeIndex := (writeIndex q + 1) mod ring_size q, stats := incrementAddedCount (stats q)\<rparr>"
  have "ReaderWriterQueue_add ops e q = Inr (writeIndex q, ?q')"
    using q1(1) f room next_slot_valid [OF ring]
    by (simp add: ReaderWriterQueue_add_def tryInsert_def isFull_eq [OF ring])
  moreover have "liveCount q1 = liveCount q" by (simp add: liveCount_def f)
  ultimately show thesis
    using publish_ok [OF q1(3,5), of "incrementAddedCount (stats q)"] room f q1(4)
    by (intro that [of ?q']) (simp_all add: incrementAddedCount_def)
qed

lemma add_full:
  assumes "ring_ok q" and "int (liveCount q) = ring_size q - 1"
  shows "ReaderWriterQueue_add ops e q = Inr (IS_FULL, q)"
  using assms by (simp add: ReaderWriterQueue_add_def tryInsert_def isFull_eq IS_FULL_def)

lemma insertEntry_refused:
  assumes "data_ok ops n a (dataEntries q)" and "\<And>m. \<not> storable ops e m"
  shows "insertEntry ops e q = Inr (False, q)"
  using assms
  by (cases "memberFor ops e") (auto simp: insertEntry_def getQueueEntry_def data_ok_def storable_def)

lemma add_refused:
  assumes inv: "rwq_inv ops q" and no: "\<And>m. \<not> storable ops e m"
    and room: "int (liveCount q) < ring_size q - 1"
  shows "ReaderWriterQueue_add ops e q = Inr (CANNOT_ADD, q)"
proof -
  from inv obtain a where ring: "ring_ok q" and d: "data_ok ops (currentSize q) a (dataEntries q)"
    by (auto simp: rwq_inv_def)
  then show ?thesis
    using room insertEntry_refused [OF d no] next_slot_valid [OF ring]
    by (simp add: ReaderWriterQueue_add_def tryInsert_def isFull_eq [OF ring] CANNOT_ADD_def)
qed

section \<open>Removal\<close>

lemma remove_ok:
  assumes inv: "rwq_inv ops q" and ne: "contents ops q \<noteq> []"
  obtains p where
    "ReaderWriterQueue_remove q ri =
       Inr (p, q\<lparr>readIndex := (readIndex q + 1) mod ring_size q\<rparr>,
            ri\<lparr>ri_isEmpty := False, ri_index := readIndex q\<rparr>)"
    and "deref ops p (dataEntries q) = Inr (hd (contents ops q))"
    and "\<exists>a m. p = Cell a (nat (readIndex q)) m"
    and "rwq_inv ops (q\<lparr>readIndex := (readIndex q + 1) mod ring_size q\<rparr>)"
    and "contents ops (q\<lparr>readIndex := (readIndex q + 1) mod ring_size q\<rparr>) = tl (contents ops q)"
proof -
  from inv obtain a where ring: "ring_ok q" and d: "data_ok ops (currentSize q) a (dataEntries q)"
    and live: "\<And>k. k < liveCount q \<Longrightarrow> slot_ok a q (slotAt q k)"
    by (auto simp: rwq_inv_def)
  note r = ring_okD [OF ring]
  let ?q' = "q\<lparr>readIndex := (readIndex q + 1) mod ring_size q\<rparr>"
  have pos: "0 < liveCount q" using ne by (simp add: contents_def)
  have s0: "slotAt q 0 = readIndex q" using r by (simp add: slotAt_def)
  obtain m where m: "queueData q ! nat (readIndex q) = Some (Cell a (nat (readIndex q)) m)"
    "deref ops (Cell a (nat (readIndex q)) m) (dataEntries q) = Inr (slotValue ops q (readIndex q))"
    using slot_ok_value [OF _ d r(5,6)] live [OF pos] s0 by metis
  have hd: "hd (contents ops q) = slotValue ops q (readIndex q)"
    using pos s0 contents_nth [OF pos, of ops] by (simp add: hd_conv_nth contents_def)
  have lc: "liveCount ?q' = liveCount q - 1"
    using pos r cdist_pred [of "writeIndex q" "ring_size q" "readIndex q"] int_liveCount [OF ring]
    by (simp add: liveCount_def nat_diff_distrib)
  have slot: "slotAt ?q' k = slotAt q (Suc k)" for k
    using slot_shift [of "readIndex q" "ring_size q" "int k"] by (simp add: slotAt_def ac_simps)
  have val: "slotValue ops ?q' i = slotValue ops q i" "slot_ok a ?q' i = slot_ok a q i" for i
    by (simp_all add: slotValue_def slot_ok_def split: option.split)
  have inv': "rwq_inv ops ?q'"
    using ring r d lc slot val live by (auto simp: rwq_inv_def ring_ok_def intro!: exI [of _ a])
  have tl: "contents ops ?q' = tl (contents ops q)"
  proof (rule nth_equalityI)
    show "length (contents ops ?q') = length (tl (contents ops q))" using lc by simp
    fix k assume "k < length (contents ops ?q')"
    then show "contents ops ?q' ! k = tl (contents ops q) ! k"
      using lc slot val by (simp add: contents_nth nth_tl)
  qed
  have "readIndex q \<noteq> writeIndex q"
    using isEmpty_iff [OF ring, of ri] pos by (auto simp: ReaderWriterQueue_isEmpty_def Let_def)
  then have "ReaderWriterQueue_remove q ri =
      Inr (Cell a (nat (readIndex q)) m, ?q', ri\<lparr>ri_isEmpty := False, ri_index := readIndex q\<rparr>)"
    using r m nat_less_unat [OF r(5,6)]
    by (simp add: ReaderWriterQueue_remove_def ReaderWriterQueue_isEmpty_def Let_def queueData_get_def
        nextIndex_ok)
  then show thesis
    using that [of "Cell a (nat (readIndex q)) m"] m hd inv' tl by simp
qed

lemma remove_empty:
  assumes "ring_ok q" and "contents ops q = []"
  shows "ReaderWriterQueue_remove q ri = Inr (NullEntry, q, ri\<lparr>ri_isEmpty := True\<rparr>)"
  using assms isEmpty_iff [OF assms(1), of ri]
  by (simp add: ReaderWriterQueue_remove_def ReaderWriterQueue_isEmpty_def contents_def Let_def)

end

section \<open>Growth\<close>

text \<open>
  Where \<^verbatim>\<open>resize\<close> puts the entry of old slot \<open>i\<close>: slots above the write index move up by the number of
  slots added, the others stay.
\<close>

definition newSlot :: "('e, 'm, 'z) ReaderWriterQueue_scheme \<Rightarrow> c_uint \<Rightarrow> int \<Rightarrow> int" where
  "newSlot q size' i = (if writeIndex q < i then i + (uint size' - ring_size q) else i)"

lemma sint_size_diff:
  assumes "(n :: c_uint) < m" and "uint m \<le> 1073741824"
  shows "sint (m - n) = uint m - uint n"
proof -
  have "uint (m - n) = uint m - uint n"
    using assms(1) uint_sub_lem [of n m] by (simp add: word_less_def)
  moreover from this have "uint (m - n) < 2147483648"
    using assms(2) uint_c_uint_range(1) [of n] by linarith
  ultimately show ?thesis by (simp add: sint_of_small)
qed

lemma resize_test_iff:
  assumes "ring_ok q" "0 \<le> i" "i < ring_size q" "ring_size q \<le> uint size'" "uint size' \<le> 1073741824"
  shows "adjustIndexForComparison size' i (readIndex q)
      < adjustIndexForComparison size' (writeIndex q) (readIndex q) \<longleftrightarrow>
    cdist (ring_size q) (readIndex q) i < cdist (ring_size q) (readIndex q) (writeIndex q)"
  using ring_okD [OF assms(1)] assms(2-5) by (auto simp: adjustIndexForComparison_eq cdist_cases)

lemma newSlot_range:
  assumes "ring_ok q" "ring_size q \<le> uint size'" "0 \<le> i" "i < ring_size q"
  shows "0 \<le> newSlot q size' i" "newSlot q size' i < uint size'"
  using assms by (auto simp: newSlot_def)

lemma newSlot_inj:
  assumes "ring_size q \<le> uint size'" "newSlot q size' i = newSlot q size' j"
  shows "i = j"
  using assms by (auto simp: newSlot_def split: if_splits)

definition grownReadIndex :: "('e, 'm, 'z) ReaderWriterQueue_scheme \<Rightarrow> c_uint \<Rightarrow> int" where
  "grownReadIndex q size' = (if writeIndex q + 1 \<le> readIndex q
     then readIndex q + (uint size' - ring_size q) else readIndex q)"

lemma grown_slots:
  assumes ring: "ring_ok q" and size': "ring_size q \<le> uint size'"
  shows "0 \<le> grownReadIndex q size'" "grownReadIndex q size' < uint size'"
    and "cdist (uint size') (grownReadIndex q size') (writeIndex q) =
         cdist (ring_size q) (readIndex q) (writeIndex q)"
    and "k < liveCount q \<Longrightarrow> (grownReadIndex q size' + int k) mod uint size' = newSlot q size' (slotAt q k)"
proof -
  note r = ring_okD [OF ring]
  show "0 \<le> grownReadIndex q size'" "grownReadIndex q size' < uint size'"
    using r size' by (auto simp: grownReadIndex_def)
  show "cdist (uint size') (grownReadIndex q size') (writeIndex q) =
      cdist (ring_size q) (readIndex q) (writeIndex q)"
    using r size' by (auto simp: grownReadIndex_def cdist_cases)
  assume "k < liveCount q"
  then have "int k < cdist (ring_size q) (readIndex q) (writeIndex q)"
    using int_liveCount [OF ring] by linarith
  then show "(grownReadIndex q size' + int k) mod uint size' = newSlot q size' (slotAt q k)"
    using r size'
    by (auto simp: grownReadIndex_def newSlot_def slotAt_def mod_add_cases cdist_cases split: if_splits)
qed

text \<open>
  The loop invariant after \<open>k\<close> entries were copied: the new array \<open>a'\<close> is well formed, the entries of
  the first \<open>k\<close> waiting slots are at their new slots, and the old array \<open>a\<close> reads as before.
\<close>

definition copied ::
  "('e, 'm) entry_ops \<Rightarrow> ('e, 'm, 'z) ReaderWriterQueue_scheme \<Rightarrow> c_uint \<Rightarrow> nat \<Rightarrow> nat \<Rightarrow> nat \<Rightarrow>
   ('e, 'm, 'z) ReaderWriterQueue_scheme \<Rightarrow> bool" where
  "copied ops q size' a a' k q1 \<longleftrightarrow>
     currentSize q1 = size' \<and> readIndex q1 = readIndex q \<and> writeIndex q1 = writeIndex q \<and>
     length (queueData q1) = unat size' \<and> data_ok ops size' a' (dataEntries q1) \<and>
     (\<forall>j m. deref ops (Cell a j m) (dataEntries q1) = deref ops (Cell a j m) (dataEntries q)) \<and>
     (\<forall>j < k. slot_ok a' q1 (newSlot q size' (slotAt q j)) \<and>
        slotValue ops q1 (newSlot q size' (slotAt q j)) = slotValue ops q (slotAt q j))"

context entry_class
begin

lemma copied_step:
  assumes inv: "ring_ok q" "data_ok ops (currentSize q) a (dataEntries q)"
    and live: "\<And>j. j < liveCount q \<Longrightarrow> slot_ok a q (slotAt q j)"
    and size': "ring_size q \<le> uint size'" "uint size' \<le> 1073741824" and ne: "a \<noteq> a'"
    and c: "copied ops q size' a a' k q1" and k: "k < liveCount q"
  obtains p m q2 where "queueData_get (slotAt q k) (queueData q) = Inr p"
    and "deref ops p (dataEntries q1) = Inr (slotValue ops q (slotAt q k))"
    and "getQueueEntry ops (word_of_int (newSlot q size' (slotAt q k))) (slotValue ops q (slotAt q k))
           (dataEntries q1) = Inr (Some (Cell a' (nat (newSlot q size' (slotAt q k))) m))"
    and "insertAt ops (slotValue ops q (slotAt q k)) (Cell a' (nat (newSlot q size' (slotAt q k))) m)
           (newSlot q size' (slotAt q k)) q1 = Inr q2"
    and "copied ops q size' a a' (Suc k) q2"
    and "\<exists>qd d. q2 = q1\<lparr>queueData := qd, dataEntries := d\<rparr>"
proof -
  let ?i = "slotAt q k"
  let ?j = "newSlot q size' ?i"
  note sl = slotAt_range [OF inv(1)]
  note nr = newSlot_range [OF inv(1) size'(1) sl(1) [of k] sl(2) [of k]]
  have d1: "data_ok ops size' a' (dataEntries q1)" and len: "length (queueData q1) = unat size'"
    and old: "\<And>j m. deref ops (Cell a j m) (dataEntries q1) = deref ops (Cell a j m) (dataEntries q)"
    and prv: "\<And>j. j < k \<Longrightarrow> slot_ok a' q1 (newSlot q size' (slotAt q j)) \<and>
        slotValue ops q1 (newSlot q size' (slotAt q j)) = slotValue ops q (slotAt q j)"
    using c by (auto simp: copied_def)
  obtain m where m: "queueData q ! nat ?i = Some (Cell a (nat ?i) m)"
    "deref ops (Cell a (nat ?i) m) (dataEntries q) = Inr (slotValue ops q ?i)"
    "storable ops (slotValue ops q ?i) m"
    using slot_ok_value [OF live [OF k] inv(2) sl] by blast
  have w: "uint (word_of_int ?j :: c_uint) = ?j"
    using nr size'(2) by (intro uint_of_int_small) linarith+
  then have un: "unat (word_of_int ?j :: c_uint) = nat ?j" by (metis nat_uint_eq)
  have lt: "word_of_int ?j < size'" using w nr by (simp add: word_less_def)
  show thesis
  proof (rule insertAt_ok [OF d1 m(3) nr len])
    fix d'
    let ?q2 = "q1\<lparr>queueData := (queueData q1)[nat ?j := Some (Cell a' (nat ?j) m)], dataEntries := d'\<rparr>"
    assume ins: "insertAt ops (slotValue ops q ?i) (Cell a' (nat ?j) m) ?j q1 = Inr ?q2"
      and d': "data_ok ops size' a' d'" and new: "deref ops (Cell a' (nat ?j) m) d' = Inr (slotValue ops q ?i)"
      and fr: "frame_except ops a' (nat ?j) (dataEntries q1) d'"
    have "slot_ok a' ?q2 (newSlot q size' (slotAt q j)) \<and>
        slotValue ops ?q2 (newSlot q size' (slotAt q j)) = slotValue ops q (slotAt q j)" if "j < Suc k" for j
    proof (cases "j = k")
      case True
      then show ?thesis
        using new len nat_less_unat [OF nr] by (simp add: slotValue_def slot_ok_def)
    next
      case False
      with that have j: "j < k" by simp
      have "slotAt q j \<noteq> ?i"
        using slotAt_inj [OF inv(1), of j k] liveCount_less [OF inv(1)] j k by auto
      then have "newSlot q size' (slotAt q j) \<noteq> ?j" using newSlot_inj [OF size'(1)] by blast
      then have "nat (newSlot q size' (slotAt q j)) \<noteq> nat ?j"
        using nr newSlot_range [OF inv(1) size'(1) sl(1) [of j] sl(2) [of j]] by auto
      then show ?thesis
        using slotValue_frame [OF conjunct1 [OF prv [OF j]], where q' = ?q2 and b = a' and i = "nat ?j"]
          fr prv [OF j] by simp
    qed
    moreover have "deref ops (Cell a j x) d' = deref ops (Cell a j x) (dataEntries q)" for j x
      using fr ne old by (simp add: frame_except_def)
    ultimately have "copied ops q size' a a' (Suc k) ?q2"
      using c d' by (simp add: copied_def)
    then show thesis
      using that [of "Cell a (nat ?i) m" m ?q2] m ins old un getQueueEntry_storable [OF d1 m(3) lt]
        sl nat_less_unat [OF sl] ring_okD(4) [OF inv(1)]
      by (auto simp: queueData_get_def)
  qed
qed

lemma resizeLoop_ok:
  assumes inv: "ring_ok q" "data_ok ops (currentSize q) a (dataEntries q)"
    and live: "\<And>j. j < liveCount q \<Longrightarrow> slot_ok a q (slotAt q j)"
    and size': "ring_size q \<le> uint size'" "uint size' \<le> 1073741824" and ne: "a \<noteq> a'"
  shows "copied ops q size' a a' k q1 \<Longrightarrow> k \<le> liveCount q \<Longrightarrow> liveCount q - k < fuel \<Longrightarrow>
    \<exists>q2. resizeLoop fuel ops (queueData q) (currentSize q) (uint size' - ring_size q) (slotAt q k) q1 = Inr q2 \<and>
      copied ops q size' a a' (liveCount q) q2 \<and> (\<exists>qd d. q2 = q1\<lparr>queueData := qd, dataEntries := d\<rparr>)"
proof (induction fuel arbitrary: k q1)
  case 0
  then show ?case by simp
next
  case (Suc fuel)
  note sl = slotAt_range [OF inv(1)]
  have q1: "currentSize q1 = size'" "readIndex q1 = readIndex q" "writeIndex q1 = writeIndex q"
    using Suc.prems(1) by (auto simp: copied_def)
  have test: "adjustIndexForComparison size' (slotAt q k) (readIndex q)
      < adjustIndexForComparison size' (writeIndex q) (readIndex q) \<longleftrightarrow> k < liveCount q"
  proof -
    have "int k < ring_size q" using Suc.prems(2) liveCount_less [OF inv(1)] by linarith
    then show ?thesis
      using resize_test_iff [OF inv(1) sl size', of k] cdist_slotAt [OF inv(1), of k]
        int_liveCount [OF inv(1)] by linarith
  qed
  show ?case
  proof (cases "k < liveCount q")
    case False
    then have "k = liveCount q" using Suc.prems(2) by simp
    then show ?thesis
      using test q1 Suc.prems(1) by (auto intro!: exI [of _ "queueData q1"] exI [of _ "dataEntries q1"])
  next
    case True
    obtain p m q2 where st: "queueData_get (slotAt q k) (queueData q) = Inr p"
      "deref ops p (dataEntries q1) = Inr (slotValue ops q (slotAt q k))"
      "getQueueEntry ops (word_of_int (newSlot q size' (slotAt q k))) (slotValue ops q (slotAt q k))
         (dataEntries q1) = Inr (Some (Cell a' (nat (newSlot q size' (slotAt q k))) m))"
      "insertAt ops (slotValue ops q (slotAt q k)) (Cell a' (nat (newSlot q size' (slotAt q k))) m)
         (newSlot q size' (slotAt q k)) q1 = Inr q2"
      and c2: "copied ops q size' a a' (Suc k) q2" and ex: "\<exists>qd d. q2 = q1\<lparr>queueData := qd, dataEntries := d\<rparr>"
      by (rule copied_step [OF inv live size' ne Suc.prems(1) True])
    have nx: "nextIndex (slotAt q k) (currentSize q) = Inr (slotAt q (Suc k))"
      by (rule nextIndex_slotAt [OF inv(1)])
    have ns: "(if writeIndex q < slotAt q k then slotAt q k + (uint size' - ring_size q) else slotAt q k)
        = newSlot q size' (slotAt q k)"
      by (simp add: newSlot_def)
    have "resizeLoop (Suc fuel) ops (queueData q) (currentSize q) (uint size' - ring_size q) (slotAt q k) q1 =
        resizeLoop fuel ops (queueData q) (currentSize q) (uint size' - ring_size q) (slotAt q (Suc k)) q2"
      using test True q1 st nx by (simp add: ns Let_def)
    moreover obtain q3 qd d where "resizeLoop fuel ops (queueData q) (currentSize q) (uint size' - ring_size q)
        (slotAt q (Suc k)) q2 = Inr q3" and c3: "copied ops q size' a a' (liveCount q) q3"
        and q3: "q3 = q2\<lparr>queueData := qd, dataEntries := d\<rparr>"
    proof -
      have "Suc k \<le> liveCount q" "liveCount q - Suc k < fuel" using True Suc.prems(3) by auto
      then show thesis using Suc.IH [OF c2] that by blast
    qed
    moreover have "q3 = q1\<lparr>queueData := qd, dataEntries := d\<rparr>" using ex q3 by auto
    ultimately show ?thesis by metis
  qed
qed

lemma resize_ok:
  assumes inv: "rwq_inv ops q" and gt: "currentSize q < size'" and le: "uint size' \<le> 1073741824"
  obtains q' where "ReaderWriterQueue_resize ops size' q = Inr q'" and "rwq_inv ops q'"
    and "contents ops q' = contents ops q" and "currentSize q' = size'"
    and "readIndex q' = grownReadIndex q size'" and "writeIndex q' = writeIndex q"
    and "liveCount q' = liveCount q"
    and "q' = q\<lparr>queueData := queueData q', dataEntries := dataEntries q', currentSize := size',
           readIndex := grownReadIndex q size', stats := stats_setSize size' (stats q)\<rparr>"
proof -
  from inv obtain a where ring: "ring_ok q" and d: "data_ok ops (currentSize q) a (dataEntries q)"
    and live: "\<And>k. k < liveCount q \<Longrightarrow> slot_ok a q (slotAt q k)"
    by (auto simp: rwq_inv_def)
  note r = ring_okD [OF ring]
  have size': "ring_size q \<le> uint size'" using gt by (simp add: word_less_def)
  let ?a' = "freshArray (dataEntries q)"
  let ?d1 = "snd (DataArray_resize ops size' (dataEntries q))"
  let ?q1 = "q\<lparr>queueData := replicate (unat size') None, dataEntries := ?d1, currentSize := size'\<rparr>"
  have ne: "a \<noteq> ?a'" using d by (auto simp: data_ok_def)
  have c0: "copied ops q size' a ?a' 0 ?q1"
    using data_ok_resize [of size' "dataEntries q"] ne
    by (simp add: copied_def DataArray_resize_def deref_def)
  have s0: "slotAt q 0 = readIndex q" using r by (simp add: slotAt_def)
  have "liveCount q < Suc (unat (currentSize q))"
    using liveCount_less [OF ring] nat_less_unat [of "int (liveCount q)" "currentSize q"] by simp
  then obtain q2 where loop: "resizeLoop (Suc (unat (currentSize q))) ops (queueData q) (currentSize q)
        (uint size' - ring_size q) (readIndex q) ?q1 = Inr q2"
      and c2: "copied ops q size' a ?a' (liveCount q) q2"
      and ex: "\<exists>qd d. q2 = ?q1\<lparr>queueData := qd, dataEntries := d\<rparr>"
    using resizeLoop_ok [OF ring d live size' le ne c0, of "Suc (unat (currentSize q))"] s0 by auto
  let ?q' = "q2\<lparr>readIndex := grownReadIndex q size', dataEntries := deleteEntries (Some a) (dataEntries q2),
      stats := stats_setSize size' (stats q)\<rparr>"
  have oldp: "queueDataEntries (dataEntries q) = Some a" using d by (simp add: data_ok_def)
  obtain qd dd where q2: "q2 = ?q1\<lparr>queueData := qd, dataEntries := dd\<rparr>" using ex by blast
  have res: "ReaderWriterQueue_resize ops size' q = Inr ?q'"
    using gt loop q2 oldp
    by (simp add: ReaderWriterQueue_resize_def sint_size_diff [OF gt le] grownReadIndex_def
        DataArray_resize_def Let_def not_le del: resizeLoop.simps)
  have slots: "slotAt ?q' k = newSlot q size' (slotAt q k)" if "k < liveCount q" for k
    using grown_slots(4) [OF ring size' that] c2 by (simp add: slotAt_def copied_def)
  have lc: "liveCount ?q' = liveCount q"
    using grown_slots(3) [OF ring size'] c2 by (simp add: liveCount_def copied_def)
  have d': "data_ok ops size' ?a' (dataEntries ?q')"
    using c2 ne by (auto simp: copied_def data_ok_def deleteEntries_def)
  have val: "slot_ok ?a' ?q' i = slot_ok ?a' q2 i"
    "slot_ok ?a' q2 i \<Longrightarrow> slotValue ops ?q' i = slotValue ops q2 i" for i
    using ne by (auto simp: slot_ok_def slotValue_def deleteEntries_def deref_def)
  have "ring_ok ?q'"
    using c2 r grown_slots(1,2) [OF ring size'] size' le gt by (auto simp: ring_ok_def copied_def word_less_def)
  moreover have "\<forall>k < liveCount ?q'. slot_ok ?a' ?q' (slotAt ?q' k)"
    using lc slots c2 val by (auto simp: copied_def)
  ultimately have inv': "rwq_inv ops ?q'"
    using d' c2 unfolding rwq_inv_def by (auto simp: copied_def)
  have "contents ops ?q' = contents ops q"
    using lc slots c2 val by (auto simp: contents_def copied_def)
  moreover have "?q' = q\<lparr>queueData := queueData ?q', dataEntries := dataEntries ?q', currentSize := size',
      readIndex := grownReadIndex q size', stats := stats_setSize size' (stats q)\<rparr>"
    using q2 by simp
  ultimately show thesis
    by (intro that [of ?q'] res inv' lc) (use c2 in \<open>auto simp: copied_def\<close>)
qed

lemma resize_smaller: "size' \<le> currentSize q \<Longrightarrow> ReaderWriterQueue_resize ops size' q = Inr q"
  by (simp add: ReaderWriterQueue_resize_def)

lemma rwq_inv_new:
  assumes "n \<noteq> 0" and "uint n \<le> 1073741824"
  shows "rwq_inv ops (ReaderWriterQueue_new ops n d del)"
    and "contents ops (ReaderWriterQueue_new ops n d del) = []"
proof -
  have lc: "liveCount (ReaderWriterQueue_new ops n d del) = 0"
    by (simp add: liveCount_def ReaderWriterQueue_new_def)
  have "ring_ok (ReaderWriterQueue_new ops n d del)"
    using assms by (simp add: ring_ok_def ReaderWriterQueue_new_def c_arith)
  moreover have "data_ok ops n (freshArray d) (dataEntries (ReaderWriterQueue_new ops n d del))"
    using data_ok_resize [of n d] by (simp add: ReaderWriterQueue_new_def)
  ultimately show "rwq_inv ops (ReaderWriterQueue_new ops n d del)"
    using lc by (auto simp: rwq_inv_def ReaderWriterQueue_new_def)
  show "contents ops (ReaderWriterQueue_new ops n d del) = []"
    using lc by (simp add: contents_def)
qed

lemma contents_storable:
  assumes "rwq_inv ops q" and "e \<in> set (contents ops q)"
  obtains m where "storable ops e m"
proof -
  from assms(1) obtain a where ring: "ring_ok q" and d: "data_ok ops (currentSize q) a (dataEntries q)"
    and live: "\<And>k. k < liveCount q \<Longrightarrow> slot_ok a q (slotAt q k)"
    by (auto simp: rwq_inv_def)
  from assms(2) obtain k where k: "k < liveCount q" "e = slotValue ops q (slotAt q k)"
    by (auto simp: contents_def)
  show thesis
    using slot_ok_value [OF live [OF k(1)] d slotAt_range [OF ring]] that k(2) by blast
qed

lemma add_cases:
  assumes inv: "rwq_inv ops q"
  obtains m q' where "storable ops e m" "ReaderWriterQueue_add ops e q = Inr (writeIndex q, q')"
    "rwq_inv ops q'" "contents ops q' = contents ops q @ [e]" "readIndex q' = readIndex q"
    "currentSize q' = currentSize q" "int (liveCount q) < ring_size q - 1"
  | i where "ReaderWriterQueue_add ops e q = Inr (i, q)" "i < 0"
proof -
  have ring: "ring_ok q" using inv by (simp add: rwq_inv_def)
  show thesis
  proof (cases "int (liveCount q) = ring_size q - 1")
    case True
    then show thesis using that(2) add_full [OF ring True] by (simp add: IS_FULL_def)
  next
    case False
    then have room: "int (liveCount q) < ring_size q - 1" using liveCount_less [OF ring] by linarith
    show thesis
    proof (cases "\<exists>m. storable ops e m")
      case True
      then obtain m where m: "storable ops e m" by blast
      show thesis by (rule add_ok [OF inv m room]) (rule that(1) [OF m _ _ _ _ _ room])
    next
      case False
      then show thesis using that(2) add_refused [OF inv _ room] by (simp add: CANNOT_ADD_def)
    qed
  qed
qed

text \<open>
  The slot just below the read index is the one a reader may still be using: an insertion leaves it
  alone, because the queue counts as full before the write index can reach it.
\<close>

lemma add_keeps_read_slot:
  assumes inv: "rwq_inv ops q" and s: "0 \<le> s" "s < ring_size q" "(s + 1) mod ring_size q = readIndex q"
    and add: "ReaderWriterQueue_add ops e q = Inr (i, q')"
  shows "deref ops (Cell b (nat s) m) (dataEntries q') = deref ops (Cell b (nat s) m) (dataEntries q)"
    and "rwq_inv ops q'" and "readIndex q' = readIndex q" and "currentSize q' = currentSize q"
proof -
  from inv obtain a where ring: "ring_ok q" and d: "data_ok ops (currentSize q) a (dataEntries q)"
    by (auto simp: rwq_inv_def)
  note r = ring_okD [OF ring]
  have "deref ops (Cell b (nat s) m) (dataEntries q') = deref ops (Cell b (nat s) m) (dataEntries q)
      \<and> rwq_inv ops q' \<and> readIndex q' = readIndex q \<and> currentSize q' = currentSize q"
    using inv
  proof (cases rule: add_cases [where e = e])
    case (1 k q1)
    have "writeIndex q \<noteq> s"
      using 1(7) s r ring_full_iff [of s "ring_size q" "readIndex q"] int_liveCount [OF ring] by auto
    then have ns: "nat s \<noteq> nat (writeIndex q)" using s r by auto
    obtain d' where ins: "insertEntry ops e q = Inr (True,
        q\<lparr>queueData := (queueData q)[nat (writeIndex q) := Some (Cell a (nat (writeIndex q)) k)],
          dataEntries := d'\<rparr>)"
      and fr: "frame_except ops a (nat (writeIndex q)) (dataEntries q) d'"
      by (rule insertEntry_ok [OF d ring 1(1)])
    have "dataEntries q1 = d'"
      using 1(2,7) ins next_slot_valid [OF ring]
      by (auto simp: ReaderWriterQueue_add_def tryInsert_def isFull_eq [OF ring])
    then show ?thesis using 1 add ns fr by (simp add: frame_except_def)
  next
    case (2 k)
    then show ?thesis using add inv by simp
  qed
  then show "deref ops (Cell b (nat s) m) (dataEntries q') = deref ops (Cell b (nat s) m) (dataEntries q)"
    and "rwq_inv ops q'" and "readIndex q' = readIndex q" and "currentSize q' = currentSize q" by auto
qed

lemma addAll_keeps_read_slot:
  assumes "rwq_inv ops q" "0 \<le> s" "s < ring_size q" "(s + 1) mod ring_size q = readIndex q"
  shows "\<exists>q'. addAll ops es q = Inr q' \<and>
    deref ops (Cell b (nat s) m) (dataEntries q') = deref ops (Cell b (nat s) m) (dataEntries q)"
  using assms
proof (induction es arbitrary: q)
  case Nil
  then show ?case by simp
next
  case (Cons e es)
  from Cons.prems(1) obtain i q1 where add: "ReaderWriterQueue_add ops e q = Inr (i, q1)"
    by (cases rule: add_cases [where e = e]) auto
  note k = add_keeps_read_slot [OF Cons.prems add]
  from Cons.IH [OF k(2)] k Cons.prems add show ?case by simp
qed

lemma remove_reference_stable:
  assumes inv: "rwq_inv ops q" and ne: "contents ops q \<noteq> []"
  shows "\<exists>p q1 ri1. ReaderWriterQueue_remove q ri = Inr (p, q1, ri1) \<and>
    (\<forall>es. \<exists>q2. addAll ops es q1 = Inr q2 \<and> deref ops p (dataEntries q2) = Inr (hd (contents ops q)))"
proof -
  let ?q1 = "q\<lparr>readIndex := (readIndex q + 1) mod ring_size q\<rparr>"
  have ring: "ring_ok q" using inv by (simp add: rwq_inv_def)
  note r = ring_okD [OF ring]
  obtain p where p: "ReaderWriterQueue_remove q ri =
       Inr (p, ?q1, ri\<lparr>ri_isEmpty := False, ri_index := readIndex q\<rparr>)"
    "deref ops p (dataEntries q) = Inr (hd (contents ops q))"
    "\<exists>a m. p = Cell a (nat (readIndex q)) m" "rwq_inv ops ?q1"
    by (rule remove_ok [OF inv ne])
  from p(3) obtain a m where am: "p = Cell a (nat (readIndex q)) m" by blast
  have "\<exists>q2. addAll ops es ?q1 = Inr q2 \<and> deref ops p (dataEntries q2) = Inr (hd (contents ops q))" for es
    using addAll_keeps_read_slot [OF p(4), of "readIndex q" es a m] r p(2) am by auto
  then show ?thesis using p(1) by blast
qed

lemma consume_ok:
  assumes inv: "rwq_inv ops q"
  shows "contents ops q = [] \<Longrightarrow> ReaderWriterQueue_consume ops ri q = Inr (None, q)"
    and "contents ops q = e # es \<Longrightarrow> \<exists>q'. ReaderWriterQueue_consume ops ri q = Inr (Some e, q') \<and>
      rwq_inv ops q' \<and> contents ops q' = es \<and> currentSize q' = currentSize q"
proof -
  have ring: "ring_ok q" using inv by (simp add: rwq_inv_def)
  show "ReaderWriterQueue_consume ops ri q = Inr (None, q)" if "contents ops q = []"
    using remove_empty [OF ring that] null_is_null by (simp add: ReaderWriterQueue_consume_def deref_def)
  show "\<exists>q'. ReaderWriterQueue_consume ops ri q = Inr (Some e, q') \<and>
      rwq_inv ops q' \<and> contents ops q' = es \<and> currentSize q' = currentSize q" if c: "contents ops q = e # es"
  proof (rule remove_ok [OF inv, where ri = ri])
    show "contents ops q \<noteq> []" using c by simp
    fix p
    obtain m where m: "storable ops e m" using contents_storable [OF inv, of e] c by auto
    assume "ReaderWriterQueue_remove q ri =
        Inr (p, q\<lparr>readIndex := (readIndex q + 1) mod ring_size q\<rparr>, ri\<lparr>ri_isEmpty := False, ri_index := readIndex q\<rparr>)"
      "deref ops p (dataEntries q) = Inr (hd (contents ops q))"
      "rwq_inv ops (q\<lparr>readIndex := (readIndex q + 1) mod ring_size q\<rparr>)"
      "contents ops (q\<lparr>readIndex := (readIndex q + 1) mod ring_size q\<rparr>) = tl (contents ops q)"
    then show ?thesis
      using c stored_not_null [OF m] by (simp add: ReaderWriterQueue_consume_def)
  qed
qed

end

text \<open>The ring queue implements the bounded FIFO contract, for every entry type.\<close>

sublocale entry_class \<subseteq> rw: bounded_fifo "rwq_inv ops :: ('e, 'm) ReaderWriterQueue \<Rightarrow> bool" "contents ops" "\<lambda>q. uint (currentSize q)"
  "\<lambda>e. \<exists>m. storable ops e m" 1073741824 "ReaderWriterQueue_add ops" "ReaderWriterQueue_consume ops ri"
  "ReaderWriterQueue_resize ops"
  for ri
proof unfold_locales
  fix q :: "('e, 'm) ReaderWriterQueue" assume inv: "rwq_inv ops q"
  then have ring: "ring_ok q" by (simp add: rwq_inv_def)
  show "int (length (contents ops q)) \<le> ring_size q - 1"
    using liveCount_less [OF ring] by simp
  show "\<exists>i q'. ReaderWriterQueue_add ops e q = Inr (i, q') \<and> 0 \<le> i \<and> rwq_inv ops q' \<and>
      contents ops q' = contents ops q @ [e] \<and> ring_size q' = ring_size q"
    if "\<exists>m. storable ops e m" "int (length (contents ops q)) < ring_size q - 1" for e
    using that add_ok [OF inv, of e] ring_okD(7) [OF ring] by (metis length_contents)
  show "ReaderWriterQueue_add ops e q = Inr (IS_FULL, q)"
    if "int (length (contents ops q)) = ring_size q - 1" for e
    using that by (simp add: add_full [OF ring])
  show "ReaderWriterQueue_add ops e q = Inr (CANNOT_ADD, q)"
    if "\<not> (\<exists>m. storable ops e m)" "int (length (contents ops q)) < ring_size q - 1" for e
    using that by (simp add: add_refused [OF inv])
  show "\<exists>q'. ReaderWriterQueue_consume ops ri q = Inr (None, q') \<and> rwq_inv ops q' \<and>
      contents ops q' = [] \<and> ring_size q' = ring_size q" if "contents ops q = []"
    using that inv consume_ok(1) [OF inv that] by auto
  show "\<exists>q'. ReaderWriterQueue_consume ops ri q = Inr (Some e, q') \<and> rwq_inv ops q' \<and>
      contents ops q' = es \<and> ring_size q' = ring_size q" if "contents ops q = e # es" for e es
    using consume_ok(2) [OF inv that, of ri] by auto
  show "\<exists>q'. ReaderWriterQueue_resize ops n q = Inr q' \<and> rwq_inv ops q' \<and>
      contents ops q' = contents ops q \<and> ring_size q' = max (ring_size q) (uint n)"
    if "uint n \<le> 1073741824" for n
  proof (cases "currentSize q < n")
    case True
    then show ?thesis
      using resize_ok [OF inv True that] by (metis max.absorb2 order_less_imp_le word_less_def)
  next
    case False
    then show ?thesis using inv resize_smaller [of n q] by (simp add: not_less word_le_def)
  qed
qed

section \<open>Printing\<close>

text \<open>The lines \<^verbatim>\<open>print\<close> writes for a queue: count, slot and entry of the waiting entries, in order.\<close>

definition printed_lines ::
  "('e, 'm) entry_ops \<Rightarrow> ('e, 'm, 'z) ReaderWriterQueue_scheme \<Rightarrow> nat \<Rightarrow> (int \<times> int \<times> 'e) list" where
  "printed_lines ops q k =
     map (\<lambda>j. (int j + 1, slotAt q j, contents ops q ! j)) [k..<liveCount q]"

context entry_class
begin

lemma printLoop_ok:
  assumes inv: "rwq_inv ops q"
  shows "k \<le> liveCount q \<Longrightarrow> liveCount q - k < fuel \<Longrightarrow>
    printLoop fuel ops (int k) (slotAt q k) q = Inr (printed_lines ops q k)"
proof (induction fuel arbitrary: k)
  case 0
  then show ?case by simp
next
  case (Suc fuel)
  from inv obtain a where ring: "ring_ok q" and d: "data_ok ops (currentSize q) a (dataEntries q)"
    and live: "\<And>k. k < liveCount q \<Longrightarrow> slot_ok a q (slotAt q k)"
    by (auto simp: rwq_inv_def)
  note r = ring_okD [OF ring] and sl = slotAt_range [OF ring]
  have "int k < ring_size q" using Suc.prems(1) liveCount_less [OF ring] by linarith
  then have test: "adjustIndexForComparison (currentSize q) (slotAt q k) (readIndex q)
      < adjustIndexForComparison (currentSize q) (writeIndex q) (readIndex q) \<longleftrightarrow> k < liveCount q"
    using adjust_less_iff [OF sl(1,2) r(7,8,5,6,3), of k] cdist_slotAt [OF ring, of k]
      int_liveCount [OF ring] by linarith
  show ?case
  proof (cases "k < liveCount q")
    case False
    then show ?thesis using test by (simp add: printed_lines_def)
  next
    case True
    obtain m where m: "queueData q ! nat (slotAt q k) = Some (Cell a (nat (slotAt q k)) m)"
      "deref ops (Cell a (nat (slotAt q k)) m) (dataEntries q) = Inr (slotValue ops q (slotAt q k))"
      using slot_ok_value [OF live [OF True] d sl] by blast
    have "printLoop fuel ops (int k + 1) (slotAt q (Suc k)) q = Inr (printed_lines ops q (Suc k))"
      using Suc.IH [of "Suc k"] True Suc.prems by (simp add: add.commute)
    then show ?thesis
      using test True m nextIndex_slotAt [OF ring, of k] sl nat_less_unat [OF sl] r(4)
      by (simp add: queueData_get_def printed_lines_def upt_conv_Cons contents_nth)
  qed
qed

lemma print_ok:
  assumes inv: "rwq_inv ops q"
  shows "ReaderWriterQueue_print ops q = Inr (printed_lines ops q 0)"
proof -
  have ring: "ring_ok q" using inv by (simp add: rwq_inv_def)
  have "liveCount q < Suc (unat (currentSize q))"
    using liveCount_less [OF ring] nat_less_unat [of "int (liveCount q)" "currentSize q"] by simp
  moreover have "slotAt q 0 = readIndex q" using ring_okD [OF ring] by (simp add: slotAt_def)
  ultimately show ?thesis
    using printLoop_ok [OF inv, of 0 "Suc (unat (currentSize q))"]
    by (simp add: ReaderWriterQueue_print_def del: printLoop.simps)
qed

end

lemma getNumElements_eq:
  assumes "ring_ok q"
  shows "getNumElements q =
    int (liveCount q) - (if writeIndex q < readIndex q then ring_size q else 0)"
  using ring_okD [OF assms] int_liveCount [OF assms] by (simp add: getNumElements_def cdist_cases)

end
