(* ===== verification/Ring_Properties.thy ===== *)
theory Ring_Properties
  imports Reader_Writer_Queue
begin

text \<open>
  The correctness properties of the single-reader single-writer queue, stated for the entry types the
  repository stores (\<open>sample_ops\<close>), and the two-entry queue their witnesses run on.
\<close>

section \<open>A concrete queue\<close>

definition demo_entry :: "64 word \<Rightarrow> queue_entry" where
  "demo_entry i = SampleQueueEntry1 (QueueEntryData1_new i ''a'' 7 \<lparr>timeSecs = 0\<rparr> None)"

definition demo_new :: "(queue_entry, sample_member) ReaderWriterQueue" where
  "demo_new = ReaderWriterQueue_new (sample_ops 256) 4 DataArray_init False"

definition demo_ring :: "(queue_entry, sample_member) ReaderWriterQueue" where
  "demo_ring = (case addAll (sample_ops 256) [demo_entry 1, demo_entry 2] demo_new of
     Inr q \<Rightarrow> q | Inl _ \<Rightarrow> demo_new)"

definition demo_full :: "(queue_entry, sample_member) ReaderWriterQueue" where
  "demo_full = (case addAll (sample_ops 256) [demo_entry 3] demo_ring of
     Inr q \<Rightarrow> q | Inl _ \<Rightarrow> demo_new)"

lemma storable_demo [simp]: "storable (sample_ops sz) (demo_entry i) Data1"
  by (simp add: storable_sample demo_entry_def)

lemma addAll_sample:
  fixes q :: "(queue_entry, sample_member) ReaderWriterQueue"
  assumes "rwq_inv (sample_ops sz) q" and "NullBase \<notin> set es"
    and "int (length (contents (sample_ops sz) q) + length es) < ring_size q"
  shows "\<exists>q'. addAll (sample_ops sz) es q = Inr q' \<and> rwq_inv (sample_ops sz) q' \<and>
    contents (sample_ops sz) q' = contents (sample_ops sz) q @ es \<and> currentSize q' = currentSize q"
  using assms
proof (induction es arbitrary: q)
  case Nil
  then show ?case by simp
next
  case (Cons e es)
  have "\<exists>m. storable (sample_ops sz) e m" using Cons.prems(2) by (auto simp: storable_sample_iff)
  then obtain i q1 where "ReaderWriterQueue_add (sample_ops sz) e q = Inr (i, q1)" "rwq_inv (sample_ops sz) q1"
    "contents (sample_ops sz) q1 = contents (sample_ops sz) q @ [e]" "currentSize q1 = currentSize q"
    using sample.rw.enq_room [OF Cons.prems(1), of e] Cons.prems(3) by (force simp: word_uint_eq_iff)
  then show ?case using Cons.IH [of q1] Cons.prems(2,3) by auto
qed

lemma demo_new_ok:
  "rwq_inv (sample_ops 256) demo_new" "contents (sample_ops 256) demo_new = []" "currentSize demo_new = 4"
  unfolding demo_new_def using sample.rwq_inv_new [of 4 256 DataArray_init False]
  by (simp_all add: ReaderWriterQueue_new_def)

lemma demo_ring_ok:
  "rwq_inv (sample_ops 256) demo_ring" "contents (sample_ops 256) demo_ring = [demo_entry 1, demo_entry 2]"
  "currentSize demo_ring = 4"
  using addAll_sample [OF demo_new_ok(1), of "[demo_entry 1, demo_entry 2]"] demo_new_ok(2,3)
  by (auto simp: demo_ring_def demo_entry_def)

lemma demo_full_ok:
  "rwq_inv (sample_ops 256) demo_full"
  "contents (sample_ops 256) demo_full = [demo_entry 1, demo_entry 2, demo_entry 3]"
  "currentSize demo_full = 4"
  using addAll_sample [OF demo_ring_ok(1), of "[demo_entry 3]"] demo_ring_ok(2,3)
  by (auto simp: demo_full_def demo_entry_def)

section \<open>FIFO behaviour\<close>

text \<open>
  C15. Whatever sequence of insertions, removals and resizes is run on a new queue, no operation faults,
  and the entries delivered so far followed by the entries still queued are the entries accepted, in
  order. Nothing is lost, duplicated, reordered or changed by growing the ring or wrapping around it.
\<close>

theorem ring_fifo:
  fixes os :: "queue_entry qop list"
  assumes "n \<noteq> 0" and "uint n \<le> 1073741824" and "grows_within 1073741824 os"
  shows "\<exists>acc del q'. run_ops (ReaderWriterQueue_add (sample_ops sz)) (ReaderWriterQueue_consume (sample_ops sz) ri)
      (ReaderWriterQueue_resize (sample_ops sz)) os (ReaderWriterQueue_new (sample_ops sz) n d b) = Inr (acc, del, q') \<and>
    rwq_inv (sample_ops sz) q' \<and> del @ contents (sample_ops sz) q' = acc"
  using sample.rw.fifo_run [OF sample.rwq_inv_new(1) [OF assms(1,2)] assms(3)]
    sample.rwq_inv_new(2) [OF assms(1,2)] by simp

theorem ring_fifo_witness:
  "\<exists>acc del q'. run_ops (ReaderWriterQueue_add (sample_ops 256))
      (ReaderWriterQueue_consume (sample_ops 256) (ReaderIndex_init 0)) (ReaderWriterQueue_resize (sample_ops 256))
      [Enq (demo_entry 1), Enq (demo_entry 2), Deq, Grow 8, Enq NullBase, Enq (demo_entry 3), Deq]
      (ReaderWriterQueue_new (sample_ops 256) 4 DataArray_init False) = Inr (acc, del, q') \<and>
    rwq_inv (sample_ops 256) q' \<and> del @ contents (sample_ops 256) q' = acc"
  by (rule ring_fifo) (simp_all add: grows_within_def)

section \<open>Insertion\<close>

text \<open>
  An entry of a known type is accepted whenever fewer than \<open>size - 1\<close> entries wait: \<^verbatim>\<open>add\<close> returns the
  slot it wrote, appends the entry, advances the write index, counts the entry, and leaves the read index.
\<close>

theorem ring_add_accepts:
  fixes q :: "(queue_entry, sample_member) ReaderWriterQueue"
  assumes "rwq_inv (sample_ops sz) q" and "e \<noteq> NullBase"
    and "int (length (contents (sample_ops sz) q)) < ring_size q - 1"
  shows "\<exists>q'. ReaderWriterQueue_add (sample_ops sz) e q = Inr (writeIndex q, q') \<and> 0 \<le> writeIndex q \<and>
    rwq_inv (sample_ops sz) q' \<and> contents (sample_ops sz) q' = contents (sample_ops sz) q @ [e] \<and>
    readIndex q' = readIndex q \<and> writeIndex q' = (writeIndex q + 1) mod ring_size q \<and>
    addedCount (stats q') = addedCount (stats q) + 1"
proof -
  obtain m where "storable (sample_ops sz) e m" using assms(2) storable_sample_iff by blast
  from sample.add_ok [OF assms(1) this] assms(3) show ?thesis
    using ring_okD(7) [of q] assms(1) by (metis length_contents rwq_inv_def)
qed

theorem ring_add_accepts_witness:
  "\<exists>q'. ReaderWriterQueue_add (sample_ops 256) (demo_entry 9) demo_ring = Inr (writeIndex demo_ring, q') \<and>
    0 \<le> writeIndex demo_ring \<and> rwq_inv (sample_ops 256) q' \<and>
    contents (sample_ops 256) q' = contents (sample_ops 256) demo_ring @ [demo_entry 9] \<and>
    readIndex q' = readIndex demo_ring \<and> writeIndex q' = (writeIndex demo_ring + 1) mod ring_size demo_ring \<and>
    addedCount (stats q') = addedCount (stats demo_ring) + 1"
  by (rule ring_add_accepts) (simp_all add: demo_ring_ok demo_entry_def)

text \<open>
  A full queue (\<open>size - 1\<close> entries) answers \<^verbatim>\<open>IS_FULL\<close> to every entry, a queue with room answers
  \<^verbatim>\<open>CANNOT_ADD\<close> to an entry of an unknown type, and in both cases the queue is unchanged.
\<close>

theorem ring_add_refuses:
  fixes q :: "(queue_entry, sample_member) ReaderWriterQueue"
  assumes "rwq_inv (sample_ops sz) q"
  shows "ReaderWriterQueue_add (sample_ops sz) NullBase q =
      (if int (length (contents (sample_ops sz) q)) = ring_size q - 1 then Inr (IS_FULL, q) else Inr (CANNOT_ADD, q)) \<and>
    (int (length (contents (sample_ops sz) q)) = ring_size q - 1 \<longrightarrow>
      ReaderWriterQueue_add (sample_ops sz) e q = Inr (IS_FULL, q))"
proof -
  have full: "ReaderWriterQueue_add (sample_ops sz) e q = Inr (IS_FULL, q)"
    if "int (length (contents (sample_ops sz) q)) = ring_size q - 1" for e
    using sample.rw.enq_full [OF assms that] .
  then show ?thesis
    using sample.rw.enq_refused [OF assms, of NullBase] sample.rw.capacity [OF assms]
    by (auto simp: storable_sample_iff)
qed

theorem ring_add_refuses_witness:
  "ReaderWriterQueue_add (sample_ops 256) NullBase demo_ring = Inr (CANNOT_ADD, demo_ring) \<and>
   ReaderWriterQueue_add (sample_ops 256) (demo_entry 9) demo_full = Inr (IS_FULL, demo_full)"
  using ring_add_refuses [OF demo_ring_ok(1)] ring_add_refuses [OF demo_full_ok(1), of "demo_entry 9"]
  by (simp add: demo_ring_ok demo_full_ok)

section \<open>Removal\<close>

text \<open>
  The queue is non-copying for its reader: \<^verbatim>\<open>remove\<close> on a non-empty queue returns a reference to the
  oldest entry, and however many entries the writer adds (or is refused) before the reader returns, the
  reference still reads that entry.
\<close>

theorem ring_remove_stable:
  fixes q :: "(queue_entry, sample_member) ReaderWriterQueue"
  assumes "rwq_inv (sample_ops sz) q" and "contents (sample_ops sz) q \<noteq> []"
  shows "\<exists>p q1 ri1. ReaderWriterQueue_remove q ri = Inr (p, q1, ri1) \<and> ri_index ri1 = readIndex q \<and>
    contents (sample_ops sz) q1 = tl (contents (sample_ops sz) q) \<and>
    (\<forall>es. \<exists>q2. addAll (sample_ops sz) es q1 = Inr q2 \<and>
      deref (sample_ops sz) p (dataEntries q2) = Inr (hd (contents (sample_ops sz) q)))"
proof -
  let ?q1 = "q\<lparr>readIndex := (readIndex q + 1) mod ring_size q\<rparr>"
  let ?ri = "ri\<lparr>ri_isEmpty := False, ri_index := readIndex q\<rparr>"
  obtain p where p: "ReaderWriterQueue_remove q ri = Inr (p, ?q1, ?ri)"
    "contents (sample_ops sz) ?q1 = tl (contents (sample_ops sz) q)"
    by (rule sample.remove_ok [OF assms])
  with sample.remove_reference_stable [OF assms, of ri] have
    "\<forall>es. \<exists>q2. addAll (sample_ops sz) es ?q1 = Inr q2 \<and>
      deref (sample_ops sz) p (dataEntries q2) = Inr (hd (contents (sample_ops sz) q))"
    by (metis Pair_inject sum.inject(2))
  with p show ?thesis by (intro exI [of _ p] exI [of _ ?q1] exI [of _ ?ri]) simp
qed

theorem ring_remove_stable_witness:
  "\<exists>p q1 ri1. ReaderWriterQueue_remove demo_full (ReaderIndex_init 0) = Inr (p, q1, ri1) \<and>
    ri_index ri1 = readIndex demo_full \<and>
    contents (sample_ops 256) q1 = tl (contents (sample_ops 256) demo_full) \<and>
    (\<forall>es. \<exists>q2. addAll (sample_ops 256) es q1 = Inr q2 \<and>
      deref (sample_ops 256) p (dataEntries q2) = Inr (hd (contents (sample_ops 256) demo_full)))"
  by (rule ring_remove_stable) (simp_all add: demo_full_ok)

text \<open>
  An empty queue is recognised exactly: \<^verbatim>\<open>isEmpty\<close> holds iff no entry waits, and \<^verbatim>\<open>remove\<close> then returns
  the null entry and changes nothing but the reader's \<^verbatim>\<open>isEmpty\<close> flag.
\<close>

theorem ring_empty:
  fixes q :: "(queue_entry, sample_member) ReaderWriterQueue"
  assumes "rwq_inv (sample_ops sz) q"
  shows "(fst (ReaderWriterQueue_isEmpty q ri) \<longleftrightarrow> contents (sample_ops sz) q = []) \<and>
    (contents (sample_ops sz) q = [] \<longrightarrow>
      ReaderWriterQueue_remove q ri = Inr (NullEntry, q, ri\<lparr>ri_isEmpty := True\<rparr>))"
proof -
  have ring: "ring_ok q" using assms by (simp add: rwq_inv_def)
  have "fst (ReaderWriterQueue_isEmpty q ri) \<longleftrightarrow> contents (sample_ops sz) q = []"
    using isEmpty_iff [OF ring, of ri] by (metis length_0_conv length_contents)
  then show ?thesis using sample.remove_empty [OF ring] by blast
qed

theorem ring_empty_witness:
  "\<not> fst (ReaderWriterQueue_isEmpty demo_ring (ReaderIndex_init 0)) \<and>
   ReaderWriterQueue_remove demo_new (ReaderIndex_init 0) = Inr (NullEntry, demo_new, ReaderIndex_init 0)"
  using ring_empty [OF demo_ring_ok(1)] ring_empty [OF demo_new_ok(1), of "ReaderIndex_init 0"]
  by (simp add: demo_ring_ok demo_new_ok ReaderIndex_init_def)

section \<open>Growth\<close>

text \<open>
  \<^verbatim>\<open>resize\<close> to a larger ring keeps the waiting entries and their order although it moves those above
  the write index to the end of the new ring; it returns (the copying loop ends within \<open>size + 1\<close> tests),
  keeps the representation invariant (no reference into the deleted array is left), and leaves the write
  index. A request for a smaller ring changes nothing.
\<close>

theorem ring_resize_keeps:
  fixes q :: "(queue_entry, sample_member) ReaderWriterQueue"
  assumes "rwq_inv (sample_ops sz) q" and "uint n \<le> 1073741824"
  shows "\<exists>q'. ReaderWriterQueue_resize (sample_ops sz) n q = Inr q' \<and> rwq_inv (sample_ops sz) q' \<and>
    contents (sample_ops sz) q' = contents (sample_ops sz) q \<and> writeIndex q' = writeIndex q \<and>
    currentSize q' = (if currentSize q < n then n else currentSize q)"
proof (cases "currentSize q < n")
  case True
  with sample.resize_ok [OF assms(1) True assms(2)] show ?thesis by metis
next
  case False
  then show ?thesis using assms(1) sample.resize_smaller [of n q] by (auto simp: linorder_not_less)
qed

theorem ring_resize_keeps_witness:
  "\<exists>q'. ReaderWriterQueue_resize (sample_ops 256) 9 demo_full = Inr q' \<and> rwq_inv (sample_ops 256) q' \<and>
    contents (sample_ops 256) q' = contents (sample_ops 256) demo_full \<and> writeIndex q' = writeIndex demo_full \<and>
    currentSize q' = (if currentSize demo_full < 9 then 9 else currentSize demo_full)"
  by (rule ring_resize_keeps) (simp_all add: demo_full_ok)

text \<open>
  \<^verbatim>\<open>getNewQueueSize\<close> never wraps: it returns twice the size (or \<^verbatim>\<open>UINT_MAX\<close> where doubling would not
  fit), cut to the number of entries that fit in 500 MB, and so never more than that number.
\<close>

theorem new_queue_size:
  fixes q :: "(queue_entry, sample_member) ReaderWriterQueue"
  assumes "getEntrySize (sample_ops sz) \<noteq> 0"
  shows "\<exists>n. getNewQueueSize (sample_ops sz) q = Inr n \<and>
    uint n = min (524288000 div uint (getEntrySize (sample_ops sz)))
                 (if 2147483647 \<le> uint (currentSize q) then 4294967295 else 2 * uint (currentSize q))"
  by (rule getNewQueueSize_uint [OF assms])

theorem new_queue_size_witness:
  "\<exists>n. getNewQueueSize (sample_ops 256) demo_ring = Inr n \<and> uint n = 8"
  using new_queue_size [of 256 demo_ring] by (simp add: demo_ring_ok getEntrySize_def sample_ops_def)

section \<open>Inspection\<close>

text \<open>
  \<^verbatim>\<open>print\<close> lists exactly the waiting entries, oldest first, numbered from 1, each with its slot, and
  ends: its loop visits each of them once.
\<close>

theorem ring_print:
  fixes q :: "(queue_entry, sample_member) ReaderWriterQueue"
  assumes "rwq_inv (sample_ops sz) q"
  shows "ReaderWriterQueue_print (sample_ops sz) q =
    Inr (map (\<lambda>j. (int j + 1, (readIndex q + int j) mod ring_size q, contents (sample_ops sz) q ! j))
          [0..<length (contents (sample_ops sz) q)])"
  using sample.print_ok [OF assms] by (simp add: printed_lines_def slotAt_def)

theorem ring_print_witness:
  "ReaderWriterQueue_print (sample_ops 256) demo_ring =
    Inr (map (\<lambda>j. (int j + 1, (readIndex demo_ring + int j) mod ring_size demo_ring,
            contents (sample_ops 256) demo_ring ! j))
          [0..<length (contents (sample_ops 256) demo_ring)])"
  by (rule ring_print [OF demo_ring_ok(1)])

text \<open>
  \<^verbatim>\<open>getNumElements\<close> is the number of waiting entries while the write index has not wrapped below the
  read index; after that it is that number minus the ring size, which is negative.
\<close>

theorem num_elements:
  fixes q :: "(queue_entry, sample_member) ReaderWriterQueue"
  assumes "rwq_inv (sample_ops sz) q"
  shows "getNumElements q = int (length (contents (sample_ops sz) q)) -
      (if writeIndex q < readIndex q then ring_size q else 0) \<and>
    (getNumElements q < 0 \<longleftrightarrow> writeIndex q < readIndex q)"
  using getNumElements_eq [of q] liveCount_less [of q] assms by (auto simp: rwq_inv_def getNumElements_def)

theorem num_elements_witness:
  "getNumElements demo_full = 3 - (if writeIndex demo_full < readIndex demo_full then 4 else 0)"
  using num_elements [OF demo_full_ok(1)] unfolding demo_full_ok by simp

end
