(* ===== verification/Sync_Reader_List.thy ===== *)
theory Sync_Reader_List
  imports Reader_Writer_Queue
begin

text \<open>
  The linked list of reader cursors, \<^verbatim>\<open>queue/SyncReaderList.h\<close> and \<^verbatim>\<open>.cpp\<close>, on an explicit heap of
  \<open>ReaderIndex\<close> objects: every pointer update of \<^verbatim>\<open>moveOut\<close>, \<^verbatim>\<open>moveToFront\<close>, \<^verbatim>\<open>remove\<close>, \<^verbatim>\<open>add\<close> and \<^verbatim>\<open>adjust\<close>
  in the order of the source, with a null dereference as the fault \<open>NullDeref\<close>.

  Each operation runs between \<^verbatim>\<open>indexMutex.acquire()\<close> and \<^verbatim>\<open>indexMutex.release()\<close>, so it is one atomic
  step with respect to the other readers; the mutex itself and the debug output are left out. The
  queue the list belongs to (\<^verbatim>\<open>queue.readIndex\<close>, \<^verbatim>\<open>queue.writeIndex\<close>, \<^verbatim>\<open>queue.currentSize\<close>) is part of the
  state: the record \<open>SyncQueue\<close> extends the ring queue as the class hierarchy does.
\<close>

section \<open>State\<close>

record ('e, 'm) SyncWriterQueue = "('e, 'm) ReaderWriterQueue" +
  addMutex :: Mutex

record ('e, 'm) SyncQueue = "('e, 'm) SyncWriterQueue" +
  syncWriter :: bool
  readers :: "rid \<Rightarrow> ReaderIndex"
  rl_front :: "rid option"
  rl_back :: "rid option"
  rlDebug :: bool

text \<open>Field access through a pointer.\<close>

abbreviation rd_index :: "('e, 'm, 'z) SyncQueue_scheme \<Rightarrow> rid \<Rightarrow> int" where
  "rd_index s x \<equiv> ri_index (readers s x)"

abbreviation rd_next :: "('e, 'm, 'z) SyncQueue_scheme \<Rightarrow> rid \<Rightarrow> rid option" where
  "rd_next s x \<equiv> ri_next (readers s x)"

abbreviation rd_prev :: "('e, 'm, 'z) SyncQueue_scheme \<Rightarrow> rid \<Rightarrow> rid option" where
  "rd_prev s x \<equiv> ri_previous (readers s x)"

definition upd_reader ::
  "rid \<Rightarrow> (ReaderIndex \<Rightarrow> ReaderIndex) \<Rightarrow> ('e, 'm, 'z) SyncQueue_scheme \<Rightarrow> ('e, 'm, 'z) SyncQueue_scheme" where
  "upd_reader x f s = s\<lparr>readers := (readers s)(x := f (readers s x))\<rparr>"

lemma upd_reader_sel [simp]:
  "rl_front (upd_reader x f s) = rl_front s"
  "rl_back (upd_reader x f s) = rl_back s"
  "readIndex (upd_reader x f s) = readIndex s"
  "writeIndex (upd_reader x f s) = writeIndex s"
  "currentSize (upd_reader x f s) = currentSize s"
  "queueData (upd_reader x f s) = queueData s"
  "dataEntries (upd_reader x f s) = dataEntries s"
  "stats (upd_reader x f s) = stats s"
  "addMutex (upd_reader x f s) = addMutex s"
  "syncWriter (upd_reader x f s) = syncWriter s"
  by (simp_all add: upd_reader_def)

lemma upd_reader_readers: "readers (upd_reader x f s) y = (if y = x then f (readers s x) else readers s y)"
  by (simp add: upd_reader_def)

text \<open>
  Reading a field after an update through one pointer: the field that was written, and the fields that
  were not. The rules work on fields, so that a chain of updates does not become a nest of records.
\<close>

lemma upd_reader_writes [simp]:
  "rd_index (upd_reader x (\<lambda>r. r\<lparr>ri_index := i\<rparr>) s) y = (if y = x then i else rd_index s y)"
  "rd_next (upd_reader x (\<lambda>r. r\<lparr>ri_next := p\<rparr>) s) y = (if y = x then p else rd_next s y)"
  "rd_prev (upd_reader x (\<lambda>r. r\<lparr>ri_previous := p\<rparr>) s) y = (if y = x then p else rd_prev s y)"
  "ri_isDone (readers (upd_reader x (\<lambda>r. r\<lparr>ri_isDone := b\<rparr>) s) y) = (if y = x then b else ri_isDone (readers s y))"
  "ri_isEmpty (readers (upd_reader x (\<lambda>r. r\<lparr>ri_isEmpty := b\<rparr>) s) y) = (if y = x then b else ri_isEmpty (readers s y))"
  "ri_inQueue (readers (upd_reader x (\<lambda>r. r\<lparr>ri_inQueue := b\<rparr>) s) y) = (if y = x then b else ri_inQueue (readers s y))"
  by (simp_all add: upd_reader_readers)

lemma upd_reader_keeps [simp]:
  "(\<And>r. ri_index (g r) = ri_index r) \<Longrightarrow> rd_index (upd_reader x g s) y = rd_index s y"
  "(\<And>r. ri_next (g r) = ri_next r) \<Longrightarrow> rd_next (upd_reader x g s) y = rd_next s y"
  "(\<And>r. ri_previous (g r) = ri_previous r) \<Longrightarrow> rd_prev (upd_reader x g s) y = rd_prev s y"
  "(\<And>r. ri_inQueue (g r) = ri_inQueue r) \<Longrightarrow> ri_inQueue (readers (upd_reader x g s) y) = ri_inQueue (readers s y)"
  "(\<And>r. ri_isDone (g r) = ri_isDone r) \<Longrightarrow> ri_isDone (readers (upd_reader x g s) y) = ri_isDone (readers s y)"
  "(\<And>r. ri_isEmpty (g r) = ri_isEmpty r) \<Longrightarrow> ri_isEmpty (readers (upd_reader x g s) y) = ri_isEmpty (readers s y)"
  by (simp_all add: upd_reader_readers)

abbreviation set_index where "set_index x i \<equiv> upd_reader x (\<lambda>r. r\<lparr>ri_index := i\<rparr>)"
abbreviation set_next where "set_next x p \<equiv> upd_reader x (\<lambda>r. r\<lparr>ri_next := p\<rparr>)"
abbreviation set_prev where "set_prev x p \<equiv> upd_reader x (\<lambda>r. r\<lparr>ri_previous := p\<rparr>)"
abbreviation set_isDone where "set_isDone x b \<equiv> upd_reader x (\<lambda>r. r\<lparr>ri_isDone := b\<rparr>)"
abbreviation set_isEmpty where "set_isEmpty x b \<equiv> upd_reader x (\<lambda>r. r\<lparr>ri_isEmpty := b\<rparr>)"
abbreviation set_inQueue where "set_inQueue x b \<equiv> upd_reader x (\<lambda>r. r\<lparr>ri_inQueue := b\<rparr>)"

definition ptr :: "rid option \<Rightarrow> rid result" where
  "ptr p = (case p of None \<Rightarrow> Inl NullDeref | Some x \<Rightarrow> Inr x)"

lemma ptr_simps [simp]: "ptr None = Inl NullDeref" "ptr (Some x) = Inr x"
  by (simp_all add: ptr_def)

section \<open>Operations\<close>

definition moveOut ::
  "rid \<Rightarrow> ('e, 'm, 'z) SyncQueue_scheme \<Rightarrow> ('e, 'm, 'z) SyncQueue_scheme result" where
  "moveOut x s =
     bind_r
       (if Some x = rl_back s
        then let s1 = s\<lparr>rl_back := rd_next s x\<rparr>
             in bind_r (ptr (rl_back s1)) (\<lambda>b. Inr (s1\<lparr>readIndex := rd_index s1 b\<rparr>))
        else bind_r (ptr (rd_prev s x)) (\<lambda>p. Inr (set_next p (rd_next s x) s)))
       (\<lambda>s2. bind_r (ptr (rd_next s2 x)) (\<lambda>n. Inr (set_prev n (rd_prev s2 x) s2)))"

text \<open>The "squeeze" of \<^verbatim>\<open>moveToFront\<close>: the back reader steps behind the front to free its slot.\<close>

definition squeeze ::
  "rid \<Rightarrow> ('e, 'm, 'z) SyncQueue_scheme \<Rightarrow> ('e, 'm, 'z) SyncQueue_scheme result" where
  "squeeze x s =
     bind_r
       (if rd_next s x \<noteq> rl_front s
        then
          let s1 = s\<lparr>rl_back := rd_next s x\<rparr> in
          bind_r (ptr (rl_back s1)) (\<lambda>b.
            let s2 = set_prev b None s1 in
            bind_r (ptr (rd_next s2 b)) (\<lambda>bn.
              let s3 = set_prev bn (rl_back s2) s2;
                  s4 = set_next x (rl_front s3) s3 in
              bind_r (ptr (rl_front s4)) (\<lambda>f.
                let s5 = set_prev x (rd_prev s4 f) s4 in
                bind_r (ptr (rd_prev s5 f)) (\<lambda>fp.
                  let s6 = set_next fp (Some x) s5;
                      s7 = set_prev f (Some x) s6 in
                  bind_r (ptr (rd_prev s7 x)) (\<lambda>xp.
                    Inr (set_index x (rd_index s7 xp) s7))))))
        else Inr s)
       (\<lambda>s8. bind_r (ptr (rl_back s8)) (\<lambda>b. Inr (s8\<lparr>readIndex := rd_index s8 b\<rparr>)))"

definition moveToFront ::
  "rid \<Rightarrow> ('e, 'm, 'z) SyncQueue_scheme \<Rightarrow> (bool \<times> ('e, 'm, 'z) SyncQueue_scheme) result" where
  "moveToFront x s =
     (if \<not> ri_inQueue (readers s x)
      then Inl (LogicError ''must be added to queue ReadList to use SyncReaderQueue'')
      else
        bind_r (ptr (rl_front s)) (\<lambda>f.
        bind_r (nextIndex (rd_index s f) (currentSize s)) (\<lambda>ni.
        bind_r (ptr (rl_back s)) (\<lambda>b.
          if ni \<noteq> rd_index s b
          then
            let s1 = set_index x ni s in
            if Some x \<noteq> rl_front s1
            then bind_r (moveOut x s1) (\<lambda>s2.
                   let s3 = set_next x None (set_prev x (rl_front s2) s2) in
                   bind_r (ptr (rl_front s3)) (\<lambda>f1.
                     Inr (True, (set_next f1 (Some x) s3)\<lparr>rl_front := Some x\<rparr>)))
            else if Some x = rl_back s1
            then Inr (True, s1\<lparr>readIndex := rd_index s1 x\<rparr>)
            else Inr (True, s1)
          else if Some x = rl_back s
          then bind_r (squeeze x s) (\<lambda>s1. Inr (False, s1))
          else Inr (False, s)))))"

definition readerList_add ::
  "rid \<Rightarrow> ('e, 'm, 'z) SyncQueue_scheme \<Rightarrow> ('e, 'm, 'z) SyncQueue_scheme result" where
  "readerList_add x s =
     (if ri_inQueue (readers s x) then Inl (LogicError ''already added'')
      else
        bind_r
          (case rl_front s of
             None \<Rightarrow>
               let s1 = set_index x (readIndex s) s;
                   s2 = set_next x (Some x) (set_prev x (Some x) s1)
               in Inr (set_isDone x False (s2\<lparr>rl_back := Some x, rl_front := Some x\<rparr>))
           | Some f \<Rightarrow>
               bind_r (nextIndex (rd_index s f) (currentSize s)) (\<lambda>ni.
               bind_r (ptr (rl_back s)) (\<lambda>b.
                 if ni \<noteq> rd_index s b
                 then let s1 = set_index x ni (set_prev x (rl_front s) (set_next x None s));
                          s2 = (set_next f (Some x) s1)\<lparr>rl_front := Some x\<rparr>
                      in Inr (set_isDone x False s2)
                 else let s1 = set_next x (rl_front s) s;
                          s2 = set_prev x (rd_prev s1 f) s1;
                          s3 = set_prev f (Some x) s2
                      in bind_r (ptr (rd_prev s3 x)) (\<lambda>p.
                           let s4 = set_next p (Some x) s3 in
                           bind_r (ptr (rd_prev s4 x)) (\<lambda>p1.
                             Inr (set_isDone x True (set_index x (rd_index s4 p1) s4)))))))
          (\<lambda>s5. Inr (set_inQueue x True (set_isEmpty x True s5))))"

text \<open>
  \<^verbatim>\<open>SyncQueue::isEmpty\<close>, which \<^verbatim>\<open>remove\<close> calls back: the slot of reader \<open>x\<close> has not been written yet.
\<close>

definition SyncQueue_isEmpty ::
  "rid \<Rightarrow> ('e, 'm, 'z) SyncQueue_scheme \<Rightarrow> bool \<times> ('e, 'm, 'z) SyncQueue_scheme" where
  "SyncQueue_isEmpty x s =
     (let e = (adjustIndexForComparison (currentSize s) (writeIndex s) (readIndex s)
                 \<le> adjustIndexForComparison (currentSize s) (rd_index s x) (readIndex s))
      in (e, set_isEmpty x e s))"

text \<open>
  The four branches of \<^verbatim>\<open>remove\<close>: a waiting reader next to the front, a waiting reader further back (the
  front takes over its slot), a reader that is done with its slot, and the front.
\<close>

definition unlinkBack ::
  "rid \<Rightarrow> rid \<Rightarrow> ('e, 'm, 'z) SyncQueue_scheme \<Rightarrow> ('e, 'm, 'z) SyncQueue_scheme result" where
  "unlinkBack x f s =
     (if Some x \<noteq> rl_back s
      then bind_r (ptr (rd_prev s f)) (\<lambda>p. Inr (set_next p (rl_front s) s))
      else Inr (s\<lparr>rl_back := rl_front s\<rparr>))"

definition removeWaitingNextToFront ::
  "rid \<Rightarrow> ('e, 'm, 'z) SyncQueue_scheme \<Rightarrow> ('e, 'm, 'z) SyncQueue_scheme result" where
  "removeWaitingNextToFront x s =
     bind_r (ptr (rl_front s)) (\<lambda>f.
     bind_r (unlinkBack x f (set_prev f (rd_prev s x) s)) (\<lambda>s1.
       Inr (set_index f (rd_index s1 x) s1)))"

definition removeWaiting ::
  "rid \<Rightarrow> ('e, 'm, 'z) SyncQueue_scheme \<Rightarrow> ('e, 'm, 'z) SyncQueue_scheme result" where
  "removeWaiting x s =
     bind_r (ptr (rl_front s)) (\<lambda>f.
     bind_r (ptr (rd_prev s f)) (\<lambda>newFront.
       let s1 = set_next newFront None s;
           s2 = set_prev f (rd_prev s1 x) s1 in
       bind_r (unlinkBack x f s2) (\<lambda>s3.
         let s4 = set_next f (rd_next s3 x) s3 in
         bind_r (ptr (rd_next s4 f)) (\<lambda>fn.
           let s5 = set_prev fn (rl_front s4) s4;
               s6 = set_index f (rd_index s5 x) s5 in
           Inr (s6\<lparr>rl_front := Some newFront\<rparr>)))))"

definition removeDone ::
  "rid \<Rightarrow> ('e, 'm, 'z) SyncQueue_scheme \<Rightarrow> ('e, 'm, 'z) SyncQueue_scheme result" where
  "removeDone x s =
     bind_r
       (if Some x = rl_back s then Inr (s\<lparr>rl_back := rd_next s x\<rparr>)
        else bind_r (ptr (rd_prev s x)) (\<lambda>p. Inr (set_next p (rd_next s x) s)))
       (\<lambda>s1. bind_r (ptr (rd_next s1 x)) (\<lambda>n. Inr (set_prev n (rd_prev s1 x) s1)))"

definition removeFront ::
  "rid \<Rightarrow> ('e, 'm, 'z) SyncQueue_scheme \<Rightarrow> ('e, 'm, 'z) SyncQueue_scheme result" where
  "removeFront x s =
     (if Some x = rl_back s
      then
        bind_r
          (if ri_isDone (readers s x)
           then let (empty, s1) = SyncQueue_isEmpty x s
                in if \<not> empty
                   then bind_r (nextIndex (rd_index s1 x) (currentSize s1)) (\<lambda>n. Inr (s1\<lparr>readIndex := n\<rparr>))
                   else Inr s1
           else Inr s)
          (\<lambda>s2. Inr ((set_prev x None (set_next x None s2))\<lparr>rl_back := None, rl_front := None\<rparr>))
      else
        let s1 = s\<lparr>rl_front := rd_prev s x\<rparr>;
            s2 = set_prev x None (set_next x None s1) in
        bind_r (ptr (rl_front s2)) (\<lambda>f. Inr (set_next f None s2)))"

definition readerList_remove ::
  "rid \<Rightarrow> ('e, 'm, 'z) SyncQueue_scheme \<Rightarrow> ('e, 'm, 'z) SyncQueue_scheme result" where
  "readerList_remove x s =
     (if \<not> ri_inQueue (readers s x) then Inr s
      else
        bind_r
          (if Some x \<noteq> rl_front s
           then
             bind_r
               (if \<not> ri_isDone (readers s x)
                then (if rd_next s x = rl_front s then removeWaitingNextToFront x s else removeWaiting x s)
                else removeDone x s)
               (\<lambda>s1. Inr (set_prev x None (set_next x None s1)))
           else removeFront x s)
          (\<lambda>s2. Inr (set_isDone x False (set_inQueue x False (set_isEmpty x False s2)))))"

text \<open>
  \<^verbatim>\<open>adjust\<close>, called after the queue has grown: it walks the list from the back and moves the indices of
  readers whose slot was relocated. \<open>fuel\<close> bounds the number of readers visited.
\<close>

fun adjustLoop ::
  "nat \<Rightarrow> int \<Rightarrow> int \<Rightarrow> rid option \<Rightarrow> ('e, 'm, 'z) SyncQueue_scheme \<Rightarrow> ('e, 'm, 'z) SyncQueue_scheme result" where
  "adjustLoop 0 adjustment queueReadIndex p s = Inl OutOfFuel"
| "adjustLoop (Suc fuel) adjustment queueReadIndex p s =
     (case p of
        None \<Rightarrow> Inr s
      | Some x \<Rightarrow>
          let i = rd_index s x;
              slotIsPopulated =
                (adjustIndexForComparison (currentSize s) i queueReadIndex
                   < adjustIndexForComparison (currentSize s) (writeIndex s) queueReadIndex);
              s1 = (if (if slotIsPopulated then writeIndex s < i else i < writeIndex s)
                    then set_index x (i + adjustment) s else s)
          in if rd_next s1 x = rl_back s1 then Inr s1
             else adjustLoop fuel adjustment queueReadIndex (rd_next s1 x) s1)"

definition readerList_adjust ::
  "nat \<Rightarrow> int \<Rightarrow> int \<Rightarrow> ('e, 'm, 'z) SyncQueue_scheme \<Rightarrow> ('e, 'm, 'z) SyncQueue_scheme result" where
  "readerList_adjust fuel adjustment queueReadIndex s =
     adjustLoop fuel adjustment queueReadIndex (rl_back s) s"

text \<open>The walk of \<^verbatim>\<open>operator <<\<close>: the readers it prints, from the back to the front.\<close>

fun dumpLoop ::
  "nat \<Rightarrow> rid option \<Rightarrow> ('e, 'm, 'z) SyncQueue_scheme \<Rightarrow> rid list result" where
  "dumpLoop 0 p s = Inl OutOfFuel"
| "dumpLoop (Suc fuel) p s =
     (case p of
        None \<Rightarrow> Inr []
      | Some x \<Rightarrow>
          if rd_next s x = rl_back s then Inr [x]
          else bind_r (dumpLoop fuel (rd_next s x) s) (\<lambda>xs. Inr (x # xs)))"

section \<open>The list a heap represents\<close>

text \<open>
  \<open>chain h xs\<close>: consecutive readers of \<open>xs\<close> point at each other. The previous pointer of the first and
  the next pointer of the last are not constrained.
\<close>

fun chain :: "(rid \<Rightarrow> ReaderIndex) \<Rightarrow> rid list \<Rightarrow> bool" where
  "chain h [] = True"
| "chain h [x] = True"
| "chain h (x # y # ys) \<longleftrightarrow> ri_next (h x) = Some y \<and> ri_previous (h y) = Some x \<and> chain h (y # ys)"

text \<open>
  \<open>rlist_ok s xs\<close>: the list of \<open>s\<close>, from back to front, is \<open>xs\<close>. The next pointer of the front is NULL;
  in a list of one reader it may also be that reader itself, which is how \<^verbatim>\<open>add\<close> sets up the first one.
\<close>

definition rlist_ok :: "('e, 'm, 'z) SyncQueue_scheme \<Rightarrow> rid list \<Rightarrow> bool" where
  "rlist_ok s xs \<longleftrightarrow>
     distinct xs \<and> chain (readers s) xs \<and>
     (\<forall>x. x \<in> set xs \<longleftrightarrow> ri_inQueue (readers s x)) \<and>
     (if xs = [] then rl_back s = None \<and> rl_front s = None
      else rl_back s = Some (hd xs) \<and> rl_front s = Some (last xs) \<and>
        (rd_next s (last xs) = None \<or> length xs = 1 \<and> rd_next s (last xs) = Some (last xs)))"

lemma chain_append:
  "xs \<noteq> [] \<Longrightarrow> ys \<noteq> [] \<Longrightarrow>
   chain h (xs @ ys) \<longleftrightarrow> chain h xs \<and> chain h ys \<and>
     ri_next (h (last xs)) = Some (hd ys) \<and> ri_previous (h (hd ys)) = Some (last xs)"
proof (induction h xs rule: chain.induct)
  case (2 h x)
  then show ?case by (cases ys) auto
qed auto

lemma chain_Cons:
  "ys \<noteq> [] \<Longrightarrow> chain h (x # ys) \<longleftrightarrow>
     ri_next (h x) = Some (hd ys) \<and> ri_previous (h (hd ys)) = Some x \<and> chain h ys"
  by (cases ys) auto

lemma chain_cong:
  "(\<And>y. y \<in> set (butlast xs) \<Longrightarrow> ri_next (h' y) = ri_next (h y)) \<Longrightarrow>
   (\<And>y. y \<in> set (tl xs) \<Longrightarrow> ri_previous (h' y) = ri_previous (h y)) \<Longrightarrow>
   chain h' xs = chain h xs"
  by (induction h xs rule: chain.induct) auto

lemma chain_cong_all:
  assumes "\<And>y. y \<in> set xs \<Longrightarrow> ri_next (h' y) = ri_next (h y) \<and> ri_previous (h' y) = ri_previous (h y)"
  shows "chain h' xs = chain h xs"
  using assms by (cases xs) (auto intro!: chain_cong dest: in_set_butlastD)

end
