(* ===== verification/Reader_List_Refinement.thy ===== *)
theory Reader_List_Refinement
  imports Sync_Reader_List
begin

text \<open>
  The reader list as a list: an abstract specification of \<^verbatim>\<open>SyncReaderList\<close> on the order of the readers
  (back to front), their slots and the queue's read index, and the proof that the pointer operations
  of \<open>Sync_Reader_List\<close> implement it without a null dereference.
\<close>

section \<open>Abstract operations\<close>

record rspec =
  order :: "rid list"
  slot :: "rid \<Rightarrow> int"
  rindex :: int

definition rl_abs :: "('e, 'm, 'z) SyncQueue_scheme \<Rightarrow> rid list \<Rightarrow> rspec" where
  "rl_abs s xs = \<lparr>order = xs, slot = rd_index s, rindex = readIndex s\<rparr>"

definition spans :: "int \<Rightarrow> rspec \<Rightarrow> bool" where
  "spans n a \<longleftrightarrow> (slot a (last (order a)) + 1) mod n = slot a (hd (order a))"

text \<open>The reader \<open>x\<close> takes the slot after the front and becomes the front.\<close>

definition spec_advance :: "int \<Rightarrow> rid \<Rightarrow> rspec \<Rightarrow> rspec" where
  "spec_advance n x a =
     (let xs' = remove1 x (order a) @ [x];
          sl' = (slot a)(x := (slot a (last (order a)) + 1) mod n)
      in \<lparr>order = xs', slot = sl', rindex = (if x = hd (order a) then sl' (hd xs') else rindex a)\<rparr>)"

text \<open>The back reader steps behind the front and takes the slot of its new neighbour.\<close>

definition spec_squeeze :: "rspec \<Rightarrow> rspec" where
  "spec_squeeze a =
     (case order a of
        x # y # z # zs \<Rightarrow>
          let ys = y # butlast (z # zs) in
          \<lparr>order = ys @ [x, last (z # zs)], slot = (slot a)(x := slot a (last ys)), rindex = slot a y\<rparr>
      | _ \<Rightarrow> a\<lparr>rindex := slot a (hd (order a))\<rparr>)"

definition spec_moveToFront :: "int \<Rightarrow> rid \<Rightarrow> rspec \<Rightarrow> bool \<times> rspec" where
  "spec_moveToFront n x a =
     (if \<not> spans n a then (True, spec_advance n x a)
      else (False, if x = hd (order a) then spec_squeeze a else a))"

text \<open>A new reader: \<open>True\<close> when it starts without a slot of its own, behind the front.\<close>

definition spec_add :: "int \<Rightarrow> rid \<Rightarrow> rspec \<Rightarrow> bool \<times> rspec" where
  "spec_add n x a =
     (if order a = [] then (False, a\<lparr>order := [x], slot := (slot a)(x := rindex a)\<rparr>)
      else if \<not> spans n a
      then (False, a\<lparr>order := order a @ [x], slot := (slot a)(x := (slot a (last (order a)) + 1) mod n)\<rparr>)
      else (True, a\<lparr>order := butlast (order a) @ [x, last (order a)],
                    slot := (slot a)(x := slot a (last (butlast (order a))))\<rparr>))"

text \<open>A reader leaves: a waiting reader hands its slot to the front.\<close>

definition spec_remove :: "int \<Rightarrow> bool \<Rightarrow> rid \<Rightarrow> rspec \<Rightarrow> rspec" where
  "spec_remove n finished x a =
     (let f = last (order a) in
      if x \<noteq> f
      then (if finished then a\<lparr>order := remove1 x (order a)\<rparr>
            else a\<lparr>order := map (\<lambda>y. if y = x then f else y) (butlast (order a)),
                   slot := (slot a)(f := slot a x)\<rparr>)
      else if order a = [x]
      then a\<lparr>order := [], rindex := (if finished then (slot a x + 1) mod n else rindex a)\<rparr>
      else a\<lparr>order := butlast (order a)\<rparr>)"

section \<open>Frame\<close>

text \<open>What a list operation leaves alone: the ring queue apart from its read index, and the flags.\<close>

definition list_frame :: "('e, 'm, 'z) SyncQueue_scheme \<Rightarrow> ('e, 'm, 'z) SyncQueue_scheme \<Rightarrow> bool" where
  "list_frame s s' \<longleftrightarrow>
     s' = s\<lparr>readIndex := readIndex s', readers := readers s', rl_front := rl_front s', rl_back := rl_back s'\<rparr>"

definition flags_frame :: "('e, 'm, 'z) SyncQueue_scheme \<Rightarrow> ('e, 'm, 'z) SyncQueue_scheme \<Rightarrow> bool" where
  "flags_frame s s' \<longleftrightarrow> (\<forall>y. ri_isDone (readers s' y) = ri_isDone (readers s y) \<and>
     ri_inQueue (readers s' y) = ri_inQueue (readers s y) \<and> ri_isEmpty (readers s' y) = ri_isEmpty (readers s y))"

lemma list_frameD:
  assumes "list_frame s s'"
  shows "queueData s' = queueData s" "dataEntries s' = dataEntries s" "currentSize s' = currentSize s"
    "writeIndex s' = writeIndex s" "stats s' = stats s" "addMutex s' = addMutex s" "syncWriter s' = syncWriter s"
  by (subst assms [unfolded list_frame_def], simp)+

text \<open>The state after an operation represents \<open>a'\<close>, and the rest of the queue is as before.\<close>

definition rl_post :: "('e, 'm, 'z) SyncQueue_scheme \<Rightarrow> rspec \<Rightarrow> ('e, 'm, 'z) SyncQueue_scheme \<Rightarrow> bool" where
  "rl_post s a' s' \<longleftrightarrow> rlist_ok s' (order a') \<and> rl_abs s' (order a') = a' \<and> list_frame s s'"

lemma chain_frame:
  assumes "distinct xs"
    and "\<And>y. y \<in> set xs \<Longrightarrow> y \<noteq> last xs \<Longrightarrow> ri_next (h' y) = ri_next (h y)"
    and "\<And>y. y \<in> set xs \<Longrightarrow> y \<noteq> hd xs \<Longrightarrow> ri_previous (h' y) = ri_previous (h y)"
  shows "chain h' xs = chain h xs"
proof (rule chain_cong)
  fix y
  show "ri_next (h' y) = ri_next (h y)" if "y \<in> set (butlast xs)"
    using that assms(1,2) by (cases xs rule: rev_cases) auto
  show "ri_previous (h' y) = ri_previous (h y)" if "y \<in> set (tl xs)"
    using that assms(1,3) by (cases xs) auto
qed

lemma rlist_ok_back:
  assumes "rlist_ok s (x # ys)" and "ys \<noteq> []"
  shows "distinct ys" "x \<notin> set ys" "chain (readers s) ys" "rd_next s x = Some (hd ys)"
    "rd_prev s (hd ys) = Some x"
    "rl_back s = Some x" "rl_front s = Some (last ys)" "rd_next s (last ys) = None"
    "\<And>y. ri_inQueue (readers s y) \<longleftrightarrow> y = x \<or> y \<in> set ys"
    "hd ys \<in> set ys" "last ys \<in> set ys"
  using assms by (auto simp: rlist_ok_def chain_Cons)

lemma rlist_ok_middle:
  assumes "rlist_ok s (as @ x # bs)" and "as \<noteq> []" and "bs \<noteq> []"
  shows "distinct as" "distinct bs" "x \<notin> set as" "x \<notin> set bs" "set as \<inter> set bs = {}"
    "chain (readers s) as" "chain (readers s) bs"
    "rd_next s (last as) = Some x" "rd_prev s x = Some (last as)" "rd_next s x = Some (hd bs)"
    "rd_prev s (hd bs) = Some x"
    "rl_back s = Some (hd as)" "rl_front s = Some (last bs)" "rd_next s (last bs) = None"
    "\<And>y. ri_inQueue (readers s y) \<longleftrightarrow> y = x \<or> y \<in> set as \<or> y \<in> set bs"
    "hd as \<in> set as" "last as \<in> set as" "hd bs \<in> set bs" "last bs \<in> set bs"
  using assms by (auto simp: rlist_ok_def chain_append chain_Cons)

section \<open>moveToFront\<close>

lemma advance_back_refines:
  assumes ok: "rlist_ok s (x # ys)" and ys: "ys \<noteq> []"
    and ni: "nextIndex (rd_index s (last ys)) (currentSize s) = Inr ni" and sp: "ni \<noteq> rd_index s x"
  shows "\<exists>s'. moveToFront x s = Inr (True, s') \<and> flags_frame s s' \<and>
    rl_post s \<lparr>order = ys @ [x], slot = (rd_index s)(x := ni), rindex = rd_index s (hd ys)\<rparr> s'"
proof -
  let ?b = "hd ys" let ?f = "last ys"
  note d = rlist_ok_back [OF ok ys]
  have ne: "?b \<noteq> x" "?f \<noteq> x" using d(2,10,11) by auto
  define s1 where "s1 = (set_index x ni s)\<lparr>rl_back := Some ?b, readIndex := rd_index s ?b\<rparr>"
  define s' where "s' = (set_next ?f (Some x) (set_next x None (set_prev x (Some ?f)
      (set_prev ?b (rd_prev s x) s1))))\<lparr>rl_front := Some x\<rparr>"
  have "moveToFront x s = Inr (True, s')"
    using ni sp ne d by (simp add: moveToFront_def moveOut_def Let_def s'_def s1_def)
  moreover have "chain (readers s') ys = chain (readers s) ys"
    by (rule chain_frame) (use d ne in \<open>auto simp: s'_def s1_def\<close>)
  then have "rlist_ok s' (ys @ [x])"
    using d ys ne by (auto simp: rlist_ok_def chain_append s'_def s1_def)
  moreover have "list_frame s s'" "flags_frame s s'"
    by (auto simp: list_frame_def flags_frame_def s'_def s1_def upd_reader_def)
  moreover have "rl_abs s' (ys @ [x]) =
      \<lparr>order = ys @ [x], slot = (rd_index s)(x := ni), rindex = rd_index s ?b\<rparr>"
    using ne by (auto simp: rl_abs_def s'_def s1_def)
  ultimately show ?thesis by (auto simp: rl_post_def)
qed

lemma advance_middle_refines:
  assumes ok: "rlist_ok s (as @ x # bs)" and ab: "as \<noteq> []" "bs \<noteq> []"
    and ni: "nextIndex (rd_index s (last bs)) (currentSize s) = Inr ni" and sp: "ni \<noteq> rd_index s (hd as)"
  shows "\<exists>s'. moveToFront x s = Inr (True, s') \<and> flags_frame s s' \<and>
    rl_post s \<lparr>order = as @ bs @ [x], slot = (rd_index s)(x := ni), rindex = readIndex s\<rparr> s'"
proof -
  note d = rlist_ok_middle [OF ok ab]
  have ne: "hd as \<noteq> x" "last as \<noteq> x" "hd bs \<noteq> x" "last bs \<noteq> x" "last as \<noteq> last bs" "last as \<noteq> hd bs" "hd bs \<noteq> hd as"
    using d(3,4,5,16-19) by auto
  define s' where "s' = (set_next (last bs) (Some x) (set_next x None (set_prev x (Some (last bs))
      (set_prev (hd bs) (Some (last as)) (set_next (last as) (Some (hd bs)) (set_index x ni s))))))\<lparr>rl_front := Some x\<rparr>"
  have "moveToFront x s = Inr (True, s')"
    using ni sp ne d by (simp add: moveToFront_def moveOut_def Let_def s'_def)
  moreover have "chain (readers s') as = chain (readers s) as" "chain (readers s') bs = chain (readers s) bs"
    by (rule chain_frame; use d ne in \<open>auto simp: s'_def\<close>)+
  then have "rlist_ok s' (as @ bs @ [x])"
    using d ab ne by (auto simp: rlist_ok_def chain_append s'_def)
  moreover have "list_frame s s'" "flags_frame s s'"
    by (auto simp: list_frame_def flags_frame_def s'_def upd_reader_def)
  moreover have "rl_abs s' (as @ bs @ [x]) =
      \<lparr>order = as @ bs @ [x], slot = (rd_index s)(x := ni), rindex = readIndex s\<rparr>"
    by (auto simp: rl_abs_def s'_def)
  ultimately show ?thesis by (auto simp: rl_post_def)
qed

lemma advance_front_refines:
  assumes ok: "rlist_ok s (as @ [x])"
    and ni: "nextIndex (rd_index s x) (currentSize s) = Inr ni" and sp: "ni \<noteq> rd_index s (hd (as @ [x]))"
  shows "\<exists>s'. moveToFront x s = Inr (True, s') \<and> flags_frame s s' \<and>
    rl_post s \<lparr>order = as @ [x], slot = (rd_index s)(x := ni), rindex = (if as = [] then ni else readIndex s)\<rparr> s'"
proof -
  define s' where "s' = (if as = [] then (set_index x ni s)\<lparr>readIndex := ni\<rparr> else set_index x ni s)"
  have p: "rl_front s = Some x" "rl_back s = Some (hd (as @ [x]))" "ri_inQueue (readers s x)"
    and d: "as \<noteq> [] \<Longrightarrow> hd as \<noteq> x"
    using ok by (auto simp: rlist_ok_def)
  have "moveToFront x s = Inr (True, s')"
    using ni sp p d by (cases as) (auto simp: moveToFront_def Let_def s'_def)
  moreover have "chain (readers s') (as @ [x]) = chain (readers s) (as @ [x])"
    by (rule chain_cong_all) (simp add: s'_def)
  then have "rlist_ok s' (as @ [x])"
    using ok by (cases "as = []") (auto simp: rlist_ok_def s'_def)
  moreover have "list_frame s s'" "flags_frame s s'"
    by (auto simp: list_frame_def flags_frame_def s'_def upd_reader_def)
  moreover have "rl_abs s' (as @ [x]) =
      \<lparr>order = as @ [x], slot = (rd_index s)(x := ni), rindex = (if as = [] then ni else readIndex s)\<rparr>"
    by (auto simp: rl_abs_def s'_def)
  ultimately show ?thesis by (auto simp: rl_post_def)
qed

text \<open>The squeeze: with three or more readers the back steps behind the front.\<close>

lemma squeeze_refines:
  assumes ok: "rlist_ok s (x # y # zs @ [f])"
  shows "\<exists>s'. squeeze x s = Inr s' \<and> flags_frame s s' \<and>
    rl_post s \<lparr>order = y # zs @ [x, f], slot = (rd_index s)(x := rd_index s (last (y # zs))), rindex = rd_index s y\<rparr> s'"
proof -
  let ?n = "hd (zs @ [f])" let ?l = "last (y # zs)"
  have d: "x \<notin> set (y # zs @ [f])" "distinct (y # zs)" "f \<notin> set (y # zs)" "distinct (zs @ [f])"
    and c: "chain (readers s) (y # zs)" "rd_next s ?l = Some f" "rd_prev s f = Some ?l" "rd_next s x = Some y"
      "rd_next s y = Some ?n" "rd_next s f = None" "rd_prev s ?n = Some y"
    and p: "rl_back s = Some x" "rl_front s = Some f"
    and q: "\<And>w. ri_inQueue (readers s w) \<longleftrightarrow> w = x \<or> w \<in> set (y # zs @ [f])"
    using ok chain_append [of "y # zs" "[f]" "readers s"] chain_append [of "[y]" "zs @ [f]" "readers s"]
    by (auto simp: rlist_ok_def)
  have ne: "x \<noteq> y" "x \<noteq> f" "y \<noteq> f" "?n \<noteq> x" "?n \<noteq> y" "?l \<noteq> x" "?l \<noteq> f"
    using d by (auto simp: hd_append split: if_splits)
  have hf: "zs \<noteq> [] \<Longrightarrow> f \<noteq> hd zs" using d(3) by auto
  define s1 where "s1 = set_prev ?n (Some y) (set_prev y None (s\<lparr>rl_back := Some y\<rparr>))"
  define s2 where "s2 = set_prev f (Some x) (set_next ?l (Some x) (set_prev x (Some ?l) (set_next x (Some f) s1)))"
  define s' where "s' = (set_index x (rd_index s ?l) s2)\<lparr>readIndex := rd_index s y\<rparr>"
  have pf: "rd_prev s1 f = Some ?l" using c(3) ne d(3) by (cases zs) (auto simp: s1_def)
  have sq: "squeeze x s = Inr s'"
    using ne c p pf by (simp add: squeeze_def Let_def s1_def [symmetric] s2_def s'_def)
      (auto simp: s1_def hf)
  have "chain (readers s') (y # zs) = chain (readers s) (y # zs)"
  proof (rule chain_frame [OF d(2)])
    fix w assume "w \<in> set (y # zs)"
    show "ri_next (readers s' w) = rd_next s w" if "w \<noteq> ?l"
      using that \<open>w \<in> set (y # zs)\<close> ne d by (auto simp: s'_def s2_def s1_def)
    show "ri_previous (readers s' w) = rd_prev s w" if "w \<noteq> hd (y # zs)"
      using that \<open>w \<in> set (y # zs)\<close> ne d c(7) by (auto simp: s'_def s2_def s1_def)
  qed
  moreover have "rd_next s' ?l = Some x" "rd_prev s' x = Some ?l" "rd_next s' x = Some f" "rd_prev s' f = Some x"
      "rd_next s' f = None"
    using ne c(6) by (simp_all add: s'_def s2_def s1_def)
  ultimately have "chain (readers s') (y # zs @ [x, f])"
    using c(1) chain_append [of "y # zs" "[x, f]" "readers s'"] by simp
  moreover have "rl_back s' = Some y" "rl_front s' = Some f"
    using p by (simp_all add: s'_def s2_def s1_def)
  moreover have fl: "flags_frame s s'"
    by (simp add: flags_frame_def s'_def s2_def s1_def)
  ultimately have "rlist_ok s' (y # zs @ [x, f])"
    using d ne q \<open>rd_next s' f = None\<close> by (auto simp: rlist_ok_def flags_frame_def)
  moreover have "list_frame s s'"
    by (simp add: list_frame_def s'_def s2_def s1_def upd_reader_def)
  moreover have "rd_index s2 w = rd_index s w" for w
    by (simp add: s2_def s1_def)
  then have "rl_abs s' (y # zs @ [x, f]) =
      \<lparr>order = y # zs @ [x, f], slot = (rd_index s)(x := rd_index s ?l), rindex = rd_index s y\<rparr>"
    by (simp add: rl_abs_def s'_def fun_eq_iff)
  ultimately show ?thesis using sq fl by (auto simp: rl_post_def)
qed

text \<open>Every listed reader has a slot of the ring, which has at least two slots.\<close>

definition slots_ok :: "('e, 'm, 'z) SyncQueue_scheme \<Rightarrow> rid list \<Rightarrow> bool" where
  "slots_ok s xs \<longleftrightarrow> 2 \<le> ring_size s \<and> ring_size s \<le> 1073741824 \<and>
     (\<forall>y \<in> set xs. 0 \<le> rd_index s y \<and> rd_index s y < ring_size s)"

lemma nextIndex_front:
  assumes "slots_ok s xs" and "x \<in> set xs"
  shows "nextIndex (rd_index s x) (currentSize s) = Inr ((rd_index s x + 1) mod ring_size s)"
  using assms by (intro nextIndex_ok) (force simp: slots_ok_def)+

lemma spans_two:
  assumes "slots_ok s xs" and "spans (ring_size s) (rl_abs s xs)" and "xs \<noteq> []"
  shows "hd xs \<noteq> last xs"
proof
  assume "hd xs = last xs"
  moreover have "last xs \<in> set xs" using assms(3) by simp
  ultimately show False
    using assms(1,2) unfolding slots_ok_def spans_def rl_abs_def
    by (cases "rd_index s (last xs) + 1 = ring_size s") auto
qed

lemma squeeze_two:
  assumes "rlist_ok s [x, f]"
  shows "squeeze x s = Inr (s\<lparr>readIndex := rd_index s x\<rparr>)"
  using assms by (simp add: squeeze_def rlist_ok_def)

lemma spec_advance_split:
  assumes "distinct (as @ x # bs)"
  shows "spec_advance n x \<lparr>order = as @ x # bs, slot = sl, rindex = r\<rparr> =
    (let ni = (sl (last (x # bs)) + 1) mod n in
     \<lparr>order = as @ bs @ [x], slot = sl(x := ni),
      rindex = (if as \<noteq> [] then r else if bs = [] then ni else sl (hd bs))\<rparr>)"
proof -
  have "as \<noteq> [] \<Longrightarrow> hd as \<noteq> x" "bs \<noteq> [] \<Longrightarrow> hd bs \<noteq> x" using assms by auto
  then show ?thesis using assms by (auto simp: spec_advance_def Let_def remove1_append hd_append)
qed

lemma moveToFront_advances:
  assumes ok: "rlist_ok s xs" and sl: "slots_ok s xs" and x: "x \<in> set xs"
    and sp: "\<not> spans (ring_size s) (rl_abs s xs)"
  shows "\<exists>s'. moveToFront x s = Inr (True, s') \<and> flags_frame s s' \<and>
    rl_post s (spec_advance (ring_size s) x (rl_abs s xs)) s'"
proof -
  let ?ni = "(rd_index s (last xs) + 1) mod ring_size s"
  from split_list [OF x] obtain as bs where xs: "xs = as @ x # bs" by blast
  have d: "distinct xs" using ok by (simp add: rlist_ok_def)
  note sa = spec_advance_split [OF d [unfolded xs]]
  have ni: "nextIndex (rd_index s (last xs)) (currentSize s) = Inr ?ni"
    using x by (intro nextIndex_front [OF sl] last_in_set) auto
  have ne: "?ni \<noteq> rd_index s (hd xs)" using sp by (simp add: spans_def rl_abs_def)
  consider "bs = []" | "as = []" "bs \<noteq> []" | "as \<noteq> []" "bs \<noteq> []" by blast
  then show ?thesis
  proof cases
    case 1
    then show ?thesis
      using advance_front_refines [of s as x ?ni] ok ni ne xs
      by (auto simp: sa [unfolded 1] rl_abs_def Let_def)
  next
    case 2
    then show ?thesis
      using advance_back_refines [of s x bs ?ni] ok ni ne xs
      by (auto simp: sa [unfolded 2(1) append_Nil] rl_abs_def Let_def)
  next
    case 3
    then show ?thesis
      using advance_middle_refines [of s as x bs ?ni] ok ni ne xs
      by (auto simp: sa rl_abs_def Let_def)
  qed
qed

lemma rl_post_readIndex:
  "rlist_ok s xs \<Longrightarrow> rl_post s (rl_abs s xs) s"
  "rlist_ok s xs \<Longrightarrow> rl_post s ((rl_abs s xs)\<lparr>rindex := i\<rparr>) (s\<lparr>readIndex := i\<rparr>)"
  by (auto simp: rl_post_def rl_abs_def rlist_ok_def list_frame_def)

lemma moveToFront_blocked:
  assumes ok: "rlist_ok s xs" and sl: "slots_ok s xs" and x: "x \<in> set xs"
    and sp: "spans (ring_size s) (rl_abs s xs)"
  shows "\<exists>s'. moveToFront x s = Inr (False, s') \<and> flags_frame s s' \<and>
    rl_post s (if x = hd xs then spec_squeeze (rl_abs s xs) else rl_abs s xs) s'"
proof -
  have ni: "nextIndex (rd_index s (last xs)) (currentSize s) = Inr (rd_index s (hd xs))"
    using nextIndex_front [OF sl last_in_set] x sp by (force simp: spans_def rl_abs_def)
  have p: "rl_front s = Some (last xs)" "rl_back s = Some (hd xs)" "ri_inQueue (readers s x)"
    using ok x by (auto simp: rlist_ok_def split: if_splits)
  have m: "moveToFront x s = (if x = hd xs then bind_r (squeeze x s) (\<lambda>s1. Inr (False, s1)) else Inr (False, s))"
    using p ni by (auto simp: moveToFront_def)
  show ?thesis
  proof (cases "x = hd xs")
    case False
    then show ?thesis using m rl_post_readIndex(1) [OF ok] by (auto simp: flags_frame_def)
  next
    case True
    obtain zs where xs: "xs = x # zs" "zs \<noteq> []"
      using True x spans_two [OF sl sp] by (cases xs) (auto split: if_splits)
    show ?thesis
    proof (cases "\<exists>f. zs = [f]")
      case True
      then show ?thesis
        using m xs squeeze_two [of s x] ok rl_post_readIndex(2) [OF ok, of "rd_index s x"]
        by (auto simp: spec_squeeze_def rl_abs_def flags_frame_def)
    next
      case False
      then obtain y ws f where zs: "zs = y # ws @ [f]"
        using xs(2) by (metis append_Nil append_Cons neq_Nil_conv rev_exhaust)
      show ?thesis
        using m xs zs squeeze_refines [of s x y ws f] ok
        by (cases ws) (auto simp: spec_squeeze_def rl_abs_def Let_def butlast_append)
    qed
  qed
qed

theorem moveToFront_refines:
  assumes "rlist_ok s xs" and "slots_ok s xs" and "x \<in> set xs"
    and "spec_moveToFront (ring_size s) x (rl_abs s xs) = (r, a')"
  shows "\<exists>s'. moveToFront x s = Inr (r, s') \<and> flags_frame s s' \<and> rl_post s a' s'"
  using moveToFront_advances [OF assms(1-3)] moveToFront_blocked [OF assms(1-3)] assms(4)
  by (auto simp: spec_moveToFront_def rl_abs_def split: if_splits)

section \<open>add\<close>

text \<open>The flags of \<open>x\<close> become \<open>done\<close>, \<open>empty\<close> and \<open>queued\<close>; those of the other readers stay.\<close>

definition flags_set ::
  "('e, 'm, 'z) SyncQueue_scheme \<Rightarrow> rid \<Rightarrow> bool \<Rightarrow> bool \<Rightarrow> bool \<Rightarrow> ('e, 'm, 'z) SyncQueue_scheme \<Rightarrow> bool" where
  "flags_set s x finished vacant queued s' \<longleftrightarrow>
     (\<forall>y. ri_isDone (readers s' y) = (if y = x then finished else ri_isDone (readers s y)) \<and>
        ri_isEmpty (readers s' y) = (if y = x then vacant else ri_isEmpty (readers s y)) \<and>
        ri_inQueue (readers s' y) = (if y = x then queued else ri_inQueue (readers s y)))"

lemma add_first_refines:
  assumes ok: "rlist_ok s []"
  shows "\<exists>s'. readerList_add x s = Inr s' \<and> flags_set s x False True True s' \<and>
    rl_post s \<lparr>order = [x], slot = (rd_index s)(x := readIndex s), rindex = readIndex s\<rparr> s'"
proof -
  define s' where "s' = set_inQueue x True (set_isEmpty x True (set_isDone x False
     ((set_next x (Some x) (set_prev x (Some x) (set_index x (readIndex s) s)))\<lparr>rl_back := Some x, rl_front := Some x\<rparr>)))"
  have q: "\<not> ri_inQueue (readers s y)" for y using ok by (simp add: rlist_ok_def)
  then have "readerList_add x s = Inr s'"
    using ok by (simp add: readerList_add_def rlist_ok_def Let_def s'_def)
  moreover have "rlist_ok s' [x]" using q by (simp add: rlist_ok_def s'_def)
  moreover have "list_frame s s'" by (simp add: list_frame_def s'_def upd_reader_def)
  moreover have "flags_set s x False True True s'" by (simp add: flags_set_def s'_def)
  moreover have "rl_abs s' [x] = \<lparr>order = [x], slot = (rd_index s)(x := readIndex s), rindex = readIndex s\<rparr>"
    by (simp add: rl_abs_def s'_def fun_eq_iff)
  ultimately show ?thesis by (auto simp: rl_post_def)
qed

lemma add_front_refines:
  assumes ok: "rlist_ok s xs" and xs: "xs \<noteq> []" and x: "x \<notin> set xs"
    and ni: "nextIndex (rd_index s (last xs)) (currentSize s) = Inr ni" and sp: "ni \<noteq> rd_index s (hd xs)"
  shows "\<exists>s'. readerList_add x s = Inr s' \<and> flags_set s x False True True s' \<and>
    rl_post s \<lparr>order = xs @ [x], slot = (rd_index s)(x := ni), rindex = readIndex s\<rparr> s'"
proof -
  let ?f = "last xs"
  define s' where "s' = set_inQueue x True (set_isEmpty x True (set_isDone x False
     ((set_next ?f (Some x) (set_index x ni (set_prev x (Some ?f) (set_next x None s))))\<lparr>rl_front := Some x\<rparr>)))"
  have p: "rl_front s = Some ?f" "rl_back s = Some (hd xs)" "distinct xs" "chain (readers s) xs"
    and q: "\<And>y. ri_inQueue (readers s y) \<longleftrightarrow> y \<in> set xs" and f: "?f \<noteq> x" "hd xs \<noteq> x"
    using ok xs x last_in_set [OF xs] hd_in_set [OF xs] by (auto simp: rlist_ok_def)
  have "readerList_add x s = Inr s'"
    using p q ni sp x by (simp add: readerList_add_def Let_def s'_def)
  moreover have "chain (readers s') xs = chain (readers s) xs"
    by (rule chain_frame) (use p x in \<open>auto simp: s'_def\<close>)
  then have "rlist_ok s' (xs @ [x])"
    using p q f x xs by (auto simp: rlist_ok_def chain_append s'_def)
  moreover have "list_frame s s'" by (simp add: list_frame_def s'_def upd_reader_def)
  moreover have "flags_set s x False True True s'" by (simp add: flags_set_def s'_def)
  moreover have "rl_abs s' (xs @ [x]) = \<lparr>order = xs @ [x], slot = (rd_index s)(x := ni), rindex = readIndex s\<rparr>"
    by (simp add: rl_abs_def s'_def fun_eq_iff)
  ultimately show ?thesis by (auto simp: rl_post_def)
qed

lemma add_behind_refines:
  assumes ok: "rlist_ok s (ys @ [f])" and ys: "ys \<noteq> []" and x: "x \<notin> set (ys @ [f])"
    and ni: "nextIndex (rd_index s f) (currentSize s) = Inr (rd_index s (hd ys))"
  shows "\<exists>s'. readerList_add x s = Inr s' \<and> flags_set s x True True True s' \<and>
    rl_post s \<lparr>order = ys @ [x, f], slot = (rd_index s)(x := rd_index s (last ys)), rindex = readIndex s\<rparr> s'"
proof -
  let ?l = "last ys"
  define s' where "s' = set_inQueue x True (set_isEmpty x True (set_isDone x True (set_index x (rd_index s ?l)
     (set_next ?l (Some x) (set_prev f (Some x) (set_prev x (Some ?l) (set_next x (Some f) s)))))))"
  have p: "rl_front s = Some f" "rl_back s = Some (hd ys)" "distinct ys" "f \<notin> set ys" "chain (readers s) ys"
      "rd_next s f = None" "rd_prev s f = Some ?l"
    and q: "\<And>y. ri_inQueue (readers s y) \<longleftrightarrow> y \<in> set ys \<or> y = f"
    using ok ys by (auto simp: rlist_ok_def chain_append)
  have ne: "?l \<noteq> x" "hd ys \<noteq> x" "f \<noteq> x" "?l \<noteq> f" "hd ys \<noteq> f"
    using x p(4) last_in_set [OF ys] hd_in_set [OF ys] by auto
  have "readerList_add x s = Inr s'"
    using p q ni x ne by (simp add: readerList_add_def Let_def s'_def)
  moreover have "chain (readers s') ys = chain (readers s) ys"
    by (rule chain_frame) (use p x in \<open>auto simp: s'_def\<close>)
  then have "rlist_ok s' (ys @ [x, f])"
    using p q ne x ys by (auto simp: rlist_ok_def chain_append s'_def)
  moreover have "list_frame s s'" by (simp add: list_frame_def s'_def upd_reader_def)
  moreover have "flags_set s x True True True s'" by (simp add: flags_set_def s'_def)
  moreover have "rl_abs s' (ys @ [x, f]) =
      \<lparr>order = ys @ [x, f], slot = (rd_index s)(x := rd_index s ?l), rindex = readIndex s\<rparr>"
    by (simp add: rl_abs_def s'_def fun_eq_iff)
  ultimately show ?thesis by (auto simp: rl_post_def)
qed

theorem readerList_add_refines:
  assumes ok: "rlist_ok s xs" and sl: "slots_ok s xs" and x: "x \<notin> set xs"
    and a: "spec_add (ring_size s) x (rl_abs s xs) = (late, a')"
  shows "\<exists>s'. readerList_add x s = Inr s' \<and> flags_set s x late True True s' \<and> rl_post s a' s'"
proof (cases "xs = []")
  case True
  then show ?thesis using add_first_refines [of s x] ok a by (auto simp: spec_add_def rl_abs_def)
next
  case False
  let ?ni = "(rd_index s (last xs) + 1) mod ring_size s"
  have ni: "nextIndex (rd_index s (last xs)) (currentSize s) = Inr ?ni"
    by (rule nextIndex_front [OF sl last_in_set [OF False]])
  show ?thesis
  proof (cases "spans (ring_size s) (rl_abs s xs)")
    case sp: True
    obtain ys f where xs: "xs = ys @ [f]" using False by (cases xs rule: rev_cases) auto
    have "ys \<noteq> []" using spans_two [OF sl sp False] xs by auto
    then show ?thesis
      using add_behind_refines [of s ys f x] ok x ni sp xs a by (auto simp: spec_add_def rl_abs_def spans_def)
  next
    case sp: False
    then show ?thesis
      using add_front_refines [OF ok False x ni] False a by (auto simp: spec_add_def rl_abs_def spans_def)
  qed
qed

lemma readerList_add_twice:
  "ri_inQueue (readers s x) \<Longrightarrow> readerList_add x s = Inl (LogicError ''already added'')"
  by (simp add: readerList_add_def)

end
