(* ===== verification/Reader_List_Removal.thy ===== *)
theory Reader_List_Removal
  imports Reader_List_Refinement
begin

text \<open>
  Leaving the reader list, and the two walks over it: \<^verbatim>\<open>SyncReaderList::remove\<close> refines \<open>spec_remove\<close> on
  each of its branches, \<^verbatim>\<open>adjust\<close> visits every reader once, and the printer lists the readers from back
  to front.
\<close>

lemma list_frame_trans:
  assumes "list_frame s s1" and "list_frame s1 s2"
  shows "list_frame s s2"
proof -
  let ?F = "\<lambda>u v. u\<lparr>readIndex := readIndex v, readers := readers v, rl_front := rl_front v, rl_back := rl_back v\<rparr>"
  have "s2 = ?F s1 s2" using assms(2) by (simp add: list_frame_def)
  also have "\<dots> = ?F (?F s s1) s2"
    by (rule arg_cong [where f = "\<lambda>u. ?F u s2"]) (use assms(1) in \<open>simp add: list_frame_def\<close>)
  finally show ?thesis by (simp add: list_frame_def)
qed

lemma list_frame_upd: "list_frame s s1 \<Longrightarrow> list_frame s (upd_reader x f s1)"
  by (erule list_frame_trans) (simp add: list_frame_def upd_reader_def)

section \<open>remove\<close>

text \<open>The state before the final writes to \<open>x\<close>'s links and flags: \<open>x\<close> is no longer in the list.\<close>

definition unlinked :: "rid \<Rightarrow> ('e, 'm, 'z) SyncQueue_scheme \<Rightarrow> rspec \<Rightarrow> ('e, 'm, 'z) SyncQueue_scheme \<Rightarrow> bool" where
  "unlinked x s a s' \<longleftrightarrow> flags_frame s s' \<and> list_frame s s' \<and> rl_abs s' (order a) = a \<and>
     distinct (order a) \<and> order a \<noteq> [] \<and> chain (readers s') (order a) \<and>
     rl_back s' = Some (hd (order a)) \<and> rl_front s' = Some (last (order a)) \<and> rd_next s' (last (order a)) = None"

lemma unlinked_post:
  assumes u: "unlinked x s a s1" and m: "\<And>y. ri_inQueue (readers s y) \<longleftrightarrow> y = x \<or> y \<in> set (order a)"
    and x: "x \<notin> set (order a)"
  defines "s' \<equiv> set_isDone x False (set_inQueue x False (set_isEmpty x False (set_prev x None (set_next x None s1))))"
  shows "rl_post s a s'" "flags_set s x False False False s'"
proof -
  have "chain (readers s') (order a) = chain (readers s1) (order a)"
    by (rule chain_cong_all) (use x in \<open>auto simp: s'_def\<close>)
  then have "rlist_ok s' (order a)"
    using u m x last_in_set [of "order a"] by (auto simp: unlinked_def rlist_ok_def flags_frame_def s'_def)
  moreover have "rl_abs s' (order a) = rl_abs s1 (order a)" by (simp add: rl_abs_def s'_def)
  moreover have "list_frame s s'"
    using u by (simp add: unlinked_def s'_def list_frame_upd)
  ultimately show "rl_post s a s'" using u by (simp add: rl_post_def unlinked_def)
  show "flags_set s x False False False s'"
    using u by (simp add: unlinked_def flags_frame_def flags_set_def s'_def)
qed

lemma upd_reader_triv:
  assumes "rd_next s x = None" and "rd_prev s x = None"
  shows "set_prev x None (set_next x None s) = s"
proof -
  have "(readers s x)\<lparr>ri_next := None, ri_previous := None\<rparr> = readers s x"
    using assms by (cases "readers s x") simp
  then show ?thesis by (simp add: upd_reader_def)
qed

lemma removeDone_refines:
  assumes ok: "rlist_ok s (as @ x # bs)" and bs: "bs \<noteq> []"
  shows "\<exists>s'. removeDone x s = Inr s' \<and> unlinked x s \<lparr>order = as @ bs, slot = rd_index s, rindex = readIndex s\<rparr> s'"
proof (cases "as = []")
  case True
  note d = rlist_ok_back [OF ok [unfolded True append_Nil] bs]
  have ne: "hd bs \<noteq> x" "last bs \<noteq> x" using d(2,10,11) by auto
  define s' where "s' = set_prev (hd bs) (rd_prev s x) (s\<lparr>rl_back := Some (hd bs)\<rparr>)"
  have "removeDone x s = Inr s'" using d by (simp add: removeDone_def s'_def)
  moreover have "chain (readers s') bs = chain (readers s) bs"
    by (rule chain_frame) (use d in \<open>auto simp: s'_def\<close>)
  then have "unlinked x s \<lparr>order = bs, slot = rd_index s, rindex = readIndex s\<rparr> s'"
    using d bs by (simp add: unlinked_def s'_def rl_abs_def flags_frame_def list_frame_def) (simp add: upd_reader_def)
  ultimately show ?thesis using True by auto
next
  case False
  note d = rlist_ok_middle [OF ok False bs]
  have ne: "hd bs \<noteq> x" "last bs \<noteq> x" "last as \<noteq> x" "last as \<noteq> last bs" "hd as \<noteq> x"
    using d(3,4,5,16-19) by auto
  define s' where "s' = set_prev (hd bs) (Some (last as)) (set_next (last as) (Some (hd bs)) s)"
  have "removeDone x s = Inr s'" using d ne by (simp add: removeDone_def s'_def)
  moreover have "chain (readers s') as = chain (readers s) as" "chain (readers s') bs = chain (readers s) bs"
    by (rule chain_frame; use d ne in \<open>auto simp: s'_def\<close>)+
  then have "chain (readers s') (as @ bs)"
    using d False bs by (simp add: chain_append s'_def)
  then have "unlinked x s \<lparr>order = as @ bs, slot = rd_index s, rindex = readIndex s\<rparr> s'"
    using d bs ne False
    by (simp add: unlinked_def s'_def rl_abs_def flags_frame_def list_frame_def) (simp add: upd_reader_def)
  ultimately show ?thesis by auto
qed

lemma removeWaitingNextToFront_refines:
  assumes ok: "rlist_ok s (as @ [x, f])"
  shows "\<exists>s'. removeWaitingNextToFront x s = Inr s' \<and>
    unlinked x s \<lparr>order = as @ [f], slot = (rd_index s)(f := rd_index s x), rindex = readIndex s\<rparr> s'"
proof (cases "as = []")
  case True
  then have p: "rl_back s = Some x" "rl_front s = Some f" "rd_next s f = None" "x \<noteq> f"
    using ok by (auto simp: rlist_ok_def)
  define s' where "s' = set_index f (rd_index s x) ((set_prev f (rd_prev s x) s)\<lparr>rl_back := Some f\<rparr>)"
  have "removeWaitingNextToFront x s = Inr s'"
    using p by (simp add: removeWaitingNextToFront_def unlinkBack_def s'_def)
  moreover have "unlinked x s \<lparr>order = [f], slot = (rd_index s)(f := rd_index s x), rindex = readIndex s\<rparr> s'"
    using p by (simp add: unlinked_def s'_def rl_abs_def flags_frame_def list_frame_def fun_eq_iff)
      (simp add: upd_reader_def)
  ultimately show ?thesis using True by auto
next
  case False
  note d = rlist_ok_middle [OF ok False, simplified]
  have ne: "x \<noteq> f" "last as \<noteq> x" "last as \<noteq> f" "hd as \<noteq> x" "hd as \<noteq> f" "f \<notin> set as"
    using d(3,4,5) last_in_set [OF False] hd_in_set [OF False] by auto
  define s' where
    "s' = set_index f (rd_index s x) (set_next (last as) (Some f) (set_prev f (Some (last as)) s))"
  have "removeWaitingNextToFront x s = Inr s'"
    using d ne by (simp add: removeWaitingNextToFront_def unlinkBack_def s'_def)
  moreover have "chain (readers s') as = chain (readers s) as"
    by (rule chain_frame) (use d ne in \<open>auto simp: s'_def\<close>)
  then have "chain (readers s') (as @ [f])" using d False by (simp add: chain_append s'_def)
  then have "unlinked x s \<lparr>order = as @ [f], slot = (rd_index s)(f := rd_index s x), rindex = readIndex s\<rparr> s'"
    using d ne False
    by (simp add: unlinked_def s'_def rl_abs_def flags_frame_def list_frame_def fun_eq_iff)
      (simp add: upd_reader_def)
  ultimately show ?thesis by auto
qed

text \<open>A waiting reader further back: the front takes its place, its predecessor becomes the front.\<close>

lemma removeWaiting_refines:
  assumes ok: "rlist_ok s (as @ x # bs @ [f])" and bs: "bs \<noteq> []"
  shows "\<exists>s'. removeWaiting x s = Inr s' \<and>
    unlinked x s \<lparr>order = as @ f # bs, slot = (rd_index s)(f := rd_index s x), rindex = readIndex s\<rparr> s'"
proof -
  let ?g = "last bs" let ?h = "hd bs"
  have d: "distinct as" "distinct bs" "x \<notin> set as" "x \<notin> set bs" "f \<notin> set as" "f \<notin> set bs" "set as \<inter> set bs = {}" "x \<noteq> f"
    and c: "chain (readers s) as" "chain (readers s) bs" "rd_next s x = Some ?h" "rd_prev s f = Some ?g"
    and p: "rl_back s = Some (hd (as @ [x]))" "rl_front s = Some f"
    and l: "as \<noteq> [] \<Longrightarrow> rd_prev s x = Some (last as)"
    using ok bs by (auto simp: rlist_ok_def chain_append chain_Cons hd_append split: if_splits)
  have b: "?g \<in> set bs" "?h \<in> set bs" "as \<noteq> [] \<Longrightarrow> last as \<in> set as" "as \<noteq> [] \<Longrightarrow> hd as \<in> set as"
    using bs by auto
  have dj: "u \<noteq> v" if "u \<in> set as" "v \<in> set bs" for u v using that d(7) by auto
  have ne: "?g \<noteq> x" "?g \<noteq> f" "?h \<noteq> x" "?h \<noteq> f"
    "as \<noteq> [] \<Longrightarrow> last as \<noteq> x \<and> last as \<noteq> f \<and> last as \<noteq> ?g \<and> last as \<noteq> ?h \<and> hd as \<noteq> x \<and> hd as \<noteq> f"
    using d b dj [OF b(3) b(1)] dj [OF b(3) b(2)] by auto
  define s2 where "s2 = set_prev f (rd_prev s x) (set_next ?g None s)"
  define s3 where "s3 = (if as = [] then s2\<lparr>rl_back := Some f\<rparr> else set_next (last as) (Some f) s2)"
  define s' where "s' = (set_index f (rd_index s x) (set_prev ?h (Some f) (set_next f (Some ?h) s3)))\<lparr>rl_front := Some ?g\<rparr>"
  have s3: "unlinkBack x f s2 = Inr s3"
    using p l ne by (cases "as = []") (auto simp: unlinkBack_def s2_def s3_def hd_append)
  have n3: "rd_next s3 x = Some ?h" "rd_index s3 x = rd_index s x" "rl_front s3 = Some f" "rl_back s3 = Some (hd (as @ [f]))"
    using c ne d p by (cases "as = []"; auto simp: s3_def s2_def hd_append)+
  have eq: "removeWaiting x s = Inr s'"
    using p c d(8) ne s3 n3 by (simp add: removeWaiting_def Let_def s2_def [symmetric] s'_def)
  have f': "rd_next s' y = (if y = f then Some ?h else if y = ?g then None else if as \<noteq> [] \<and> y = last as then Some f else rd_next s y)"
    "rd_prev s' y = (if y = ?h then Some f else if y = f then rd_prev s x else rd_prev s y)" for y
    using ne by (auto simp: s'_def s3_def s2_def)
  have "chain (readers s') as = chain (readers s) as" "chain (readers s') bs = chain (readers s) bs"
    by (rule chain_frame; use d b dj [OF b(3)] in \<open>auto simp: f'\<close>)+
  then have "chain (readers s') (as @ f # bs)"
    using c bs ne l by (cases "as = []") (auto simp: chain_append chain_Cons f')
  moreover have "rl_back s' = Some (hd (as @ f # bs))" "rl_front s' = Some ?g" "flags_frame s s'" "readIndex s' = readIndex s"
    "rd_index s' y = (if y = f then rd_index s x else rd_index s y)" for y
    using p by (auto simp: s'_def s3_def s2_def hd_append flags_frame_def)
  moreover have "list_frame s s'" by (simp add: list_frame_def s'_def s3_def s2_def) (simp add: upd_reader_def)
  ultimately have "unlinked x s \<lparr>order = as @ f # bs, slot = (rd_index s)(f := rd_index s x), rindex = readIndex s\<rparr> s'"
    using d bs by (simp add: unlinked_def rl_abs_def fun_eq_iff f' ne)
  then show ?thesis using eq by blast
qed

lemma removeFront_refines:
  assumes ok: "rlist_ok s (ys @ [x])" and ys: "ys \<noteq> []"
  shows "\<exists>s'. removeFront x s = Inr s' \<and> rd_next s' x = None \<and> rd_prev s' x = None \<and>
    unlinked x s \<lparr>order = ys, slot = rd_index s, rindex = readIndex s\<rparr> s'"
proof -
  let ?f = "last ys"
  have p: "rl_back s = Some (hd ys)" "distinct ys" "x \<notin> set ys" "chain (readers s) ys" "rd_prev s x = Some ?f"
    using ok ys by (auto simp: rlist_ok_def chain_append)
  have ne: "hd ys \<noteq> x" "?f \<noteq> x" using p(3) last_in_set [OF ys] hd_in_set [OF ys] by auto
  define s' where "s' = set_next ?f None (set_prev x None (set_next x None (s\<lparr>rl_front := Some ?f\<rparr>)))"
  have "removeFront x s = Inr s'" using p ne by (simp add: removeFront_def Let_def s'_def)
  moreover have "chain (readers s') ys = chain (readers s) ys"
    by (rule chain_frame) (use p in \<open>auto simp: s'_def\<close>)
  then have "unlinked x s \<lparr>order = ys, slot = rd_index s, rindex = readIndex s\<rparr> s'"
    using p ys ne by (simp add: unlinked_def s'_def rl_abs_def flags_frame_def list_frame_def)
      (simp add: upd_reader_def)
  ultimately show ?thesis using ne by (auto simp: s'_def)
qed

text \<open>The last reader leaves: an entry it was done with is passed, so that the next reader does not see it again.\<close>

lemma remove_last_refines:
  assumes ok: "rlist_ok s [x]" and sl: "slots_ok s [x]"
    and w: "ri_isDone (readers s x) \<Longrightarrow> \<not> fst (SyncQueue_isEmpty x s)"
  shows "\<exists>s'. readerList_remove x s = Inr s' \<and> flags_set s x False False False s' \<and>
    rl_post s \<lparr>order = [], slot = rd_index s,
      rindex = (if ri_isDone (readers s x) then (rd_index s x + 1) mod ring_size s else readIndex s)\<rparr> s'"
proof -
  have ni: "nextIndex (rd_index s x) (currentSize s) = Inr ((rd_index s x + 1) mod ring_size s)"
    by (rule nextIndex_front [OF sl]) simp
  define s1 where "s1 = (if ri_isDone (readers s x)
    then (set_isEmpty x False s)\<lparr>readIndex := (rd_index s x + 1) mod ring_size s\<rparr> else s)"
  define s' where "s' = set_isDone x False (set_inQueue x False (set_isEmpty x False
     ((set_prev x None (set_next x None s1))\<lparr>rl_back := None, rl_front := None\<rparr>)))"
  have p: "rl_front s = Some x" "rl_back s = Some x" "\<And>y. ri_inQueue (readers s y) \<longleftrightarrow> y = x"
    using ok by (auto simp: rlist_ok_def)
  have "readerList_remove x s = Inr s'"
    using p w ni by (cases "ri_isDone (readers s x)")
      (simp_all add: readerList_remove_def removeFront_def SyncQueue_isEmpty_def Let_def s'_def s1_def)
  moreover have "rlist_ok s' []" using p by (simp add: rlist_ok_def s'_def s1_def)
  moreover have "list_frame s s'" by (simp add: list_frame_def s'_def s1_def) (simp add: upd_reader_def)
  moreover have "flags_set s x False False False s'" by (simp add: flags_set_def s'_def s1_def)
  ultimately show ?thesis
    by (intro exI [of _ s']) (simp add: rl_post_def rl_abs_def s'_def s1_def fun_eq_iff)
qed

lemma remove_waiting_refines:
  assumes ok: "rlist_ok s (as @ x # cs)" and cs: "cs \<noteq> []"
  shows "\<exists>s'. (if rd_next s x = rl_front s then removeWaitingNextToFront x s else removeWaiting x s) = Inr s' \<and>
    unlinked x s \<lparr>order = as @ last cs # butlast cs, slot = (rd_index s)(last cs := rd_index s x), rindex = readIndex s\<rparr> s'"
proof -
  obtain bs f where f: "cs = bs @ [f]" using cs by (cases cs rule: rev_cases) auto
  have "rl_front s = Some f" "distinct cs" using ok f by (auto simp: rlist_ok_def)
  moreover have "rd_next s x = Some (hd cs)"
    using ok cs by (cases "as = []") (auto simp: rlist_ok_def chain_append chain_Cons)
  ultimately have "rd_next s x = rl_front s \<longleftrightarrow> bs = []" using f by (cases bs) auto
  then show ?thesis
    using removeWaitingNextToFront_refines [of s as x f] removeWaiting_refines [of s as x bs f] ok f by auto
qed

theorem readerList_remove_refines:
  assumes ok: "rlist_ok s xs" and sl: "slots_ok s xs" and x: "x \<in> set xs"
    and w: "xs = [x] \<Longrightarrow> ri_isDone (readers s x) \<Longrightarrow> \<not> fst (SyncQueue_isEmpty x s)"
  shows "\<exists>s'. readerList_remove x s = Inr s' \<and> flags_set s x False False False s' \<and>
    rl_post s (spec_remove (ring_size s) (ri_isDone (readers s x)) x (rl_abs s xs)) s'"
proof -
  from split_list [OF x] obtain as bs where xs: "xs = as @ x # bs" by blast
  have d: "x \<notin> set as" "x \<notin> set bs" "distinct as" "distinct bs" "rl_front s = Some (last xs)"
    and m: "\<And>y. ri_inQueue (readers s y) \<longleftrightarrow> y = x \<or> y \<in> set as \<or> y \<in> set bs"
    using ok xs by (auto simp: rlist_ok_def)
  have map_id: "map (\<lambda>y. if y = x then z else y) as = as" "map (\<lambda>y. if y = x then z else y) (butlast bs) = butlast bs" for z
    using d by (auto intro!: map_idI dest: in_set_butlastD)
  show ?thesis
  proof (cases "bs = []")
    case bs: True
    show ?thesis
    proof (cases "as = []")
      case True
      then show ?thesis
        using remove_last_refines [of s x] ok sl w xs bs
        by (cases "ri_isDone (readers s x)") (simp_all add: spec_remove_def rl_abs_def)
    next
      case False
      obtain s1 where s1: "removeFront x s = Inr s1" "rd_next s1 x = None" "rd_prev s1 x = None"
        and u: "unlinked x s \<lparr>order = as, slot = rd_index s, rindex = readIndex s\<rparr> s1"
        using removeFront_refines [of s as x] ok xs bs False by auto
      have e: "set_prev x None (set_next x None s1) = s1"
        by (rule upd_reader_triv) (use s1 in simp_all)
      have "readerList_remove x s = Inr (set_isDone x False (set_inQueue x False (set_isEmpty x False s1)))"
        using s1(1) d(5) m [of x] xs bs by (simp add: readerList_remove_def)
      moreover have "spec_remove (ring_size s) fin x (rl_abs s xs) = \<lparr>order = as, slot = rd_index s, rindex = readIndex s\<rparr>" for fin
        using False bs xs by (simp add: spec_remove_def rl_abs_def)
      ultimately show ?thesis
        using unlinked_post [OF u, unfolded e] d m bs by simp
    qed
  next
    case False
    then have lx: "last bs \<noteq> x" "last xs = last bs" using d xs by auto
    show ?thesis
    proof (cases "ri_isDone (readers s x)")
      case True
      then show ?thesis
        using removeDone_refines [of s as x bs] unlinked_post [of x s "\<lparr>order = as @ bs, slot = rd_index s, rindex = readIndex s\<rparr>"]
          ok False xs d lx m by (auto simp: readerList_remove_def spec_remove_def rl_abs_def remove1_append)
    next
      case nd: False
      let ?a = "\<lparr>order = as @ last bs # butlast bs, slot = (rd_index s)(last bs := rd_index s x), rindex = readIndex s\<rparr>"
      have "set bs = insert (last bs) (set (butlast bs))"
        using False by (metis append_butlast_last_id list.set(1,2) set_append Un_commute insert_is_Un)
      then have "x \<notin> set (order ?a)" "\<And>y. ri_inQueue (readers s y) \<longleftrightarrow> y = x \<or> y \<in> set (order ?a)"
        using d m by auto
      moreover have "butlast xs = as @ x # butlast bs" using xs False by (simp add: butlast_append)
      ultimately show ?thesis
        using remove_waiting_refines [of s as x bs] unlinked_post [of x s ?a] ok False xs d lx nd map_id
        by (auto simp: readerList_remove_def spec_remove_def rl_abs_def Let_def)
    qed
  qed
qed

lemma readerList_remove_absent: "\<not> ri_inQueue (readers s x) \<Longrightarrow> readerList_remove x s = Inr s"
  by (simp add: readerList_remove_def)

section \<open>Walks over the list\<close>

lemma distinct_hd_tl: "distinct xs \<Longrightarrow> xs \<noteq> [] \<Longrightarrow> hd xs \<notin> set (tl xs)"
  by (cases xs) auto

text \<open>The index \<^verbatim>\<open>adjust\<close> gives a reader at index \<open>i\<close>, after the ring has grown to its current size.\<close>

definition adjusted :: "('e, 'm, 'z) SyncQueue_scheme \<Rightarrow> int \<Rightarrow> int \<Rightarrow> int \<Rightarrow> int" where
  "adjusted s adjustment r i =
     (if (if adjustIndexForComparison (currentSize s) i r < adjustIndexForComparison (currentSize s) (writeIndex s) r
          then writeIndex s < i else i < writeIndex s)
      then i + adjustment else i)"

definition adjust_readers ::
  "int \<Rightarrow> int \<Rightarrow> rid list \<Rightarrow> ('e, 'm, 'z) SyncQueue_scheme \<Rightarrow> ('e, 'm, 'z) SyncQueue_scheme" where
  "adjust_readers adjustment r ys s = s\<lparr>readers := (\<lambda>y. if y \<in> set ys
     then (readers s y)\<lparr>ri_index := adjusted s adjustment r (rd_index s y)\<rparr> else readers s y)\<rparr>"

lemma adjusted_upd [simp]: "adjusted (upd_reader x g s) = adjusted s"
  by (simp add: adjusted_def fun_eq_iff)

lemma adjust_step:
  "x \<notin> set ys \<Longrightarrow> adjust_readers adjustment r ys (set_index x (adjusted s adjustment r (rd_index s x)) s) =
     adjust_readers adjustment r (x # ys) s"
  by (auto simp: adjust_readers_def fun_eq_iff upd_reader_def adjusted_def)

lemma set_index_same: "set_index x (rd_index s x) s = s"
  by (simp add: upd_reader_def)

lemma adjustLoop_ok:
  "chain (readers s) ys \<Longrightarrow> distinct ys \<Longrightarrow> ys \<noteq> [] \<Longrightarrow> rl_back s = Some b \<Longrightarrow> b \<notin> set (tl ys) \<Longrightarrow>
   rd_next s (last ys) = None \<or> rd_next s (last ys) = Some b \<Longrightarrow> length ys < fuel \<Longrightarrow>
   adjustLoop fuel adjustment r (Some (hd ys)) s = Inr (adjust_readers adjustment r ys s)"
proof (induction ys arbitrary: s fuel)
  case Nil
  then show ?case by simp
next
  case (Cons x ys)
  then obtain fuel' where fuel: "fuel = Suc fuel'" "length ys < fuel'" by (cases fuel) auto
  define s1 where "s1 = set_index x (adjusted s adjustment r (rd_index s x)) s"
  have step: "adjustLoop fuel adjustment r (Some x) s =
      (if rd_next s x = rl_back s then Inr s1 else adjustLoop fuel' adjustment r (rd_next s x) s1)"
    using set_index_same [of x s] by (simp add: fuel s1_def adjusted_def Let_def)
  have same: "adjust_readers adjustment r ys s1 = adjust_readers adjustment r (x # ys) s"
    unfolding s1_def using Cons.prems(2) by (intro adjust_step) simp
  show ?case
  proof (cases "ys = []")
    case True
    then have "rd_next s x = None \<or> rd_next s x = rl_back s" using Cons.prems(4,6) by auto
    moreover have "adjustLoop fuel' adjustment r None s1 = Inr s1" using fuel(2) by (cases fuel') auto
    moreover have "adjust_readers adjustment r [] s1 = s1" by (simp add: adjust_readers_def)
    ultimately show ?thesis using step same True Cons.prems(4) by auto
  next
    case False
    then have nx: "rd_next s x = Some (hd ys)" and ch: "chain (readers s) ys" and "hd ys \<noteq> b"
      using Cons.prems(1,5) hd_in_set [OF False] by (auto simp: chain_Cons)
    have "chain (readers s1) ys" using ch chain_cong_all [of ys "readers s1" "readers s"] by (simp add: s1_def)
    moreover have "b \<notin> set (tl ys)" using Cons.prems(5) by (auto dest: list.set_sel(2) [OF False])
    ultimately have "adjustLoop fuel' adjustment r (Some (hd ys)) s1 = Inr (adjust_readers adjustment r ys s1)"
      using Cons.prems False fuel(2) by (intro Cons.IH) (auto simp: s1_def)
    then show ?thesis using step same nx \<open>hd ys \<noteq> b\<close> Cons.prems(4) by simp
  qed
qed

theorem readerList_adjust_ok:
  assumes "rlist_ok s xs" and "length xs < fuel"
  shows "readerList_adjust fuel adjustment r s = Inr (adjust_readers adjustment r xs s)"
proof (cases "xs = []")
  case True
  then show ?thesis using assms by (cases fuel) (auto simp: readerList_adjust_def rlist_ok_def adjust_readers_def)
next
  case False
  then have "adjustLoop fuel adjustment r (Some (hd xs)) s = Inr (adjust_readers adjustment r xs s)"
    using assms by (intro adjustLoop_ok [where b = "hd xs"]) (auto simp: rlist_ok_def distinct_hd_tl length_Suc_conv)
  then show ?thesis using assms(1) False by (simp add: readerList_adjust_def rlist_ok_def)
qed

lemma dumpLoop_ok:
  "chain (readers s) ys \<Longrightarrow> ys \<noteq> [] \<Longrightarrow> rl_back s = Some b \<Longrightarrow> b \<notin> set (tl ys) \<Longrightarrow>
   rd_next s (last ys) = None \<or> rd_next s (last ys) = Some b \<Longrightarrow> length ys < fuel \<Longrightarrow>
   dumpLoop fuel (Some (hd ys)) s = Inr ys"
proof (induction ys arbitrary: fuel)
  case Nil
  then show ?case by simp
next
  case (Cons x ys)
  then obtain fuel' where fuel: "fuel = Suc fuel'" "length ys < fuel'" by (cases fuel) auto
  show ?case
  proof (cases "ys = []")
    case True
    moreover have "dumpLoop fuel' None s = Inr []" using fuel(2) by (cases fuel') auto
    ultimately show ?thesis using Cons.prems(3,5) fuel(1) by auto
  next
    case False
    then have "rd_next s x = Some (hd ys)" "chain (readers s) ys" "hd ys \<noteq> b" "b \<notin> set (tl ys)"
      using Cons.prems(1,4) hd_in_set [OF False] by (auto simp: chain_Cons dest: list.set_sel(2) [OF False])
    then show ?thesis using Cons.IH [of fuel'] Cons.prems False fuel by simp
  qed
qed

theorem readerList_dump_ok:
  assumes "rlist_ok s xs" and "length xs < fuel"
  shows "dumpLoop fuel (rl_back s) s = Inr xs"
proof (cases "xs = []")
  case True
  then show ?thesis using assms by (cases fuel) (auto simp: rlist_ok_def)
next
  case False
  then show ?thesis
    using assms dumpLoop_ok [of s xs "hd xs" fuel] by (auto simp: rlist_ok_def distinct_hd_tl length_Suc_conv)
qed

end
