(* ===== verification/Sync_Queue.thy ===== *)
theory Sync_Queue
  imports Reader_List_Removal
begin

text \<open>
  The multi-writer and multi-reader queues: \<^verbatim>\<open>queue/SyncWriterQueue.cpp\<close>, \<^verbatim>\<open>queue/SyncQueue.h\<close> and
  \<^verbatim>\<open>queue/SyncQueue.cpp\<close>, over the ring queue and the reader list. A call that has to wait for a mutex is
  \<open>None\<close>.
\<close>

section \<open>Operations\<close>

definition SyncWriterQueue_new ::
  "('e, 'm) entry_ops \<Rightarrow> c_uint \<Rightarrow> ('e, 'm) DataArray \<Rightarrow> bool \<Rightarrow> ('e, 'm) SyncWriterQueue" where
  "SyncWriterQueue_new ops queueSize d del =
     ReaderWriterQueue.extend (ReaderWriterQueue_new ops queueSize d del) \<lparr>addMutex = Mutex_init\<rparr>"

definition SyncWriterQueue_add ::
  "('e, 'm) entry_ops \<Rightarrow> tid \<Rightarrow> 'e \<Rightarrow> ('e, 'm, 'z) SyncWriterQueue_scheme \<Rightarrow>
   (int \<times> ('e, 'm, 'z) SyncWriterQueue_scheme) result option" where
  "SyncWriterQueue_add ops t entry q =
     (case Mutex_acquire t (addMutex q) of
        None \<Rightarrow> None
      | Some m \<Rightarrow> Some (
          bind_r (ReaderWriterQueue_add ops entry (q\<lparr>addMutex := m\<rparr>)) (\<lambda>(i, q1).
            Inr (i, q1\<lparr>addMutex := Mutex_release t (addMutex q1)\<rparr>))))"

definition SyncQueue_new ::
  "('e, 'm) entry_ops \<Rightarrow> c_uint \<Rightarrow> ('e, 'm) DataArray \<Rightarrow> bool \<Rightarrow> (rid \<Rightarrow> ReaderIndex) \<Rightarrow> ('e, 'm) SyncQueue" where
  "SyncQueue_new ops queueSize d sync h =
     SyncWriterQueue.extend (SyncWriterQueue_new ops queueSize d False)
       \<lparr>syncWriter = sync, readers = h, rl_front = None, rl_back = None, rlDebug = False\<rparr>"

definition SyncQueue_add ::
  "('e, 'm) entry_ops \<Rightarrow> tid \<Rightarrow> 'e \<Rightarrow> ('e, 'm, 'z) SyncQueue_scheme \<Rightarrow>
   (int \<times> ('e, 'm, 'z) SyncQueue_scheme) result option" where
  "SyncQueue_add ops t entry s =
     (if syncWriter s then SyncWriterQueue_add ops t entry s
      else Some (ReaderWriterQueue_add ops entry s))"

definition removeSlot ::
  "rid \<Rightarrow> ('e, 'm, 'z) SyncQueue_scheme \<Rightarrow> ('m entry_ref \<times> ('e, 'm, 'z) SyncQueue_scheme) result" where
  "removeSlot x s =
     (let (empty, s1) = SyncQueue_isEmpty x s;
          s2 = set_isDone x (\<not> empty) s1
      in if empty then Inr (NullEntry, s2)
         else bind_r (queueData_get (rd_index s2 x) (queueData s2)) (\<lambda>p. Inr (p, s2)))"

definition SyncQueue_remove ::
  "rid \<Rightarrow> ('e, 'm, 'z) SyncQueue_scheme \<Rightarrow> ('m entry_ref \<times> ('e, 'm, 'z) SyncQueue_scheme) result" where
  "SyncQueue_remove x s =
     (if \<not> ri_isDone (readers s x) then removeSlot x s
      else bind_r (moveToFront x s) (\<lambda>(moved, s1).
        if moved then removeSlot x s1 else Inr (NullEntry, s1)))"

text \<open>
  \<^verbatim>\<open>resize\<close> runs the ring's \<^verbatim>\<open>resize\<close>, then a loop over the waiting slots that computes an index it does not
  use, then the list's \<^verbatim>\<open>adjust\<close>. \<open>fuel\<close> bounds the readers \<^verbatim>\<open>adjust\<close> visits.
\<close>

fun scanLoop :: "nat \<Rightarrow> c_uint \<Rightarrow> c_uint \<Rightarrow> int \<Rightarrow> int \<Rightarrow> int \<Rightarrow> unit result" where
  "scanLoop 0 n oldSize oldReadIndex w i = Inl OutOfFuel"
| "scanLoop (Suc fuel) n oldSize oldReadIndex w i =
     (if adjustIndexForComparison n i oldReadIndex < adjustIndexForComparison n w oldReadIndex
      then bind_r (nextIndex i oldSize) (scanLoop fuel n oldSize oldReadIndex w)
      else Inr ())"

definition SyncQueue_resize ::
  "nat \<Rightarrow> ('e, 'm) entry_ops \<Rightarrow> c_uint \<Rightarrow> ('e, 'm, 'z) SyncQueue_scheme \<Rightarrow> ('e, 'm, 'z) SyncQueue_scheme result" where
  "SyncQueue_resize fuel ops size' s =
     (let oldSize = currentSize s;
          oldReadIndex = readIndex s
      in bind_r (ReaderWriterQueue_resize ops size' s) (\<lambda>s1.
         bind_r (scanLoop (Suc (unat oldSize)) (currentSize s1) oldSize oldReadIndex (writeIndex s1) oldReadIndex) (\<lambda>_.
           readerList_adjust fuel (sint (size' - oldSize)) oldReadIndex s1)))"

definition startAccess ::
  "rid \<Rightarrow> ('e, 'm, 'z) SyncQueue_scheme \<Rightarrow> ('e, 'm, 'z) SyncQueue_scheme result" where
  "startAccess x s = readerList_add x s"

definition endAccess ::
  "rid \<Rightarrow> ('e, 'm, 'z) SyncQueue_scheme \<Rightarrow> ('e, 'm, 'z) SyncQueue_scheme result" where
  "endAccess x s = readerList_remove x s"

definition SyncQueue_setDebug ::
  "bool \<Rightarrow> ('e, 'm, 'z) SyncQueue_scheme \<Rightarrow> ('e, 'm, 'z) SyncQueue_scheme" where
  "SyncQueue_setDebug b s = s\<lparr>rwDebug := b, rlDebug := b\<rparr>"

section \<open>The ring part of the queue\<close>

text \<open>Equal ring fields: what the ring invariant and the contents depend on.\<close>

definition same_ring :: "('e, 'm, 'y) ReaderWriterQueue_scheme \<Rightarrow> ('e, 'm, 'z) ReaderWriterQueue_scheme \<Rightarrow> bool" where
  "same_ring q q' \<longleftrightarrow> queueData q' = queueData q \<and> dataEntries q' = dataEntries q \<and>
     currentSize q' = currentSize q \<and> readIndex q' = readIndex q \<and> writeIndex q' = writeIndex q"

lemma same_ringD:
  assumes "same_ring q q'"
  shows "queueData q' = queueData q" "dataEntries q' = dataEntries q" "currentSize q' = currentSize q"
    "readIndex q' = readIndex q" "writeIndex q' = writeIndex q"
    "liveCount q' = liveCount q" "slotAt q' k = slotAt q k" "slotValue ops q' i = slotValue ops q i"
    "ring_ok q' = ring_ok q" "slot_ok a q' i = slot_ok a q i" "contents ops q' = contents ops q"
    "rwq_inv ops q' = rwq_inv ops q"
proof -
  show f: "queueData q' = queueData q" "dataEntries q' = dataEntries q" "currentSize q' = currentSize q"
    "readIndex q' = readIndex q" "writeIndex q' = writeIndex q"
    using assms by (auto simp: same_ring_def)
  show lc: "liveCount q' = liveCount q" and sa: "slotAt q' k = slotAt q k" for k
    using f by (auto simp: liveCount_def slotAt_def)
  show sv: "slotValue ops q' i = slotValue ops q i" and so: "slot_ok a q' i = slot_ok a q i"
    and ro: "ring_ok q' = ring_ok q" for i a
    using f by (auto simp: slotValue_def slot_ok_def ring_ok_def split: option.split)
  show "contents ops q' = contents ops q" by (simp add: contents_def lc sa sv)
  show "rwq_inv ops q' = rwq_inv ops q" by (simp add: rwq_inv_def lc sa so ro f)
qed

lemma same_ring_upd [simp]: "same_ring s (upd_reader x g s)"
  by (simp add: same_ring_def)

lemma list_frame_ring: "list_frame s s' \<Longrightarrow> readIndex s' = readIndex s \<Longrightarrow> same_ring s s'"
  using list_frameD [of s s'] by (simp add: same_ring_def)

text \<open>Advancing the read index over \<open>k\<close> waiting entries drops them.\<close>

lemma advance_ring:
  fixes q :: "('e, 'm, 'z) ReaderWriterQueue_scheme"
  assumes inv: "rwq_inv ops q" and k: "k \<le> liveCount q"
  defines "q' \<equiv> q\<lparr>readIndex := slotAt q k\<rparr>"
  shows "rwq_inv ops q'" "contents ops q' = drop k (contents ops q)" "slotAt q' j = slotAt q (k + j)"
    "liveCount q' = liveCount q - k"
proof -
  from inv obtain a where ring: "ring_ok q" and d: "data_ok ops (currentSize q) a (dataEntries q)"
    and live: "\<And>k. k < liveCount q \<Longrightarrow> slot_ok a q (slotAt q k)"
    by (auto simp: rwq_inv_def)
  note r = ring_okD [OF ring]
  show sa: "slotAt q' j = slotAt q (k + j)" for j
    by (simp add: q'_def slotAt_def mod_simps algebra_simps)
  have "int (liveCount q') = (writeIndex q - slotAt q k) mod ring_size q"
    using r(2) by (simp add: q'_def liveCount_def cdist_def)
  also have "\<dots> = (writeIndex q - readIndex q - int k) mod ring_size q"
    by (simp add: slotAt_def mod_simps algebra_simps)
  also have "\<dots> = (int (liveCount q) - int k) mod ring_size q"
    using int_liveCount [OF ring] by (simp add: cdist_def mod_simps)
  also have "\<dots> = int (liveCount q) - int k"
    using k liveCount_less [OF ring] by simp
  finally show lc: "liveCount q' = liveCount q - k" using k by simp
  have sv: "slotValue ops q' i = slotValue ops q i" "slot_ok a q' i = slot_ok a q i" for i
    by (simp_all add: slotValue_def slot_ok_def q'_def split: option.split)
  have "ring_ok q'" using ring slotAt_range [OF ring, of k] by (simp add: ring_ok_def q'_def)
  moreover have "data_ok ops (currentSize q') a (dataEntries q')" using d by (simp add: q'_def)
  ultimately show "rwq_inv ops q'"
    using live k by (auto simp: rwq_inv_def sa sv lc)
  show "contents ops q' = drop k (contents ops q)"
    by (rule nth_equalityI) (simp_all add: lc contents_nth sa sv)
qed

section \<open>Slots and positions\<close>

text \<open>A reader \<open>k\<close> slots above the read index sees an empty slot iff \<open>k\<close> entries or fewer wait.\<close>

lemma SyncQueue_isEmpty_iff:
  assumes ring: "ring_ok s" and i: "rd_index s x = slotAt s k" and k: "int k < ring_size s"
  shows "SyncQueue_isEmpty x s = (liveCount s \<le> k, set_isEmpty x (liveCount s \<le> k) s)"
proof -
  note r = ring_okD [OF ring]
  have "(adjustIndexForComparison (currentSize s) (writeIndex s) (readIndex s)
      \<le> adjustIndexForComparison (currentSize s) (rd_index s x) (readIndex s)) \<longleftrightarrow> liveCount s \<le> k"
    unfolding i not_less [symmetric]
    using adjust_less_iff [OF slotAt_range [OF ring, of k] r(7,8,5,6,3)] cdist_slotAt [OF ring k]
      int_liveCount [OF ring] by linarith
  then show ?thesis by (simp add: SyncQueue_isEmpty_def Let_def)
qed

context entry_class
begin

lemma removeSlot_ok:
  fixes s :: "('e, 'm, 'z) SyncQueue_scheme"
  assumes inv: "rwq_inv ops s" and i: "rd_index s x = slotAt s k" and k: "int k < ring_size s"
  shows "liveCount s \<le> k \<Longrightarrow> removeSlot x s = Inr (NullEntry, set_isDone x False (set_isEmpty x True s))"
    and "k < liveCount s \<Longrightarrow> \<exists>p. removeSlot x s = Inr (p, set_isDone x True (set_isEmpty x False s)) \<and>
      queueData s ! nat (slotAt s k) = Some p \<and> deref ops p (dataEntries s) = Inr (contents ops s ! k) \<and>
      p \<noteq> NullEntry"
proof -
  from inv obtain a where ring: "ring_ok s" and d: "data_ok ops (currentSize s) a (dataEntries s)"
    and live: "\<And>k. k < liveCount s \<Longrightarrow> slot_ok a s (slotAt s k)"
    by (auto simp: rwq_inv_def)
  note e = SyncQueue_isEmpty_iff [OF ring i k] and sl = slotAt_range [OF ring, of k]
  show "removeSlot x s = Inr (NullEntry, set_isDone x False (set_isEmpty x True s))" if "liveCount s \<le> k"
    using that e by (simp add: removeSlot_def Let_def)
  assume kl: "k < liveCount s"
  obtain m where m: "queueData s ! nat (slotAt s k) = Some (Cell a (nat (slotAt s k)) m)"
    "deref ops (Cell a (nat (slotAt s k)) m) (dataEntries s) = Inr (slotValue ops s (slotAt s k))"
    by (rule slot_ok_value [OF live [OF kl] d sl])
  have "nat (slotAt s k) < length (queueData s)"
    using ring_okD(4) [OF ring] nat_less_unat [OF sl] by simp
  then show "\<exists>p. removeSlot x s = Inr (p, set_isDone x True (set_isEmpty x False s)) \<and>
      queueData s ! nat (slotAt s k) = Some p \<and> deref ops p (dataEntries s) = Inr (contents ops s ! k) \<and>
      p \<noteq> NullEntry"
    using kl e i m sl by (simp add: removeSlot_def Let_def queueData_get_def contents_nth)
qed

end

section \<open>A change of an entry in place\<close>

text \<open>The entry a reader was given a reference to may change in its slot: the ring and all other slots stay as they are.\<close>

lemma write_fields:
  fixes q :: "('e, 'm, 'z) ReaderWriterQueue_scheme"
  shows "liveCount (q\<lparr>dataEntries := d\<rparr>) = liveCount q" "slotAt (q\<lparr>dataEntries := d\<rparr>) k = slotAt q k"
    "slot_ok a (q\<lparr>dataEntries := d\<rparr>) i = slot_ok a q i" "ring_ok (q\<lparr>dataEntries := d\<rparr>) = ring_ok q"
  by (simp_all add: liveCount_def slotAt_def slot_ok_def ring_ok_def)

lemma write_ring:
  fixes q :: "('e, 'm, 'z) ReaderWriterQueue_scheme"
  assumes inv: "rwq_inv ops q" and r: "deref ops p (dataEntries q) = Inr e" and t: "same_type ops e e'"
  obtains d where "writeRef p e' (dataEntries q) = Inr d" and "rwq_inv ops (q\<lparr>dataEntries := d\<rparr>)"
    and "p \<noteq> NullEntry \<longrightarrow> deref ops p d = Inr e'"
    and "\<forall>p'. p' \<noteq> p \<longrightarrow> deref ops p' d = deref ops p' (dataEntries q)"
    and "\<forall>i. queueData q ! nat i \<noteq> Some p \<longrightarrow> slotValue ops (q\<lparr>dataEntries := d\<rparr>) i = slotValue ops q i"
    and "\<forall>v. stored ops q v \<and> queueData q ! nat (writeIndex q) \<noteq> Some p \<longrightarrow> stored ops (q\<lparr>dataEntries := d\<rparr>) v"
proof -
  from inv obtain a where ring: "ring_ok q" and d: "data_ok ops (currentSize q) a (dataEntries q)"
    and live: "\<And>k. k < liveCount q \<Longrightarrow> slot_ok a q (slotAt q k)" by (auto simp: rwq_inv_def)
  obtain d' where d': "writeRef p e' (dataEntries q) = Inr d'" "data_ok ops (currentSize q) a d'"
    "p \<noteq> NullEntry \<longrightarrow> deref ops p d' = Inr e'"
    "\<forall>p'. p' \<noteq> p \<longrightarrow> deref ops p' d' = deref ops p' (dataEntries q)"
    by (rule writeRef_ok [OF d r t])
  let ?q = "q\<lparr>dataEntries := d'\<rparr>"
  have sv: "slotValue ops ?q i = slotValue ops q i" if "queueData q ! nat i \<noteq> Some p" for i
    using that d'(4) by (auto simp: slotValue_def split: option.split)
  have "stored ops ?q v" if st: "stored ops q v" and w: "queueData q ! nat (writeIndex q) \<noteq> Some p" for v
  proof -
    from st obtain b where b: "data_ok ops (currentSize q) b (dataEntries q)" "slot_ok b q (writeIndex q)"
      by (auto simp: stored_def)
    then have "b = a" using d by (simp add: data_ok_def)
    then show ?thesis using b(2) d'(2) sv [OF w] st by (auto simp: stored_def write_fields)
  qed
  moreover have "rwq_inv ops ?q" using ring d'(2) live by (auto simp: rwq_inv_def write_fields)
  ultimately show thesis using that [of d'] d' sv by blast
qed

section \<open>Growth\<close>

lemma populated_iff:
  assumes ring: "ring_ok q" and le: "ring_size q \<le> uint size'" "uint size' \<le> 1073741824" and k: "int k < ring_size q"
  shows "adjustIndexForComparison size' (slotAt q k) (readIndex q)
      < adjustIndexForComparison size' (writeIndex q) (readIndex q) \<longleftrightarrow> k < liveCount q"
  unfolding resize_test_iff [OF ring slotAt_range [OF ring, of k] le] cdist_slotAt [OF ring k]
    int_liveCount [OF ring, symmetric] by simp

lemma scanLoop_ok:
  assumes ring: "ring_ok q" and le: "ring_size q \<le> uint size'" "uint size' \<le> 1073741824"
  shows "k \<le> liveCount q \<Longrightarrow> liveCount q - k < fuel \<Longrightarrow>
    scanLoop fuel size' (currentSize q) (readIndex q) (writeIndex q) (slotAt q k) = Inr ()"
proof (induction fuel arbitrary: k)
  case 0
  then show ?case by simp
next
  case (Suc fuel)
  have "int k < ring_size q" using Suc.prems(1) liveCount_less [OF ring] by linarith
  note pop = populated_iff [OF ring le this]
  show ?case using Suc pop nextIndex_slotAt [OF ring, of k] by auto
qed

text \<open>
  When \<^verbatim>\<open>adjust\<close> is right: the ring doubles, or no reader waits in the part of the ring below the read index
  while the writer has not wrapped.
\<close>

definition growth_ok :: "('e, 'm, 'z) SyncQueue_scheme \<Rightarrow> c_uint \<Rightarrow> bool" where
  "growth_ok s size' \<longleftrightarrow> uint size' = 2 * ring_size s \<or> writeIndex s < readIndex s \<or>
     (\<forall>x. ri_inQueue (readers s x) \<longrightarrow> readIndex s \<le> rd_index s x)"

text \<open>Where slot \<open>k\<close> above the read index is after growing, for written and unwritten slots alike.\<close>

lemma grown_slot:
  assumes ring: "ring_ok s" and le: "ring_size s < uint size'" "uint size' \<le> 1073741824" and k: "int k < ring_size s"
    and ok: "uint size' = 2 * ring_size s \<or> writeIndex s < readIndex s \<or> readIndex s \<le> slotAt s k"
    and s1: "currentSize s1 = size'" "writeIndex s1 = writeIndex s"
  shows "adjusted s1 (uint size' - ring_size s) (readIndex s) (slotAt s k) =
    (grownReadIndex s size' + int k) mod uint size'"
proof -
  note r = ring_okD [OF ring]
  let ?n = "ring_size s" and ?n' = "uint size'" and ?w = "writeIndex s"
  note pop = populated_iff [OF ring less_imp_le [OF le(1)] le(2) k]
  show ?thesis
  proof (cases "k < liveCount s")
    case True
    then show ?thesis
      using grown_slots(4) [OF ring less_imp_le [OF le(1)] True] pop s1 by (simp add: adjusted_def newSlot_def)
  next
    case False
    have sl: "slotAt s k = (if readIndex s + int k < ?n then readIndex s + int k else readIndex s + int k - ?n)"
      using r k by (auto simp: slotAt_def mod_add_cases)
    have lc: "int (liveCount s) = (if readIndex s \<le> ?w then ?w - readIndex s else ?w - readIndex s + ?n)"
      using r int_liveCount [OF ring] by (simp add: cdist_cases)
    have g: "(grownReadIndex s size' + int k) mod ?n' =
        (if grownReadIndex s size' + int k < ?n' then grownReadIndex s size' + int k else grownReadIndex s size' + int k - ?n')"
      using r k le grown_slots(1,2) [OF ring less_imp_le [OF le(1)]] by (intro mod_add_cases) auto
    have "adjusted s1 (?n' - ?n) (readIndex s) (slotAt s k) =
        (if slotAt s k < ?w then slotAt s k + (?n' - ?n) else slotAt s k)"
      using False pop s1 by (simp add: adjusted_def)
    then show ?thesis
      using False sl lc g ok r k le by (auto simp: grownReadIndex_def split: if_splits)
  qed
qed

context entry_class
begin

lemma SyncQueue_resize_ok:
  fixes s :: "('e, 'm, 'z) SyncQueue_scheme"
  assumes inv: "rwq_inv ops s" and rl: "rlist_ok s xs" and fuel: "length xs < fuel"
    and gt: "currentSize s < size'" and le: "uint size' \<le> 1073741824" and gr: "growth_ok s size'"
    and sl: "\<And>x. x \<in> set xs \<Longrightarrow> int (k x) < ring_size s \<and> rd_index s x = slotAt s (k x)"
  shows "\<exists>s'. SyncQueue_resize fuel ops size' s = Inr s' \<and> rwq_inv ops s' \<and> contents ops s' = contents ops s \<and>
    rlist_ok s' xs \<and> currentSize s' = size' \<and> liveCount s' = liveCount s \<and> flags_frame s s' \<and>
    (\<forall>x \<in> set xs. rd_index s' x = slotAt s' (k x))"
proof -
  have ring: "ring_ok s" using inv by (simp add: rwq_inv_def)
  have lt: "ring_size s < uint size'" using gt by (simp add: word_less_def)
  obtain s1 where s1: "ReaderWriterQueue_resize ops size' s = Inr s1" "rwq_inv ops s1" "contents ops s1 = contents ops s"
    "currentSize s1 = size'" "readIndex s1 = grownReadIndex s size'" "writeIndex s1 = writeIndex s" "liveCount s1 = liveCount s"
    and upd: "s1 = s\<lparr>queueData := queueData s1, dataEntries := dataEntries s1, currentSize := size',
           readIndex := grownReadIndex s size', stats := stats_setSize size' (stats s)\<rparr>"
    using resize_ok [OF inv gt le] by metis
  have rd: "readers s1 = readers s" "rl_front s1 = rl_front s" "rl_back s1 = rl_back s"
    by (subst upd, simp)+
  have rl1: "rlist_ok s1 xs" using rl unfolding rlist_ok_def rd .
  define s' where "s' = adjust_readers (uint size' - ring_size s) (readIndex s) xs s1"
  have scan: "scanLoop (Suc (unat (currentSize s))) size' (currentSize s) (readIndex s) (writeIndex s) (readIndex s) = Inr ()"
    using scanLoop_ok [OF ring less_imp_le [OF lt] le, of 0 "Suc (unat (currentSize s))"] ring_okD [OF ring]
      nat_less_unat [OF _ liveCount_less [OF ring]] by (simp add: slotAt_def del: scanLoop.simps)
  have eq: "SyncQueue_resize fuel ops size' s = Inr s'"
    using s1 scan readerList_adjust_ok [OF rl1 fuel] sint_size_diff [OF gt le]
    by (simp add: SyncQueue_resize_def Let_def s'_def del: scanLoop.simps)
  have same: "same_ring s1 s'" by (simp add: same_ring_def s'_def adjust_readers_def)
  have idx: "rd_index s' x = slotAt s' (k x)" if x: "x \<in> set xs" for x
  proof -
    have iq: "ri_inQueue (readers s x)" using rl x by (simp add: rlist_ok_def)
    have "rd_index s' x = adjusted s1 (uint size' - ring_size s) (readIndex s) (slotAt s (k x))"
      using x sl [OF x] by (simp add: s'_def adjust_readers_def rd)
    also have "\<dots> = (grownReadIndex s size' + int (k x)) mod uint size'"
      using grown_slot [OF ring lt le _ _ s1(4,6), of "k x"] sl [OF x] gr iq by (auto simp: growth_ok_def)
    finally show ?thesis using same_ringD(3,4) [OF same] s1 by (simp add: slotAt_def)
  qed
  have "chain (readers s') xs = chain (readers s1) xs"
    by (rule chain_cong_all) (simp add: s'_def adjust_readers_def)
  then have "rlist_ok s' xs" using rl1 by (auto simp: rlist_ok_def s'_def adjust_readers_def)
  moreover have "flags_frame s s'" by (simp add: flags_frame_def s'_def adjust_readers_def rd)
  ultimately show ?thesis using eq same_ringD [OF same] s1 idx by auto
qed

end

end
