(* ===== verification/Sync_Protocol.thy ===== *)
theory Sync_Protocol
  imports Sync_Queue
begin

text \<open>
  The multi-reader queue as a state machine. One writer (the holder of \<^verbatim>\<open>addMutex\<close>, or the only writer)
  runs \<^verbatim>\<open>add\<close> in three steps: the fullness test, the copy into the slot, the publication of the write
  index. Any number of readers run \<^verbatim>\<open>remove\<close>, in two steps when they have to take a new slot: the move to
  the front under \<^verbatim>\<open>indexMutex\<close>, and the look into the slot; a reader may also only test whether its slot is empty. A reader that is using an entry may change it in
  its slot, any number of times. Readers come and go, and the queue grows while
  the writer and the readers are between calls. Steps interleave in every order, under sequentially
  consistent memory.

  The configuration records the entries published (\<open>accepted\<close>), the entries handed to readers
  (\<open>delivered\<close>), and the reference each reader is using, with the entry as the reader left it (\<open>held\<close>).
\<close>

section \<open>Configurations and steps\<close>

datatype 'e writer_pc = WIdle | WTested 'e int | WStored 'e int

record ('e, 'm) sqc =
  sq :: "('e, 'm) SyncQueue"
  accepted :: "'e list"
  delivered :: "(rid \<times> 'e) list"
  wpc :: "'e writer_pc"
  moved :: "rid set"
  held :: "rid \<rightharpoonup> 'm entry_ref \<times> 'e"

abbreviation listed :: "('e, 'm) sqc \<Rightarrow> rid \<Rightarrow> bool" where
  "listed c x \<equiv> ri_inQueue (readers (sq c) x)"

abbreviation finished :: "('e, 'm) sqc \<Rightarrow> rid \<Rightarrow> bool" where
  "finished c x \<equiv> ri_isDone (readers (sq c) x)"

definition sq_init :: "('e, 'm) entry_ops \<Rightarrow> c_uint \<Rightarrow> ('e, 'm) DataArray \<Rightarrow> bool \<Rightarrow> (rid \<Rightarrow> int) \<Rightarrow> ('e, 'm) sqc" where
  "sq_init ops n d sync ids =
     \<lparr>sq = SyncQueue_new ops n d sync (\<lambda>x. ReaderIndex_init (ids x)), accepted = [], delivered = [], wpc = WIdle,
      moved = {}, held = Map.empty\<rparr>"

text \<open>
  Readers leave (\<open>End\<close>) when the queue is drained: nobody is using an entry and the back of the list waits
  at an empty slot. \<^verbatim>\<open>QueueProcessor::stop\<close> arranges this before it stops the workers.
\<close>

inductive sq_step :: "('e, 'm) entry_ops \<Rightarrow> ('e, 'm) sqc \<Rightarrow> ('e, 'm) sqc \<Rightarrow> bool" for ops where
  Test: "wpc c = WIdle \<Longrightarrow> isFull (sq c) = Inr n \<Longrightarrow> n \<noteq> IS_FULL \<Longrightarrow>
    sq_step ops c (c\<lparr>wpc := WTested e n\<rparr>)"
| Store: "wpc c = WTested e n \<Longrightarrow> insertEntry ops e (sq c) = Inr (True, s) \<Longrightarrow>
    sq_step ops c (c\<lparr>sq := s, wpc := WStored e n\<rparr>)"
| Reject: "wpc c = WTested e n \<Longrightarrow> insertEntry ops e (sq c) = Inr (False, s) \<Longrightarrow>
    sq_step ops c (c\<lparr>sq := s, wpc := WIdle\<rparr>)"
| Publish: "wpc c = WStored e n \<Longrightarrow>
    sq_step ops c (c\<lparr>sq := (sq c)\<lparr>writeIndex := n, stats := incrementAddedCount (stats (sq c))\<rparr>,
      accepted := accepted c @ [e], wpc := WIdle\<rparr>)"
| Start: "\<not> listed c x \<Longrightarrow> startAccess x (sq c) = Inr s \<Longrightarrow> sq_step ops c (c\<lparr>sq := s\<rparr>)"
| Move: "listed c x \<Longrightarrow> finished c x \<Longrightarrow> x \<notin> moved c \<Longrightarrow> held c x = None \<Longrightarrow>
    moveToFront x (sq c) = Inr (b, s) \<Longrightarrow>
    sq_step ops c (c\<lparr>sq := s, moved := (if b then insert x (moved c) else moved c)\<rparr>)"
| Look: "listed c x \<Longrightarrow> \<not> finished c x \<or> x \<in> moved c \<Longrightarrow> removeSlot x (sq c) = Inr (NullEntry, s) \<Longrightarrow>
    sq_step ops c (c\<lparr>sq := s, moved := moved c - {x}\<rparr>)"
| Take: "listed c x \<Longrightarrow> \<not> finished c x \<or> x \<in> moved c \<Longrightarrow> removeSlot x (sq c) = Inr (p, s) \<Longrightarrow> p \<noteq> NullEntry \<Longrightarrow>
    deref ops p (dataEntries s) = Inr e \<Longrightarrow>
    sq_step ops c (c\<lparr>sq := s, moved := moved c - {x}, delivered := delivered c @ [(x, e)],
      held := (held c)(x \<mapsto> (p, e))\<rparr>)"
| Peek: "listed c x \<Longrightarrow> sq_step ops c (c\<lparr>sq := snd (SyncQueue_isEmpty x (sq c))\<rparr>)"
| Change: "held c x = Some (p, e) \<Longrightarrow> same_type ops e e' \<Longrightarrow> writeRef p e' (dataEntries (sq c)) = Inr d \<Longrightarrow>
    sq_step ops c (c\<lparr>sq := (sq c)\<lparr>dataEntries := d\<rparr>, held := (held c)(x \<mapsto> (p, e'))\<rparr>)"
| Handled: "sq_step ops c (c\<lparr>held := (held c)(x := None)\<rparr>)"
| Grow: "wpc c = WIdle \<Longrightarrow> moved c = {} \<Longrightarrow> held c = Map.empty \<Longrightarrow> currentSize (sq c) < size' \<Longrightarrow>
    uint size' \<le> 1073741824 \<Longrightarrow> growth_ok (sq c) size' \<Longrightarrow> card {x. listed c x} < fuel \<Longrightarrow>
    SyncQueue_resize fuel ops size' (sq c) = Inr s \<Longrightarrow> sq_step ops c (c\<lparr>sq := s\<rparr>)"
| End: "listed c x \<Longrightarrow> moved c = {} \<Longrightarrow> (\<And>y. listed c y \<Longrightarrow> \<not> finished c y) \<Longrightarrow>
    rl_back (sq c) = Some b \<Longrightarrow> fst (SyncQueue_isEmpty b (sq c)) \<Longrightarrow> endAccess x (sq c) = Inr s \<Longrightarrow>
    sq_step ops c (c\<lparr>sq := s\<rparr>)"

inductive sq_reach :: "('e, 'm) entry_ops \<Rightarrow> ('e, 'm) sqc \<Rightarrow> ('e, 'm) sqc \<Rightarrow> bool" for ops where
  Refl: "sq_reach ops c c"
| Step: "sq_reach ops c c' \<Longrightarrow> sq_step ops c' c'' \<Longrightarrow> sq_reach ops c c''"

section \<open>Invariant\<close>

text \<open>
  Every published entry has a position, its index in \<open>accepted\<close>. \<open>R\<close> is the position of the read index and
  \<open>pos x\<close> the position of reader \<open>x\<close>; \<open>xs\<close> lists the readers from back to front, and \<open>D\<close> the positions
  delivered so far. The slot of a position that is not delivered holds the entry published there; a delivered one
  holds what its reader made of it. A reader is \<open>pending\<close> while the entry of its position is still to be handed to it.
\<close>

definition pending :: "('e, 'm) sqc \<Rightarrow> rid \<Rightarrow> bool" where
  "pending c x \<longleftrightarrow> listed c x \<and> (\<not> finished c x \<or> x \<in> moved c)"

definition ring_part :: "('e, 'm) entry_ops \<Rightarrow> ('e, 'm) sqc \<Rightarrow> nat \<Rightarrow> nat list \<Rightarrow> bool" where
  "ring_part ops c R D \<longleftrightarrow> rwq_inv ops (sq c) \<and> 2 \<le> ring_size (sq c) \<and> R \<le> length (accepted c) \<and>
     liveCount (sq c) = length (accepted c) - R \<and>
     (\<forall>k < liveCount (sq c). R + k \<notin> set D \<longrightarrow> contents ops (sq c) ! k = accepted c ! (R + k))"

definition list_part :: "('e, 'm) sqc \<Rightarrow> rid list \<Rightarrow> nat \<Rightarrow> (rid \<Rightarrow> nat) \<Rightarrow> bool" where
  "list_part c xs R pos \<longleftrightarrow> rlist_ok (sq c) xs \<and> moved c \<subseteq> set xs \<and> sorted (map pos xs) \<and>
     (xs \<noteq> [] \<longrightarrow> pos (hd xs) = R) \<and>
     (\<forall>x \<in> set xs. R \<le> pos x \<and> int (pos x) < int R + ring_size (sq c) \<and>
        rd_index (sq c) x = slotAt (sq c) (pos x - R))"

definition claimed :: "rid list \<Rightarrow> nat \<Rightarrow> (rid \<Rightarrow> nat) \<Rightarrow> nat \<Rightarrow> bool" where
  "claimed xs R pos p \<longleftrightarrow> (if xs = [] then p < R else p \<le> pos (last xs))"

definition deliv_part :: "('e, 'm) sqc \<Rightarrow> rid list \<Rightarrow> nat \<Rightarrow> (rid \<Rightarrow> nat) \<Rightarrow> nat list \<Rightarrow> bool" where
  "deliv_part c xs R pos D \<longleftrightarrow> distinct D \<and> (\<forall>p \<in> set D. p < length (accepted c)) \<and>
     map snd (delivered c) = map (\<lambda>p. accepted c ! p) D \<and> inj_on pos {x. pending c x} \<and>
     (\<forall>x. pending c x \<longrightarrow> pos x \<notin> set D) \<and>
     (\<forall>p. claimed xs R pos p \<longleftrightarrow> p \<in> set D \<or> (\<exists>x. pending c x \<and> pos x = p))"

definition writer_part :: "('e, 'm) entry_ops \<Rightarrow> ('e, 'm) sqc \<Rightarrow> bool" where
  "writer_part ops c \<longleftrightarrow> (case wpc c of
       WIdle \<Rightarrow> True
     | WTested e n \<Rightarrow> n = (writeIndex (sq c) + 1) mod ring_size (sq c) \<and> int (liveCount (sq c)) < ring_size (sq c) - 1
     | WStored e n \<Rightarrow> n = (writeIndex (sq c) + 1) mod ring_size (sq c) \<and> int (liveCount (sq c)) < ring_size (sq c) - 1 \<and>
         stored ops (sq c) e)"

definition held_part :: "('e, 'm) entry_ops \<Rightarrow> ('e, 'm) sqc \<Rightarrow> (rid \<Rightarrow> nat) \<Rightarrow> nat list \<Rightarrow> bool" where
  "held_part ops c pos D \<longleftrightarrow> inj_on pos (dom (held c)) \<and>
     (\<forall>x p e. held c x = Some (p, e) \<longrightarrow> listed c x \<and> finished c x \<and> x \<notin> moved c \<and> pos x \<in> set D \<and>
        queueData (sq c) ! nat (rd_index (sq c) x) = Some p \<and> deref ops p (dataEntries (sq c)) = Inr e)"

definition sq_inv :: "('e, 'm) entry_ops \<Rightarrow> ('e, 'm) sqc \<Rightarrow> rid list \<Rightarrow> nat \<Rightarrow> (rid \<Rightarrow> nat) \<Rightarrow> nat list \<Rightarrow> bool" where
  "sq_inv ops c xs R pos D \<longleftrightarrow> ring_part ops c R D \<and> list_part c xs R pos \<and> deliv_part c xs R pos D \<and>
     writer_part ops c \<and> held_part ops c pos D"

lemmas sq_parts = ring_part_def list_part_def deliv_part_def writer_part_def held_part_def

section \<open>Consequences of the invariant\<close>

lemma rlist_ok_cong:
  "readers s' = readers s \<Longrightarrow> rl_front s' = rl_front s \<Longrightarrow> rl_back s' = rl_back s \<Longrightarrow> rlist_ok s' xs = rlist_ok s xs"
  by (simp only: rlist_ok_def)

lemma list_partD:
  assumes "list_part c xs R pos"
  shows "rlist_ok (sq c) xs" "distinct xs" "\<And>x. listed c x \<longleftrightarrow> x \<in> set xs" "moved c \<subseteq> set xs" "sorted (map pos xs)"
    "xs \<noteq> [] \<Longrightarrow> pos (hd xs) = R"
    "\<And>x. x \<in> set xs \<Longrightarrow> R \<le> pos x" "\<And>x. x \<in> set xs \<Longrightarrow> int (pos x - R) < ring_size (sq c)"
    "\<And>x. x \<in> set xs \<Longrightarrow> rd_index (sq c) x = slotAt (sq c) (pos x - R)"
proof -
  show "rlist_ok (sq c) xs" "distinct xs" "\<And>x. listed c x \<longleftrightarrow> x \<in> set xs" "moved c \<subseteq> set xs" "sorted (map pos xs)"
    "xs \<noteq> [] \<Longrightarrow> pos (hd xs) = R" "\<And>x. x \<in> set xs \<Longrightarrow> R \<le> pos x"
    "\<And>x. x \<in> set xs \<Longrightarrow> rd_index (sq c) x = slotAt (sq c) (pos x - R)"
    using assms unfolding list_part_def rlist_ok_def by blast+
  show "int (pos x - R) < ring_size (sq c)" if "x \<in> set xs" for x
    using assms that by (auto simp: list_part_def)
qed

lemma ring_partD:
  assumes "ring_part ops c R D"
  shows "rwq_inv ops (sq c)" "ring_ok (sq c)" "2 \<le> ring_size (sq c)" "R \<le> length (accepted c)"
    "\<And>k. k < liveCount (sq c) \<Longrightarrow> R + k \<notin> set D \<Longrightarrow> contents ops (sq c) ! k = accepted c ! (R + k)"
    "liveCount (sq c) = length (accepted c) - R"
  using assms by (auto simp: ring_part_def rwq_inv_def)

lemma ring_part_mono: "ring_part ops c R D \<Longrightarrow> set D \<subseteq> set D' \<Longrightarrow> ring_part ops c R D'"
  by (auto simp: ring_part_def)

lemma sorted_last: "sorted (map f xs) \<Longrightarrow> x \<in> set xs \<Longrightarrow> f x \<le> f (last xs)"
  by (cases xs rule: rev_cases) (auto simp: sorted_append)

lemma slots_ok_inv:
  assumes "ring_part ops c R D" and "list_part c xs R pos"
  shows "slots_ok (sq c) xs"
  using ring_partD(2,3) [OF assms(1)] list_partD(9) [OF assms(2)] slotAt_range [of "sq c"] ring_okD(3) [of "sq c"]
  by (auto simp: slots_ok_def)

text \<open>The list spans the ring iff the front is the last slot before the back comes round again.\<close>

lemma spans_iff:
  assumes r: "ring_part ops c R D" and l: "list_part c xs R pos" and ne: "xs \<noteq> []"
  shows "spans (ring_size (sq c)) (rl_abs (sq c) xs) \<longleftrightarrow> int (pos (last xs) - R) = ring_size (sq c) - 1"
proof -
  let ?n = "ring_size (sq c)" and ?k = "pos (last xs) - R"
  note ring = ring_partD(2) [OF r] and n2 = ring_partD(3) [OF r]
  have k: "int ?k < ?n" and last: "rd_index (sq c) (last xs) = slotAt (sq c) ?k"
    and hd: "rd_index (sq c) (hd xs) = slotAt (sq c) 0"
    using list_partD [OF l] ne hd_in_set [OF ne] by (metis last_in_set, metis last_in_set, metis diff_self_eq_0)
  have "(slotAt (sq c) ?k + 1) mod ?n = slotAt (sq c) (Suc ?k)" by (simp add: slotAt_def mod_simps algebra_simps)
  then have "spans ?n (rl_abs (sq c) xs) \<longleftrightarrow> slotAt (sq c) (Suc ?k) = slotAt (sq c) 0"
    by (simp add: spans_def rl_abs_def last hd)
  also have "\<dots> \<longleftrightarrow> int ?k = ?n - 1"
  proof (cases "int ?k = ?n - 1")
    case True
    then have "int (Suc ?k) = ?n" by simp
    then have "slotAt (sq c) (Suc ?k) = slotAt (sq c) 0" unfolding slotAt_def by simp
    then show ?thesis using True by simp
  next
    case False
    then have "slotAt (sq c) (Suc ?k) \<noteq> slotAt (sq c) 0"
      using k n2 slotAt_inj [OF ring, of "Suc ?k" 0] by auto
    then show ?thesis using False by simp
  qed
  finally show ?thesis .
qed

text \<open>
  A claimed position that is not written yet has a pending reader; so a back reader that is done can step
  over no unwritten slot.
\<close>

lemma unwritten_pending:
  assumes "deliv_part c xs R pos D" and "claimed xs R pos p" and "length (accepted c) \<le> p"
  obtains x where "pending c x" "pos x = p"
  using assms by (auto simp: deliv_part_def)

lemma next_back_written:
  assumes l: "list_part c xs R pos" and d: "deliv_part c xs R pos D" and r: "R \<le> length (accepted c)"
    and x: "\<not> pending c x" and xs: "xs = x # ys"
    and R': "R' = (if ys = [] then Suc (pos x) else pos (hd ys))"
  shows "R' \<le> length (accepted c)"
proof (rule ccontr)
  assume "\<not> R' \<le> length (accepted c)"
  then have W: "length (accepted c) < R'" by simp
  note L = list_partD [OF l]
  have px: "pos x = R" using L(6) xs by simp
  have "length (accepted c) \<le> pos (last xs)"
    using W R' sorted_last [OF L(5), of "hd ys"] xs px r by (auto split: if_splits)
  then have "claimed xs R pos (length (accepted c))" using xs by (simp add: claimed_def)
  from unwritten_pending [OF d this order.refl] obtain y where y: "pending c y" "pos y = length (accepted c)" .
  have "y \<in> set ys" using y(1) x L(3) [of y] xs by (auto simp: pending_def)
  moreover have "pos (hd ys) \<le> pos y" using L(5) xs \<open>y \<in> set ys\<close> by (cases ys) auto
  ultimately show False using y(2) W R' by (auto split: if_splits)
qed

section \<open>Writer steps\<close>

context entry_class
begin

text \<open>The slot of a waiting entry is a cell of the current array.\<close>

lemma live_cell:
  assumes "rwq_inv ops q" and "k < liveCount q"
  obtains a m where "data_ok ops (currentSize q) a (dataEntries q)"
    and "queueData q ! nat (slotAt q k) = Some (Cell a (nat (slotAt q k)) m)"
    and "deref ops (Cell a (nat (slotAt q k)) m) (dataEntries q) = Inr (contents ops q ! k)"
proof -
  from assms obtain a where ring: "ring_ok q" and d: "data_ok ops (currentSize q) a (dataEntries q)"
    and live: "slot_ok a q (slotAt q k)" by (auto simp: rwq_inv_def)
  show thesis
    by (rule slot_ok_value [OF live d slotAt_range [OF ring]]) (use that d assms(2) in \<open>simp add: contents_nth\<close>)
qed

text \<open>The slot of an entry in use.\<close>

lemma held_slot:
  assumes inv: "sq_inv ops c xs R pos D" and h: "held c x = Some (p, e)"
  shows "x \<in> set xs" "rd_index (sq c) x = slotAt (sq c) (pos x - R)" "pos x - R < liveCount (sq c)"
    "queueData (sq c) ! nat (slotAt (sq c) (pos x - R)) = Some p" "contents ops (sq c) ! (pos x - R) = e"
    "deref ops p (dataEntries (sq c)) = Inr e" "R \<le> pos x" "pos x \<in> set D"
    "\<exists>a m. data_ok ops (currentSize (sq c)) a (dataEntries (sq c)) \<and> p = Cell a (nat (slotAt (sq c) (pos x - R))) m"
proof -
  have rp: "ring_part ops c R D" and lp: "list_part c xs R pos" and dp: "deliv_part c xs R pos D"
    and hp: "held_part ops c pos D"
    using inv by (auto simp: sq_inv_def)
  note L = list_partD [OF lp] and rw = ring_partD [OF rp]
  show x: "x \<in> set xs" and pD: "pos x \<in> set D" and v: "deref ops p (dataEntries (sq c)) = Inr e"
    using h hp L(3) by (auto simp: held_part_def)
  show Rx: "R \<le> pos x" and rd: "rd_index (sq c) x = slotAt (sq c) (pos x - R)" using L(7,9) [OF x] by auto
  have "pos x < length (accepted c)" using dp pD by (simp add: deliv_part_def)
  then show k: "pos x - R < liveCount (sq c)" using rw(6) Rx by simp
  show q: "queueData (sq c) ! nat (slotAt (sq c) (pos x - R)) = Some p" using h hp rd unfolding held_part_def by metis
  from live_cell [OF rw(1) k] obtain a m where a: "data_ok ops (currentSize (sq c)) a (dataEntries (sq c))"
    "queueData (sq c) ! nat (slotAt (sq c) (pos x - R)) = Some (Cell a (nat (slotAt (sq c) (pos x - R))) m)"
    "deref ops (Cell a (nat (slotAt (sq c) (pos x - R))) m) (dataEntries (sq c)) = Inr (contents ops (sq c) ! (pos x - R))" .
  then show "contents ops (sq c) ! (pos x - R) = e"
    "\<exists>a m. data_ok ops (currentSize (sq c)) a (dataEntries (sq c)) \<and> p = Cell a (nat (slotAt (sq c) (pos x - R))) m"
    using q v by auto
qed

text \<open>Everything about the readers survives a step that changes only ring fields at unread slots.\<close>

lemma Test_inv:
  assumes inv: "sq_inv ops c xs R pos D" and n: "isFull (sq c) = Inr n" "n \<noteq> IS_FULL"
  shows "sq_inv ops (c\<lparr>wpc := WTested e n\<rparr>) xs R pos D"
proof -
  have ring: "ring_ok (sq c)" using inv ring_partD(2) by (auto simp: sq_inv_def)
  have "n = (writeIndex (sq c) + 1) mod ring_size (sq c)" "int (liveCount (sq c)) \<noteq> ring_size (sq c) - 1"
    using n isFull_eq [OF ring] by (auto split: if_splits)
  moreover have "int (liveCount (sq c)) < ring_size (sq c)" by (rule liveCount_less [OF ring])
  ultimately show ?thesis using inv by (simp add: sq_inv_def sq_parts pending_def)
qed

lemma Store_inv:
  assumes inv: "sq_inv ops c xs R pos D" and w: "wpc c = WTested e n"
    and ins: "insertEntry ops e (sq c) = Inr (True, s)"
  shows "sq_inv ops (c\<lparr>sq := s, wpc := WStored e n\<rparr>) xs R pos D"
proof -
  note I = inv [unfolded sq_inv_def]
  have rp: "ring_part ops c R D" and lp: "list_part c xs R pos" using I by auto
  note rw = ring_partD [OF rp]
  obtain a where d: "data_ok ops (currentSize (sq c)) a (dataEntries (sq c))" using rw(1) by (auto simp: rwq_inv_def)
  obtain m where "storable ops e m"
    using insertEntry_refused [OF d, of e] ins by fastforce
  then obtain s1 where s1: "insertEntry ops e (sq c) = Inr (True, s1)"
    "s1 = (sq c)\<lparr>queueData := queueData s1, dataEntries := dataEntries s1\<rparr>"
    "rwq_inv ops s1" "contents ops s1 = contents ops (sq c)" "stored ops s1 e"
    "\<And>k. k < liveCount (sq c) \<Longrightarrow> queueData s1 ! nat (slotAt (sq c) k) = queueData (sq c) ! nat (slotAt (sq c) k)"
    using store_ok [OF rw(1)] by blast
  then have s: "s = s1" using ins by simp
  have f: "readIndex s = readIndex (sq c)" "writeIndex s = writeIndex (sq c)" "currentSize s = currentSize (sq c)"
    "readers s = readers (sq c)" "rl_front s = rl_front (sq c)" "rl_back s = rl_back (sq c)"
    by (subst s, subst s1(2), simp)+
  have g: "liveCount s = liveCount (sq c)" "slotAt s k = slotAt (sq c) k" for k
    by (simp_all add: liveCount_def slotAt_def f)
  have rl: "rlist_ok s xs" using list_partD(1) [OF lp] rlist_ok_cong [OF f(4-6)] by simp
  have h: "queueData s ! nat (rd_index (sq c) x) = Some p \<and> deref ops p (dataEntries s) = Inr v"
    if hx: "held c x = Some (p, v)" for x p v
  proof -
    note H = held_slot [OF inv hx]
    have q: "queueData s ! nat (slotAt s (pos x - R)) = Some p" using s1(6) [OF H(3)] H(4) s g(2) by simp
    have "pos x - R < liveCount s" "rwq_inv ops s" using H(3) g(1) s1(3) s by simp_all
    from live_cell [OF this(2,1)] q have "deref ops p (dataEntries s) = Inr (contents ops s ! (pos x - R))" by auto
    then show ?thesis using H(2,5) q s1(4) s g(2) by simp
  qed
  let ?c = "c\<lparr>sq := s, wpc := WStored e n\<rparr>"
  have "writer_part ops ?c" using I w s1(5) s f g by (simp add: writer_part_def)
  moreover have "ring_part ops ?c R D" using rp s1(3,4) s f(3) g(1) by (simp add: ring_part_def)
  moreover have "list_part ?c xs R pos" using lp f(3,4) g(2) rl by (simp add: list_part_def)
  moreover have "deliv_part ?c xs R pos D" using I f(4) by (simp add: deliv_part_def pending_def)
  moreover have "held_part ops ?c pos D" using I f(4) h by (simp add: held_part_def)
  ultimately show ?thesis by (simp add: sq_inv_def)
qed

lemma Publish_inv:
  assumes inv: "sq_inv ops c xs R pos D" and w: "wpc c = WStored e n"
  shows "sq_inv ops (c\<lparr>sq := (sq c)\<lparr>writeIndex := n, stats := t\<rparr>, accepted := accepted c @ [e], wpc := WIdle\<rparr>) xs R pos D"
proof -
  note I = inv [unfolded sq_inv_def]
  have rp: "ring_part ops c R D" and lp: "list_part c xs R pos" using I by auto
  note rw = ring_partD [OF rp]
  have st: "stored ops (sq c) e" "int (liveCount (sq c)) < ring_size (sq c) - 1"
    and n: "n = (writeIndex (sq c) + 1) mod ring_size (sq c)"
    using I w by (auto simp: writer_part_def)
  let ?s = "(sq c)\<lparr>writeIndex := n, stats := t\<rparr>"
  note pub = publish_ok [OF rw(1) st, of t, folded n]
  have "slotAt ?s k = slotAt (sq c) k" for k by (simp add: slotAt_def)
  moreover have "rlist_ok ?s xs" using list_partD(1) [OF lp] rlist_ok_cong [of ?s "sq c"] by simp
  moreover have "map (\<lambda>p. (accepted c @ [e]) ! p) D = map (\<lambda>p. accepted c ! p) D"
    using I by (simp add: deliv_part_def nth_append)
  moreover have "(contents ops (sq c) @ [e]) ! k = (accepted c @ [e]) ! (R + k)"
    if k: "k < Suc (liveCount (sq c))" "R + k \<notin> set D" for k
    using k rw(4-6) by (cases "k = liveCount (sq c)") (auto simp: nth_append)
  moreover have "\<forall>p \<in> set D. p < Suc (length (accepted c))" using I by (auto simp: deliv_part_def)
  ultimately show ?thesis
    using I pub rw(4,6) by (simp add: sq_inv_def sq_parts pending_def Suc_diff_le)
qed

end

section \<open>Reader steps\<close>

text \<open>
  What a list operation has to establish: the new order, positions and read index fit the ring as it was
  before the operation.
\<close>

lemma list_move:
  assumes rp: "ring_part ops c R D" and c': "accepted c' = accepted c" "wpc c' = wpc c"
    and fr: "list_frame (sq c) (sq c')" and rl: "rlist_ok (sq c') xs'" and mv: "moved c' \<subseteq> set xs'"
    and so: "sorted (map pos' xs')" and hd: "xs' \<noteq> [] \<Longrightarrow> pos' (hd xs') = R'"
    and R': "R \<le> R'" "R' \<le> length (accepted c)" and ri: "readIndex (sq c') = slotAt (sq c) (R' - R)"
    and y: "\<And>y. y \<in> set xs' \<Longrightarrow> R' \<le> pos' y \<and> int (pos' y) < int R' + ring_size (sq c) \<and>
      rd_index (sq c') y = slotAt (sq c) (pos' y - R)"
  shows "ring_part ops c' R' D" "list_part c' xs' R' pos'" "writer_part ops c \<Longrightarrow> writer_part ops c'"
proof -
  note rw = ring_partD [OF rp]
  let ?q = "(sq c)\<lparr>readIndex := slotAt (sq c) (R' - R)\<rparr>"
  have k: "R' - R \<le> liveCount (sq c)" using R' rw(6) by simp
  note adv = advance_ring [OF rw(1) k]
  have same: "same_ring ?q (sq c')" using list_frameD [OF fr] ri by (simp add: same_ring_def)
  note sm = same_ringD [OF same]
  have "contents ops ?q ! j = accepted c ! (R' + j)" if j: "j < liveCount ?q" "R' + j \<notin> set D" for j
    using rw(5) [of "R' - R + j"] j adv(2,4) k R'(1) by (simp add: algebra_simps)
  then show "ring_part ops c' R' D"
    using adv(1,4) sm rw(3,6) R' c' by (auto simp: ring_part_def)
  show "list_part c' xs' R' pos'"
    using rl mv so hd y sm(3,7) adv(3) R' by (auto simp: list_part_def)
  have lc: "liveCount (sq c') \<le> liveCount (sq c)" using sm(6) adv(4) by simp
  have st: "stored ops (sq c') e = stored ops (sq c) e" for e
    using sm(1,2,3,5) by (simp add: stored_def slotValue_def slot_ok_def split: option.split)
  show "writer_part ops c \<Longrightarrow> writer_part ops c'"
    using lc c' sm(3,5) st by (auto simp: writer_part_def split: writer_pc.splits)
qed

text \<open>A reader that is done moves on: the parts that do not concern the list.\<close>

lemma held_move:
  assumes hp: "held_part ops c pos D" and c': "held c' = held c"
    and fr: "list_frame (sq c) (sq c')" and fl: "flags_frame (sq c) (sq c')"
    and x: "held c x = None" and mv: "moved c' - {x} = moved c - {x}"
    and idx: "\<And>y. y \<noteq> x \<Longrightarrow> rd_index (sq c') y = rd_index (sq c) y \<and> pos' y = pos y"
  shows "held_part ops c' pos' D"
proof -
  have ne: "y \<noteq> x" if "held c y = Some u" for y u using that x by auto
  have "inj_on pos' (dom (held c)) \<longleftrightarrow> inj_on pos (dom (held c))"
    by (rule inj_on_cong) (use ne idx in auto)
  moreover have "listed c' y \<and> finished c' y \<and> y \<notin> moved c' \<and> pos' y \<in> set D \<and>
      queueData (sq c') ! nat (rd_index (sq c') y) = Some p \<and> deref ops p (dataEntries (sq c')) = Inr e"
    if h: "held c y = Some (p, e)" for y p e
  proof -
    have "y \<noteq> x" by (rule ne [OF h])
    moreover have "y \<in> moved c' \<longleftrightarrow> y \<in> moved c" using mv \<open>y \<noteq> x\<close> by auto
    moreover have "listed c y \<and> finished c y \<and> y \<notin> moved c \<and> pos y \<in> set D \<and>
        queueData (sq c) ! nat (rd_index (sq c) y) = Some p \<and> deref ops p (dataEntries (sq c)) = Inr e"
      using hp h by (simp add: held_part_def)
    ultimately show ?thesis using idx [of y] fl list_frameD(1,2) [OF fr] by (simp add: flags_frame_def)
  qed
  ultimately show ?thesis using hp c' by (simp add: held_part_def)
qed

text \<open>The positions after a reader took the slot after the front.\<close>

lemma deliv_advance:
  assumes lp: "list_part c xs R pos" and dp: "deliv_part c xs R pos D" and ne: "xs \<noteq> []"
    and x: "\<not> pending c x" and pos': "pos' = pos(x := Suc (pos (last xs)))"
    and c': "accepted c' = accepted c" "delivered c' = delivered c"
    and pe: "\<And>y. pending c' y \<longleftrightarrow> y = x \<or> pending c y"
    and xs': "last xs' = x" "xs' \<noteq> []"
  shows "deliv_part c' xs' R' pos' D"
proof -
  let ?F = "pos (last xs)"
  have cl: "claimed xs R pos p \<longleftrightarrow> p \<le> ?F" for p using ne by (simp add: claimed_def)
  have low: "pos y \<le> ?F" if "pending c y" for y
    using that sorted_last [OF list_partD(5) [OF lp]] list_partD(3) [OF lp] by (auto simp: pending_def)
  have DF: "p \<le> ?F" if "p \<in> set D" for p using that dp cl by (auto simp: deliv_part_def)
  have same: "pos' y = pos y" if "pending c y" for y using that x pos' by auto
  have "inj_on pos' {y. pending c' y}"
  proof -
    have "inj_on pos' {y. pending c y}"
      using dp same by (auto simp: deliv_part_def inj_on_def)
    moreover have "pos' x \<notin> pos' ` {y. pending c y}" using low same pos' by fastforce
    moreover have "{y. pending c' y} = insert x {y. pending c y}" using pe by auto
    ultimately show ?thesis using x by simp
  qed
  moreover have "pos' y \<notin> set D" if "pending c' y" for y
    using that pe dp same DF [of "Suc ?F"] pos' by (auto simp: deliv_part_def)
  moreover have "claimed xs' R' pos' p \<longleftrightarrow> p \<in> set D \<or> (\<exists>y. pending c' y \<and> pos' y = p)" for p
  proof -
    have "claimed xs' R' pos' p \<longleftrightarrow> p \<le> ?F \<or> p = Suc ?F" using xs' pos' by (auto simp: claimed_def)
    also have "\<dots> \<longleftrightarrow> p \<in> set D \<or> (\<exists>y. pending c y \<and> pos y = p) \<or> p = Suc ?F"
      using dp cl by (auto simp: deliv_part_def)
    also have "\<dots> \<longleftrightarrow> p \<in> set D \<or> (\<exists>y. pending c' y \<and> pos' y = p)"
      using pe same pos' by (metis fun_upd_same)
    finally show ?thesis .
  qed
  ultimately show ?thesis using dp c' by (simp add: deliv_part_def)
qed

lemma sorted_move_last:
  assumes "sorted (map f (as @ x # bs))" and "distinct (as @ x # bs)" and "f' = f(x := Suc (f (last (x # bs))))"
  shows "sorted (map f' (as @ bs @ [x]))"
proof -
  have eq: "map f' as = map f as" "map f' bs = map f bs" "\<And>y. y \<in> set as \<union> set bs \<Longrightarrow> f' y = f y"
    using assms(2,3) by auto
  have top: "f' y \<le> f' x" if "y \<in> set as \<union> set bs" for y
    using sorted_last [OF assms(1), of y] that eq(3) [OF that] assms(3) by auto
  have "sorted (map f' as)" "sorted (map f' bs)" "\<And>y z. y \<in> set as \<Longrightarrow> z \<in> set bs \<Longrightarrow> f' y \<le> f' z"
    using assms(1) unfolding eq by (auto simp: sorted_append eq(3))
  then show ?thesis using top by (auto simp: sorted_append)
qed

lemma advance_inv:
  fixes ops :: "('e, 'm) entry_ops"
  assumes inv: "sq_inv ops c xs R pos D" and x: "x \<in> set xs" "\<not> pending c x" "held c x = None"
    and sp: "\<not> spans (ring_size (sq c)) (rl_abs (sq c) xs)"
    and s: "rl_post (sq c) (spec_advance (ring_size (sq c)) x (rl_abs (sq c) xs)) s" "flags_frame (sq c) s"
  shows "\<exists>xs' R' pos'. sq_inv ops (c\<lparr>sq := s, moved := insert x (moved c)\<rparr>) xs' R' pos' D \<and> (\<forall>y. y \<noteq> x \<longrightarrow> pos' y = pos y)"
proof -
  let ?c = "c\<lparr>sq := s, moved := insert x (moved c)\<rparr>" and ?n = "ring_size (sq c)"
  have rp: "ring_part ops c R D" and lp: "list_part c xs R pos" and dp: "deliv_part c xs R pos D"
    and wp: "writer_part ops c" and hp: "held_part ops c pos D"
    using inv by (auto simp: sq_inv_def)
  note L = list_partD [OF lp] and rw = ring_partD [OF rp]
  from split_list [OF x(1)] obtain as bs where xs: "xs = as @ x # bs" by blast
  define F where "F = pos (last xs)"
  define pos' where "pos' = pos(x := Suc F)"
  define xs' where "xs' = as @ bs @ [x]"
  define R' where "R' = (if as \<noteq> [] then R else if bs = [] then Suc F else pos (hd bs))"
  have ne: "xs \<noteq> []" and fl: "last xs \<in> set xs" using xs by auto
  have FR: "R \<le> F" "int F < int R + ?n" using L(7,8) [OF fl] by (auto simp: F_def)
  have room: "int (Suc F) < int R + ?n"
    using sp spans_iff [OF rp lp ne] FR by (simp add: F_def)
  note sa = spec_advance_split [OF L(2) [unfolded xs], of ?n "rd_index (sq c)" "readIndex (sq c)"]
  have lst: "last (x # bs) = last xs" using xs by auto
  have nx: "(rd_index (sq c) (last xs) + 1) mod ?n = slotAt (sq c) (Suc F - R)"
    using L(9) [OF fl] FR by (simp add: F_def slotAt_def mod_simps algebra_simps Suc_diff_le)
  have post: "rlist_ok s xs'" "list_frame (sq c) s"
    "\<And>y. rd_index s y = (if y = x then slotAt (sq c) (Suc F - R) else rd_index (sq c) y)"
    "readIndex s = (if as \<noteq> [] then readIndex (sq c) else if bs = [] then slotAt (sq c) (Suc F - R) else rd_index (sq c) (hd bs))"
    using s(1) sa nx lst unfolding rl_post_def rl_abs_def xs'_def xs [symmetric] Let_def by (auto simp: fun_eq_iff)
  have dist: "x \<notin> set as" "x \<notin> set bs" "distinct xs'" using L(2) xs by (auto simp: xs'_def)
  have idx: "rd_index s y = slotAt (sq c) (pos' y - R)" if "y \<in> set xs'" for y
    using that L(9) xs post(3) by (auto simp: pos'_def xs'_def)
  have so: "sorted (map pos' xs')"
    using sorted_move_last [OF L(5) [unfolded xs] L(2) [unfolded xs]] lst by (simp add: pos'_def xs'_def F_def)
  have hd': "pos' (hd xs') = R'"
    using L(6) [OF ne] xs dist by (cases as; cases bs) (auto simp: pos'_def xs'_def R'_def)
  have RR: "R \<le> R'" using L(7) xs FR by (auto simp: R'_def hd_append)
  have RW: "R' \<le> length (accepted c)"
  proof (cases "as = []")
    case True
    then show ?thesis using xs by (intro next_back_written [OF lp dp rw(4) x(2)]) (auto simp: R'_def F_def)
  next
    case False
    then show ?thesis using rw(4) by (simp add: R'_def)
  qed
  have ri: "readIndex s = slotAt (sq c) (R' - R)"
  proof (cases "as = []")
    case True
    then show ?thesis using post(4) L(9) xs by (auto simp: R'_def)
  next
    case False
    then show ?thesis using post(4) ring_okD(5,6) [OF rw(2)] by (simp add: R'_def slotAt_def)
  qed
  have bnd: "R' \<le> pos' y \<and> int (pos' y) < int R' + ?n" if y: "y \<in> set xs'" for y
  proof -
    have "pos' (hd xs') \<le> pos' y" using so y by (cases xs') auto
    moreover have "pos' y \<le> pos' (last xs')" by (rule sorted_last [OF so y])
    ultimately show ?thesis using hd' room RR by (simp add: xs'_def pos'_def)
  qed
  have "moved ?c \<subseteq> set xs'" using L(4) xs by (auto simp: xs'_def)
  note mv = list_move [OF rp, where c' = ?c, simplified, OF post(2,1) this [simplified] so hd' RR RW ri]
  have "pending ?c y \<longleftrightarrow> y = x \<or> pending c y" for y
    using s(2) L(3) x(1) by (auto simp: pending_def flags_frame_def)
  then have "deliv_part ?c xs' R' pos' D"
    using x(2) by (intro deliv_advance [OF lp dp ne]) (auto simp: pos'_def F_def xs'_def)
  moreover have "held_part ops ?c pos' D"
    using s(2) x(3) post by (intro held_move [OF hp]) (auto simp: pos'_def)
  ultimately have "sq_inv ops ?c xs' R' pos' D"
    using mv bnd idx wp by (simp add: sq_inv_def)
  moreover have "\<forall>y. y \<noteq> x \<longrightarrow> pos' y = pos y" by (simp add: pos'_def)
  ultimately show ?thesis by blast
qed

text \<open>A reader that is not pending changes place without claiming a slot.\<close>

lemma deliv_same:
  assumes dp: "deliv_part c xs R pos D" and c': "accepted c' = accepted c" "delivered c' = delivered c"
    and pe: "\<And>y. pending c' y = pending c y" and same: "\<And>y. pending c y \<Longrightarrow> pos' y = pos y"
    and cl: "\<And>p. claimed xs' R' pos' p = claimed xs R pos p"
  shows "deliv_part c' xs' R' pos' D"
proof -
  have "inj_on pos' {y. pending c y} \<longleftrightarrow> inj_on pos {y. pending c y}"
    by (rule inj_on_cong) (use same in auto)
  moreover have "(\<exists>y. pending c y \<and> pos' y = p) \<longleftrightarrow> (\<exists>y. pending c y \<and> pos y = p)" for p
    using same by metis
  ultimately show ?thesis using dp c' pe same cl by (simp add: deliv_part_def)
qed

lemma squeeze_inv:
  fixes ops :: "('e, 'm) entry_ops"
  assumes inv: "sq_inv ops c (x # y # zs @ [f]) R pos D" and x: "\<not> pending c x" "held c x = None"
    and s: "rl_post (sq c) \<lparr>order = y # zs @ [x, f], slot = (rd_index (sq c))(x := rd_index (sq c) (last (y # zs))),
        rindex = rd_index (sq c) y\<rparr> s" "flags_frame (sq c) s"
  shows "\<exists>xs' R' pos'. sq_inv ops (c\<lparr>sq := s\<rparr>) xs' R' pos' D \<and> (\<forall>u. u \<noteq> x \<longrightarrow> pos' u = pos u)"
proof -
  let ?c = "c\<lparr>sq := s\<rparr>" and ?n = "ring_size (sq c)" and ?l = "last (y # zs)"
  let ?xs = "x # y # zs @ [f]" and ?xs' = "y # zs @ [x, f]"
  have rp: "ring_part ops c R D" and lp: "list_part c ?xs R pos" and dp: "deliv_part c ?xs R pos D"
    and wp: "writer_part ops c" and hp: "held_part ops c pos D"
    using inv by (auto simp: sq_inv_def)
  note L = list_partD [OF lp] and rw = ring_partD [OF rp]
  define pos' where "pos' = pos(x := pos ?l)"
  have post: "rlist_ok s ?xs'" "list_frame (sq c) s" "readIndex s = rd_index (sq c) y"
    "\<And>u. rd_index s u = (if u = x then rd_index (sq c) ?l else rd_index (sq c) u)"
    using s(1) unfolding rl_post_def rl_abs_def by (auto simp: fun_eq_iff)
  have ll: "?l \<in> set (y # zs)" by (rule last_in_set) simp
  then have lx: "?l \<in> set ?xs" "?l \<noteq> x" using L(2) by auto
  have eq: "map pos' (y # zs) = map pos (y # zs)" "pos' f = pos f" "pos' x = pos ?l" "pos' y = pos y"
    using L(2) by (auto simp: pos'_def)
  have "pos u \<le> pos ?l" if "u \<in> set (y # zs)" for u
    using L(5) that by (intro sorted_last) (auto simp: sorted_append)
  moreover have "pos ?l \<le> pos f" using sorted_last [OF L(5) lx(1)] by simp
  moreover have "pos' u = pos u" if "u \<in> set (y # zs)" for u using that L(2) by (auto simp: pos'_def)
  moreover have "sorted (map pos' (y # zs))" unfolding eq(1) using L(5) by (simp add: sorted_append)
  moreover have "\<forall>u \<in> set (y # zs). pos u \<le> pos f" using sorted_last [OF L(5)] by auto
  ultimately have so: "sorted (map pos' ?xs')"
    using eq(2,3) sorted_append [of "map pos' (y # zs)" "map pos' [x, f]"] by auto
  have idx: "rd_index s u = slotAt (sq c) (pos' u - R)" if "u \<in> set ?xs'" for u
    using that L(9) [of u] L(9) [OF lx(1)] post(4) by (auto simp: pos'_def)
  have bnd: "pos y \<le> pos' u \<and> int (pos' u) < int (pos y) + ?n" if u: "u \<in> set ?xs'" for u
  proof -
    have "pos' y \<le> pos' u" using so u by auto
    moreover have "pos' u \<le> pos' f" using sorted_last [OF so u] by simp
    moreover have "int (pos f) < int R + ?n" "R \<le> pos y" using L(7,8) [of f] L(7) [of y] by auto
    ultimately show ?thesis using eq by linarith
  qed
  have RW: "pos y \<le> length (accepted c)"
    by (rule next_back_written [OF lp dp rw(4) x(1) refl]) simp
  have ri: "readIndex s = slotAt (sq c) (pos y - R)" using post(3) L(9) [of y] by simp
  have RR: "R \<le> pos y" using L(7) [of y] by simp
  have mvd: "moved c \<subseteq> set ?xs'" using L(4) by auto
  have hd': "pos' (hd ?xs') = pos y" using eq by simp
  note mv = list_move [OF rp, where c' = ?c, simplified, OF post(2,1) mvd so hd' RR RW ri]
  have "pending ?c u \<longleftrightarrow> pending c u" for u using s(2) by (simp add: pending_def flags_frame_def)
  then have "deliv_part ?c ?xs' (pos y) pos' D"
    using x(1) eq(2) by (intro deliv_same [OF dp]) (auto simp: claimed_def pos'_def)
  moreover have "held_part ops ?c pos' D"
    using s(2) x(2) post by (intro held_move [OF hp]) (auto simp: pos'_def)
  ultimately have "sq_inv ops ?c ?xs' (pos y) pos' D"
    using mv bnd idx wp by (simp add: sq_inv_def)
  moreover have "\<forall>u. u \<noteq> x \<longrightarrow> pos' u = pos u" by (simp add: pos'_def)
  ultimately show ?thesis by blast
qed

lemma stay_inv:
  fixes ops :: "('e, 'm) entry_ops"
  assumes inv: "sq_inv ops c xs R pos D" and x: "held c x = None"
    and s: "rl_post (sq c) \<lparr>order = xs, slot = rd_index (sq c), rindex = readIndex (sq c)\<rparr> s" "flags_frame (sq c) s"
  shows "sq_inv ops (c\<lparr>sq := s\<rparr>) xs R pos D"
proof -
  let ?c = "c\<lparr>sq := s\<rparr>"
  have rp: "ring_part ops c R D" and lp: "list_part c xs R pos" and dp: "deliv_part c xs R pos D"
    and wp: "writer_part ops c" and hp: "held_part ops c pos D"
    using inv by (auto simp: sq_inv_def)
  note L = list_partD [OF lp] and rw = ring_partD [OF rp]
  have post: "rlist_ok s xs" "list_frame (sq c) s" "readIndex s = readIndex (sq c)" "\<And>u. rd_index s u = rd_index (sq c) u"
    using s(1) unfolding rl_post_def rl_abs_def by (auto simp: fun_eq_iff)
  have ri: "readIndex s = slotAt (sq c) (R - R)"
    using post(3) ring_okD(5,6) [OF rw(2)] by (simp add: slotAt_def)
  have b: "R \<le> pos u \<and> int (pos u) < int R + ring_size (sq c) \<and> rd_index s u = slotAt (sq c) (pos u - R)"
    if "u \<in> set xs" for u using L(7-9) [OF that] post(4) by auto
  note mv = list_move [OF rp, where c' = ?c, simplified, OF post(2,1) L(4,5,6) order.refl rw(4) ri b, simplified]
  have "deliv_part ?c xs R pos D"
    using s(2) by (intro deliv_same [OF dp]) (simp_all add: pending_def flags_frame_def)
  moreover have "held_part ops ?c pos D"
    using s(2) x post by (intro held_move [OF hp]) auto
  ultimately show ?thesis using mv wp by (simp add: sq_inv_def)
qed

lemma long_list:
  assumes "2 < length xs" shows "\<exists>y zs f. xs = hd xs # y # zs @ [f]"
proof -
  obtain a y us where "xs = a # y # us" "us \<noteq> []" using assms by (cases xs; cases "tl xs"; cases "tl (tl xs)") auto
  then show ?thesis by (metis append_butlast_last_id list.sel(1))
qed

lemma spec_squeeze_long:
  "spec_squeeze \<lparr>order = x # y # zs @ [f], slot = sl, rindex = r\<rparr> =
     \<lparr>order = y # zs @ [x, f], slot = sl(x := sl (last (y # zs))), rindex = sl y\<rparr>"
  by (cases zs) (simp_all add: spec_squeeze_def Let_def butlast_append)

lemma spec_squeeze_short:
  "length xs \<le> 2 \<Longrightarrow> spec_squeeze \<lparr>order = xs, slot = sl, rindex = r\<rparr> = \<lparr>order = xs, slot = sl, rindex = sl (hd xs)\<rparr>"
  by (auto simp: spec_squeeze_def split: list.split)

lemma Move_inv:
  fixes ops :: "('e, 'm) entry_ops"
  assumes inv: "sq_inv ops c xs R pos D" and x: "listed c x" "finished c x" "x \<notin> moved c" "held c x = None"
    and m: "moveToFront x (sq c) = Inr (b, s)"
  shows "\<exists>xs' R' pos'. sq_inv ops (c\<lparr>sq := s, moved := (if b then insert x (moved c) else moved c)\<rparr>) xs' R' pos' D \<and>
    (\<forall>y. y \<noteq> x \<longrightarrow> pos' y = pos y)"
proof -
  have rp: "ring_part ops c R D" and lp: "list_part c xs R pos" using inv by (auto simp: sq_inv_def)
  note L = list_partD [OF lp] and rw = ring_partD [OF rp]
  have xl: "x \<in> set xs" and np: "\<not> pending c x" using x L(3) by (auto simp: pending_def)
  note sl = slots_ok_inv [OF rp lp]
  show ?thesis
  proof (cases "spans (ring_size (sq c)) (rl_abs (sq c) xs)")
    case False
    then show ?thesis
      using moveToFront_advances [OF L(1) sl xl False] advance_inv [OF inv xl np x(4) False, of s] m by auto
  next
    case True
    from moveToFront_blocked [OF L(1) sl xl True] m have b: "\<not> b" and fl: "flags_frame (sq c) s"
      and post: "rl_post (sq c) (if x = hd xs then spec_squeeze (rl_abs (sq c) xs) else rl_abs (sq c) xs) s" by auto
    have c: "c\<lparr>sq := s, moved := (if b then insert x (moved c) else moved c)\<rparr> = c\<lparr>sq := s\<rparr>" using b by simp
    show ?thesis
    proof (cases "x = hd xs \<and> 2 < length xs")
      case True
      then obtain y zs f where xs: "xs = x # y # zs @ [f]" using long_list [of xs] by blast
      have "rl_post (sq c) \<lparr>order = y # zs @ [x, f], slot = (rd_index (sq c))(x := rd_index (sq c) (last (y # zs))),
          rindex = rd_index (sq c) y\<rparr> s"
        using post xs by (simp add: spec_squeeze_long rl_abs_def)
      then show ?thesis unfolding c by (rule squeeze_inv [OF inv [unfolded xs] np x(4) _ fl])
    next
      case False
      have hd: "rd_index (sq c) (hd xs) = readIndex (sq c)"
        using L(9) [of "hd xs"] L(6) xl ring_okD(5,6) [OF rw(2)] by (cases xs) (auto simp: slotAt_def)
      have "(if x = hd xs then spec_squeeze (rl_abs (sq c) xs) else rl_abs (sq c) xs) =
          \<lparr>order = xs, slot = rd_index (sq c), rindex = readIndex (sq c)\<rparr>"
        using False hd by (auto simp: spec_squeeze_short rl_abs_def)
      then have "sq_inv ops (c\<lparr>sq := s\<rparr>) xs R pos D" using stay_inv [OF inv x(4) _ fl] post by simp
      then show ?thesis unfolding c by blast
    qed
  qed
qed

section \<open>Looking into a slot\<close>

lemma rlist_ok_flags:
  "rlist_ok (set_isDone x b1 (set_isEmpty x b2 s)) xs = rlist_ok s xs"
proof -
  have "chain (readers (set_isDone x b1 (set_isEmpty x b2 s))) xs = chain (readers s) xs"
    by (rule chain_cong_all) simp
  then show ?thesis by (simp only: rlist_ok_def upd_reader_sel) simp
qed

lemma flag_parts:
  assumes rp: "ring_part ops c R D" and lp: "list_part c xs R pos" and wp: "writer_part ops c"
    and c': "sq c' = set_isDone x b1 (set_isEmpty x b2 (sq c))" "accepted c' = accepted c" "wpc c' = wpc c"
      "moved c' = moved c - {x}"
  shows "ring_part ops c' R D" "list_part c' xs R pos" "writer_part ops c'"
proof -
  have same: "same_ring (sq c) (sq c')" using c'(1) by (simp add: same_ring_def)
  note sm = same_ringD [OF same]
  show "ring_part ops c' R D" using rp c'(2) sm by (simp add: ring_part_def)
  have "rlist_ok (sq c') xs" using list_partD(1) [OF lp] c'(1) by (simp add: rlist_ok_flags)
  then show "list_part c' xs R pos"
    using lp c' sm by (auto simp: list_part_def)
  have "stored ops (sq c') e = stored ops (sq c) e" for e
    using sm(3,8,10) by (simp add: stored_def sm)
  then show "writer_part ops c'"
    using wp c' sm by (auto simp: writer_part_def split: writer_pc.splits)
qed

lemma deliv_take:
  assumes dp: "deliv_part c xs R pos D" and px: "pending c x" and pW: "pos x < length (accepted c)"
    and c': "accepted c' = accepted c" "delivered c' = delivered c @ [(x, accepted c ! pos x)]"
    and pe: "\<And>y. pending c' y \<longleftrightarrow> pending c y \<and> y \<noteq> x"
  shows "deliv_part c' xs R pos (D @ [pos x])"
proof -
  have nD: "pos x \<notin> set D" using dp px by (simp add: deliv_part_def)
  have inj: "pos y \<noteq> pos x" if "pending c y" "y \<noteq> x" for y
    using dp px that by (auto simp: deliv_part_def inj_on_def)
  have "inj_on pos {y. pending c' y}"
    using dp by (auto simp: deliv_part_def pe intro: inj_on_subset)
  moreover have "(\<exists>y. pending c y \<and> pos y = u) \<longleftrightarrow> u = pos x \<or> (\<exists>y. pending c' y \<and> pos y = u)" for u
    using px by (auto simp: pe)
  ultimately show ?thesis using dp nD pW inj c' by (auto simp: deliv_part_def pe)
qed

context entry_class
begin

lemma Look_inv:
  assumes inv: "sq_inv ops c xs R pos D" and x: "listed c x" "\<not> finished c x \<or> x \<in> moved c"
    and r: "removeSlot x (sq c) = Inr (NullEntry, s)"
  shows "sq_inv ops (c\<lparr>sq := s, moved := moved c - {x}\<rparr>) xs R pos D"
proof -
  let ?c = "c\<lparr>sq := s, moved := moved c - {x}\<rparr>"
  have rp: "ring_part ops c R D" and lp: "list_part c xs R pos" and dp: "deliv_part c xs R pos D"
    and wp: "writer_part ops c" and hp: "held_part ops c pos D"
    using inv by (auto simp: sq_inv_def)
  note L = list_partD [OF lp] and rw = ring_partD [OF rp]
  have xl: "x \<in> set xs" using x(1) L(3) by simp
  have s: "s = set_isDone x False (set_isEmpty x True (sq c))"
    using removeSlot_ok [OF rw(1) L(9) [OF xl] L(8) [OF xl]] r by (cases "pos x - R < liveCount (sq c)") auto
  note fp = flag_parts [OF rp lp wp, where c' = ?c, simplified, OF s]
  have pe: "pending ?c y = pending c y" for y using x by (auto simp: pending_def s)
  have "deliv_part ?c xs R pos D" by (rule deliv_same [OF dp]) (simp_all add: pe)
  moreover have "y \<noteq> x" if "held c y = Some u" for y u
    using hp that x by (cases u) (auto simp: held_part_def)
  then have "held_part ops ?c pos D" using hp by (auto simp: held_part_def s)
  ultimately show ?thesis using fp by (simp add: sq_inv_def)
qed

lemma Take_inv:
  assumes inv: "sq_inv ops c xs R pos D" and x: "listed c x" "\<not> finished c x \<or> x \<in> moved c"
    and r: "removeSlot x (sq c) = Inr (p, s)" "p \<noteq> NullEntry" "deref ops p (dataEntries s) = Inr e"
  shows "sq_inv ops (c\<lparr>sq := s, moved := moved c - {x}, delivered := delivered c @ [(x, e)],
      held := (held c)(x \<mapsto> (p, e))\<rparr>) xs R pos (D @ [pos x])"
proof -
  let ?c = "c\<lparr>sq := s, moved := moved c - {x}, delivered := delivered c @ [(x, e)], held := (held c)(x \<mapsto> (p, e))\<rparr>"
  have rp: "ring_part ops c R D" and lp: "list_part c xs R pos" and dp: "deliv_part c xs R pos D"
    and wp: "writer_part ops c" and hp: "held_part ops c pos D"
    using inv by (auto simp: sq_inv_def)
  note L = list_partD [OF lp] and rw = ring_partD [OF rp]
  have xl: "x \<in> set xs" and px: "pending c x" using x L(3) by (auto simp: pending_def)
  let ?k = "pos x - R"
  note ok = removeSlot_ok [OF rw(1) L(9) [OF xl] L(8) [OF xl]]
  have k: "?k < liveCount (sq c)" using ok(1) r(1,2) by (cases "?k < liveCount (sq c)") auto
  have s: "s = set_isDone x True (set_isEmpty x False (sq c))"
    and q: "queueData (sq c) ! nat (slotAt (sq c) ?k) = Some p" and e: "e = contents ops (sq c) ! ?k"
    using ok(2) [OF k] r by auto
  have pW: "pos x < length (accepted c)" using k rw(6) by simp
  have nD: "pos x \<notin> set D" using dp px by (simp add: deliv_part_def)
  have ev: "e = accepted c ! pos x" using e rw(5) [OF k] nD L(7) [OF xl] by simp
  note fp = flag_parts [OF rp lp wp, where c' = ?c, simplified, OF s]
  have pe: "pending ?c y \<longleftrightarrow> pending c y \<and> y \<noteq> x" for y using x by (auto simp: pending_def s)
  have "deliv_part ?c xs R pos (D @ [pos x])" by (rule deliv_take [OF dp px pW _ _ pe]) (simp_all add: ev)
  moreover have ne: "y \<noteq> x" "pos y \<in> set D" if "held c y = Some u" for y u
    using hp that x by (cases u, auto simp: held_part_def)+
  have "held_part ops ?c pos (D @ [pos x])"
    unfolding held_part_def
  proof (intro conjI allI impI)
    have "inj_on pos (dom (held c))" using hp by (simp add: held_part_def)
    moreover have "pos x \<notin> pos ` dom (held c)" using ne(2) nD by fastforce
    ultimately show "inj_on pos (dom (held ?c))" by (simp add: inj_on_insert) blast
  qed (use hp ne r(3) q xl L(3) L(9) [OF xl] in \<open>auto simp: held_part_def s split: if_splits\<close>)
  moreover have "ring_part ops ?c R (D @ [pos x])" by (rule ring_part_mono [OF fp(1)]) auto
  ultimately show ?thesis using fp by (simp add: sq_inv_def)
qed

text \<open>A reader changes the entry it is using: its position is delivered, and no other reference names its slot.\<close>

lemma held_distinct:
  assumes inv: "sq_inv ops c xs R pos D" and h: "held c x = Some (p, e)" "held c y = Some (p', e')" and ne: "x \<noteq> y"
  shows "p \<noteq> p'"
proof -
  have rp: "ring_part ops c R D" and lp: "list_part c xs R pos" and hp: "held_part ops c pos D"
    using inv by (auto simp: sq_inv_def)
  note X = held_slot [OF inv h(1)] and Y = held_slot [OF inv h(2)] and ring = ring_partD(2) [OF rp]
  have "pos x \<noteq> pos y" using hp h ne by (auto simp: held_part_def inj_on_def)
  then have "slotAt (sq c) (pos x - R) \<noteq> slotAt (sq c) (pos y - R)"
    using slotAt_inj [OF ring list_partD(8) [OF lp X(1)] list_partD(8) [OF lp Y(1)]] X(7) Y(7) by (metis eq_diff_iff)
  then have "nat (slotAt (sq c) (pos x - R)) \<noteq> nat (slotAt (sq c) (pos y - R))"
    using slotAt_range(1) [OF ring] by (metis eq_nat_nat_iff)
  then show ?thesis using X(9) Y(9) by auto
qed

lemma Change_inv:
  assumes inv: "sq_inv ops c xs R pos D" and h: "held c x = Some (p, e)" and t: "same_type ops e e'"
    and w: "writeRef p e' (dataEntries (sq c)) = Inr d"
  shows "sq_inv ops (c\<lparr>sq := (sq c)\<lparr>dataEntries := d\<rparr>, held := (held c)(x \<mapsto> (p, e'))\<rparr>) xs R pos D"
proof -
  let ?s = "(sq c)\<lparr>dataEntries := d\<rparr>" and ?c = "c\<lparr>sq := (sq c)\<lparr>dataEntries := d\<rparr>, held := (held c)(x \<mapsto> (p, e'))\<rparr>"
  have rp: "ring_part ops c R D" and lp: "list_part c xs R pos" and dp: "deliv_part c xs R pos D"
    and wp: "writer_part ops c" and hp: "held_part ops c pos D"
    using inv by (auto simp: sq_inv_def)
  note X = held_slot [OF inv h] and rw = ring_partD [OF rp]
  obtain d' where d': "writeRef p e' (dataEntries (sq c)) = Inr d'" "rwq_inv ops ((sq c)\<lparr>dataEntries := d'\<rparr>)"
    "p \<noteq> NullEntry \<longrightarrow> deref ops p d' = Inr e'"
    "\<forall>p'. p' \<noteq> p \<longrightarrow> deref ops p' d' = deref ops p' (dataEntries (sq c))"
    "\<forall>i. queueData (sq c) ! nat i \<noteq> Some p \<longrightarrow> slotValue ops ((sq c)\<lparr>dataEntries := d'\<rparr>) i = slotValue ops (sq c) i"
    "\<forall>v. stored ops (sq c) v \<and> queueData (sq c) ! nat (writeIndex (sq c)) \<noteq> Some p \<longrightarrow> stored ops ((sq c)\<lparr>dataEntries := d'\<rparr>) v"
    by (rule write_ring [OF rw(1) X(6) t])
  have d: "d' = d" using d'(1) w by simp
  obtain a m where p: "data_ok ops (currentSize (sq c)) a (dataEntries (sq c))" "p = Cell a (nat (slotAt (sq c) (pos x - R))) m"
    using X(9) by blast
  have other: "queueData (sq c) ! nat (slotAt (sq c) k) \<noteq> Some p" if k: "slot_ok b (sq c) (slotAt (sq c) k)" "k \<noteq> pos x - R" "int k < ring_size (sq c)" for k b
  proof -
    have "slotAt (sq c) k \<noteq> slotAt (sq c) (pos x - R)"
      using slotAt_inj [OF rw(2) k(3) list_partD(8) [OF lp X(1)]] k(2) by blast
    then have "nat (slotAt (sq c) k) \<noteq> nat (slotAt (sq c) (pos x - R))"
      using slotAt_range(1) [OF rw(2)] by (metis eq_nat_nat_iff)
    then show ?thesis using k(1) p(2) by (auto simp: slot_ok_def)
  qed
  have "contents ops ?s ! k = accepted c ! (R + k)" if k: "k < liveCount (sq c)" "R + k \<notin> set D" for k
  proof -
    have ne: "k \<noteq> pos x - R" using k(2) X(7,8) by auto
    have "int k < ring_size (sq c)" using k(1) liveCount_less [OF rw(2)] by linarith
    moreover have "\<exists>b. slot_ok b (sq c) (slotAt (sq c) k)" using rw(1) k(1) by (auto simp: rwq_inv_def)
    ultimately have "queueData (sq c) ! nat (slotAt (sq c) k) \<noteq> Some p" using other ne by blast
    then have "slotValue ops ?s (slotAt ?s k) = slotValue ops (sq c) (slotAt (sq c) k)" using d'(5) d by (simp add: write_fields)
    then show ?thesis using rw(5) [OF k] k(1) by (simp add: contents_nth write_fields)
  qed
  then have "ring_part ops ?c R D" using rp d'(2) d by (simp add: ring_part_def write_fields)
  moreover have "list_part ?c xs R pos" using lp rlist_ok_cong [of ?s "sq c"] by (simp add: list_part_def write_fields)
  moreover have "deliv_part ?c xs R pos D" by (rule deliv_same [OF dp]) (simp_all add: pending_def)
  moreover have "stored ops ?s v" if st: "stored ops (sq c) v" for v
  proof -
    have wi: "writeIndex (sq c) = slotAt (sq c) (liveCount (sq c))" by (simp add: slotAt_liveCount [OF rw(2)])
    obtain b where "slot_ok b (sq c) (writeIndex (sq c))" using st by (auto simp: stored_def)
    then have "queueData (sq c) ! nat (writeIndex (sq c)) \<noteq> Some p"
      using other [of b "liveCount (sq c)"] X(3) liveCount_less [OF rw(2)] unfolding wi by auto
    then show ?thesis using d'(6) st d by blast
  qed
  then have "writer_part ops ?c" using wp by (auto simp: writer_part_def write_fields split: writer_pc.splits)
  moreover have "deref ops p d = Inr e'" using d'(3) p(2) d by simp
  moreover have "deref ops p' d = Inr v \<and> y \<noteq> x" if "held c y = Some (p', v)" "y \<noteq> x" for y p' v
    using that held_distinct [OF inv h that(1)] held_slot(6) [OF inv that(1)] d'(4) d by metis
  then have "held_part ops ?c pos D"
    using hp h \<open>deref ops p d = Inr e'\<close> by (auto simp: held_part_def insert_absorb domI)
  ultimately show ?thesis by (simp add: sq_inv_def)
qed

lemma Peek_inv:
  assumes inv: "sq_inv ops c xs R pos D"
  shows "sq_inv ops (c\<lparr>sq := snd (SyncQueue_isEmpty x (sq c))\<rparr>) xs R pos D"
proof -
  let ?c = "c\<lparr>sq := snd (SyncQueue_isEmpty x (sq c))\<rparr>"
  obtain b where s: "snd (SyncQueue_isEmpty x (sq c)) = set_isEmpty x b (sq c)"
    by (simp add: SyncQueue_isEmpty_def Let_def)
  have same: "same_ring (sq c) (set_isEmpty x b (sq c))" by (simp add: same_ring_def)
  note sm = same_ringD [OF same]
  have "chain (readers (set_isEmpty x b (sq c))) xs = chain (readers (sq c)) xs" by (rule chain_cong_all) simp
  then have f: "rlist_ok (set_isEmpty x b (sq c)) xs = rlist_ok (sq c) xs" by (simp only: rlist_ok_def upd_reader_sel) simp
  have g: "stored ops (set_isEmpty x b (sq c)) e = stored ops (sq c) e" for e
    using sm(3,8,10) by (simp add: stored_def sm)
  have I: "ring_part ops c R D" "list_part c xs R pos" "deliv_part c xs R pos D" "writer_part ops c" "held_part ops c pos D"
    using inv by (auto simp: sq_inv_def)
  have "ring_part ops ?c R D" using I(1) sm unfolding s by (simp add: ring_part_def)
  moreover have "list_part ?c xs R pos" using I(2) sm f unfolding s by (simp add: list_part_def)
  moreover have "writer_part ops ?c" using I(4) sm g unfolding s by (auto simp: writer_part_def split: writer_pc.splits)
  moreover have "deliv_part ?c xs R pos D" using I(3) unfolding s by (simp add: deliv_part_def pending_def)
  moreover have "held_part ops ?c pos D" using I(5) unfolding s by (simp add: held_part_def)
  ultimately show ?thesis by (simp add: sq_inv_def)
qed

lemma Handled_inv:
  assumes "sq_inv ops c xs R pos D"
  shows "sq_inv ops (c\<lparr>held := (held c)(x := None)\<rparr>) xs R pos D"
proof -
  have "writer_part ops (c\<lparr>held := (held c)(x := None)\<rparr>)"
    using assms by (simp add: sq_inv_def writer_part_def split: writer_pc.splits)
  then show ?thesis
    using assms by (auto simp: sq_inv_def ring_part_def list_part_def deliv_part_def held_part_def pending_def
        intro: inj_on_subset)
qed

lemma Reject_inv:
  assumes inv: "sq_inv ops c xs R pos D" and ins: "insertEntry ops e (sq c) = Inr (False, s)"
  shows "sq_inv ops (c\<lparr>sq := s, wpc := WIdle\<rparr>) xs R pos D"
proof -
  have rw: "rwq_inv ops (sq c)" using inv by (auto simp: sq_inv_def ring_part_def)
  then obtain a where d: "data_ok ops (currentSize (sq c)) a (dataEntries (sq c))" by (auto simp: rwq_inv_def)
  have "\<not> storable ops e m" for m
    using store_ok [OF rw, of e m] ins by (metis Pair_inject sum.inject(2))
  from insertEntry_refused [OF d this] ins have "s = sq c" by simp
  then show ?thesis using inv by (simp add: sq_inv_def sq_parts pending_def)
qed

end

section \<open>Readers come and go\<close>

text \<open>The parts of the invariant after a list operation that changed the flags of \<open>x\<close>, who holds nothing.\<close>

lemma held_flags:
  assumes hp: "held_part ops c pos D" and fr: "list_frame (sq c) s" and fl: "flags_set (sq c) x d v q s"
    and x: "held c x = None"
    and idx: "\<And>y. held c y \<noteq> None \<Longrightarrow> rd_index s y = rd_index (sq c) y \<and> pos' y = pos y"
  shows "held_part ops (c\<lparr>sq := s\<rparr>) pos' D"
proof -
  have ne: "y \<noteq> x" if "held c y = Some u" for y u using that x by auto
  have "inj_on pos' (dom (held c)) \<longleftrightarrow> inj_on pos (dom (held c))"
    by (rule inj_on_cong) (use idx in auto)
  then show ?thesis
    using hp ne idx fl list_frameD(1,2) [OF fr] by (auto simp: held_part_def flags_set_def)
qed

lemma start_first_inv:
  assumes inv: "sq_inv ops c [] R pos D" and x: "\<not> listed c x" and fl: "flags_set (sq c) x False True True s"
    and post: "rl_post (sq c) \<lparr>order = [x], slot = (rd_index (sq c))(x := readIndex (sq c)), rindex = readIndex (sq c)\<rparr> s"
  shows "sq_inv ops (c\<lparr>sq := s\<rparr>) [x] R (pos(x := R)) D"
proof -
  let ?c = "c\<lparr>sq := s\<rparr>"
  have rp: "ring_part ops c R D" and lp: "list_part c [] R pos" and dp: "deliv_part c [] R pos D"
    and wp: "writer_part ops c" and hp: "held_part ops c pos D"
    using inv by (auto simp: sq_inv_def)
  note L = list_partD [OF lp] and rw = ring_partD [OF rp]
  have p: "rlist_ok s [x]" "list_frame (sq c) s" "readIndex s = readIndex (sq c)" "rd_index s x = readIndex (sq c)"
    using post unfolding rl_post_def rl_abs_def by (auto simp: fun_eq_iff)
  have ri: "readIndex (sq c) = slotAt (sq c) 0" using ring_okD(5,6) [OF rw(2)] by (simp add: slotAt_def)
  have mv: "ring_part ops ?c R D" "list_part ?c [x] R (pos(x := R))" "writer_part ops c \<Longrightarrow> writer_part ops ?c"
    by (rule list_move [OF rp, where c' = ?c and xs' = "[x]" and pos' = "pos(x := R)" and R' = R];
        use p ri L(4) rw(3,4) in auto)+
  have pe: "pending ?c y \<longleftrightarrow> y = x" for y
    using fl L(3,4) by (auto simp: pending_def flags_set_def)
  have "set D = {..<R}" using dp L(3) by (auto simp: deliv_part_def claimed_def pending_def)
  then have "deliv_part ?c [x] R (pos(x := R)) D"
    using dp by (auto simp: deliv_part_def claimed_def pe)
  moreover have "held c y = None" for y using hp L(3) by (cases "held c y") (auto simp: held_part_def)
  then have "held_part ops ?c (pos(x := R)) D" using p(2) fl by (intro held_flags [OF hp]) auto
  ultimately show ?thesis using mv wp by (simp add: sq_inv_def)
qed

lemma start_front_inv:
  assumes inv: "sq_inv ops c xs R pos D" and ne: "xs \<noteq> []" and x: "\<not> listed c x"
    and sp: "\<not> spans (ring_size (sq c)) (rl_abs (sq c) xs)" and fl: "flags_set (sq c) x False True True s"
    and post: "rl_post (sq c) \<lparr>order = xs @ [x],
      slot = (rd_index (sq c))(x := (rd_index (sq c) (last xs) + 1) mod ring_size (sq c)), rindex = readIndex (sq c)\<rparr> s"
  shows "sq_inv ops (c\<lparr>sq := s\<rparr>) (xs @ [x]) R (pos(x := Suc (pos (last xs)))) D"
proof -
  let ?c = "c\<lparr>sq := s\<rparr>" and ?F = "pos (last xs)" and ?n = "ring_size (sq c)"
  have rp: "ring_part ops c R D" and lp: "list_part c xs R pos" and dp: "deliv_part c xs R pos D"
    and wp: "writer_part ops c" and hp: "held_part ops c pos D"
    using inv by (auto simp: sq_inv_def)
  note L = list_partD [OF lp] and rw = ring_partD [OF rp]
  define pos' where "pos' = pos(x := Suc ?F)"
  have xl: "x \<notin> set xs" and lst: "last xs \<in> set xs" using x L(3) ne by auto
  have F: "R \<le> ?F" "int (Suc ?F) < int R + ?n"
    using sp spans_iff [OF rp lp ne] L(7,8) [OF lst] by auto
  have nx: "(rd_index (sq c) (last xs) + 1) mod ?n = slotAt (sq c) (Suc ?F - R)"
    using L(9) [OF lst] F(1) by (simp add: slotAt_def mod_simps algebra_simps Suc_diff_le)
  have p: "rlist_ok s (xs @ [x])" "list_frame (sq c) s" "readIndex s = readIndex (sq c)"
    "\<And>y. rd_index s y = (if y = x then slotAt (sq c) (Suc ?F - R) else rd_index (sq c) y)"
    using post nx unfolding rl_post_def rl_abs_def by (auto simp: fun_eq_iff)
  have ri: "readIndex s = slotAt (sq c) (R - R)" using p(3) ring_okD(5,6) [OF rw(2)] by (simp add: slotAt_def)
  have eq: "map pos' xs = map pos xs" using xl by (auto simp: pos'_def)
  have so: "sorted (map pos' (xs @ [x]))"
    using L(5) sorted_last [OF L(5)] xl by (auto simp: sorted_append eq pos'_def intro: le_SucI)
  have hd: "pos' (hd (xs @ [x])) = R" using L(6) [OF ne] ne xl hd_in_set [OF ne] by (auto simp: pos'_def)
  have b: "R \<le> pos' y \<and> int (pos' y) < int R + ?n \<and> rd_index s y = slotAt (sq c) (pos' y - R)"
    if "y \<in> set (xs @ [x])" for y
  proof (cases "y = x")
    case False
    then show ?thesis using that L(7-9) [of y] p(4) by (auto simp: pos'_def)
  qed (use F p(4) in \<open>simp add: pos'_def\<close>)
  have mvd: "moved c \<subseteq> set (xs @ [x])" using L(4) by auto
  note mv = list_move [OF rp, where c' = ?c, simplified, OF p(2,1) mvd so hd order.refl rw(4) ri b]
  have pe: "pending ?c y \<longleftrightarrow> y = x \<or> pending c y" for y
    using fl x L(4) xl by (auto simp: pending_def flags_set_def)
  have "deliv_part ?c (xs @ [x]) R pos' D"
    using x by (intro deliv_advance [OF lp dp ne _ pos'_def _ _ pe]) (auto simp: pending_def)
  moreover have "held c x = None" using hp x by (cases "held c x") (auto simp: held_part_def)
  then have "held_part ops ?c pos' D"
    by (intro held_flags [OF hp p(2) fl]) (auto simp: p(4) pos'_def)
  ultimately show ?thesis using mv wp unfolding sq_inv_def pos'_def [symmetric] by blast
qed

lemma start_behind_inv:
  assumes inv: "sq_inv ops c (ys @ [f]) R pos D" and ne: "ys \<noteq> []" and x: "\<not> listed c x"
    and fl: "flags_set (sq c) x True True True s"
    and post: "rl_post (sq c) \<lparr>order = ys @ [x, f],
      slot = (rd_index (sq c))(x := rd_index (sq c) (last ys)), rindex = readIndex (sq c)\<rparr> s"
  shows "sq_inv ops (c\<lparr>sq := s\<rparr>) (ys @ [x, f]) R (pos(x := pos (last ys))) D"
proof -
  let ?c = "c\<lparr>sq := s\<rparr>" and ?l = "last ys" and ?n = "ring_size (sq c)" and ?xs = "ys @ [f]" and ?xs' = "ys @ [x, f]"
  have rp: "ring_part ops c R D" and lp: "list_part c ?xs R pos" and dp: "deliv_part c ?xs R pos D"
    and wp: "writer_part ops c" and hp: "held_part ops c pos D"
    using inv by (auto simp: sq_inv_def)
  note L = list_partD [OF lp] and rw = ring_partD [OF rp]
  define pos' where "pos' = pos(x := pos ?l)"
  have xl: "x \<notin> set ?xs" and lst: "?l \<in> set ?xs" using x L(3) ne by auto
  have p: "rlist_ok s ?xs'" "list_frame (sq c) s" "readIndex s = readIndex (sq c)"
    "\<And>y. rd_index s y = (if y = x then rd_index (sq c) ?l else rd_index (sq c) y)"
    using post unfolding rl_post_def rl_abs_def by (auto simp: fun_eq_iff)
  have ri: "readIndex s = slotAt (sq c) (R - R)" using p(3) ring_okD(5,6) [OF rw(2)] by (simp add: slotAt_def)
  have eq: "map pos' ys = map pos ys" "pos' f = pos f" "pos' x = pos ?l" using xl by (auto simp: pos'_def)
  have "sorted (map pos ys)" using L(5) by (simp add: sorted_append)
  then have low: "pos y \<le> pos ?l" if "y \<in> set ys" for y using that by (rule sorted_last)
  have pys: "pos' y = pos y" if "y \<in> set ys" for y using that xl by (auto simp: pos'_def)
  have so: "sorted (map pos' ?xs')"
    using L(5) low ne by (auto simp: sorted_append eq pys)
  have hd: "pos' (hd ?xs') = R" using L(6) ne pys [OF hd_in_set [OF ne]] by simp
  have b: "R \<le> pos' y \<and> int (pos' y) < int R + ?n \<and> rd_index s y = slotAt (sq c) (pos' y - R)"
    if "y \<in> set ?xs'" for y
  proof (cases "y = x")
    case False
    then show ?thesis using that L(7-9) [of y] p(4) by (auto simp: pos'_def)
  qed (use L(7-9) [OF lst] p(4) in \<open>auto simp: pos'_def\<close>)
  have mvd: "moved c \<subseteq> set ?xs'" using L(4) by auto
  note mv = list_move [OF rp, where c' = ?c, simplified, OF p(2,1) mvd so hd order.refl rw(4) ri b]
  have pe: "pending ?c y = pending c y" for y
    using fl x L(4) xl by (auto simp: pending_def flags_set_def)
  have "deliv_part ?c ?xs' R pos' D"
    using x eq(2) by (intro deliv_same [OF dp _ _ pe]) (auto simp: claimed_def pos'_def pending_def)
  moreover have "held c x = None" using hp x by (cases "held c x") (auto simp: held_part_def)
  then have "held_part ops ?c pos' D"
    by (intro held_flags [OF hp p(2) fl]) (auto simp: p(4) pos'_def)
  ultimately show ?thesis using mv wp unfolding sq_inv_def pos'_def [symmetric] by blast
qed

lemma Start_inv:
  assumes inv: "sq_inv ops c xs R pos D" and x: "\<not> listed c x" and st: "startAccess x (sq c) = Inr s"
  shows "\<exists>xs' pos'. sq_inv ops (c\<lparr>sq := s\<rparr>) xs' R pos' D \<and> (\<forall>y. y \<noteq> x \<longrightarrow> pos' y = pos y)"
proof -
  have rp: "ring_part ops c R D" and lp: "list_part c xs R pos" using inv by (auto simp: sq_inv_def)
  note L = list_partD [OF lp]
  have xl: "x \<notin> set xs" using x L(3) by simp
  obtain late a where a: "spec_add (ring_size (sq c)) x (rl_abs (sq c) xs) = (late, a)" by fastforce
  from readerList_add_refines [OF L(1) slots_ok_inv [OF rp lp] xl a] st
  have fl: "flags_set (sq c) x late True True s" and post: "rl_post (sq c) a s" by (auto simp: startAccess_def)
  show ?thesis
  proof (cases "xs = []")
    case True
    then have "sq_inv ops (c\<lparr>sq := s\<rparr>) [x] R (pos(x := R)) D"
      using start_first_inv [of ops c R pos D x s] inv x fl post a by (auto simp: spec_add_def rl_abs_def)
    then show ?thesis by fastforce
  next
    case ne: False
    show ?thesis
    proof (cases "spans (ring_size (sq c)) (rl_abs (sq c) xs)")
      case False
      then have "sq_inv ops (c\<lparr>sq := s\<rparr>) (xs @ [x]) R (pos(x := Suc (pos (last xs)))) D"
        using start_front_inv [OF inv ne x False, of s] fl post a ne by (auto simp: spec_add_def rl_abs_def)
      then show ?thesis by fastforce
    next
      case True
      obtain ys f where xs: "xs = ys @ [f]" using ne by (cases xs rule: rev_cases) auto
      have "ys \<noteq> []" using spans_two [OF slots_ok_inv [OF rp lp] True ne] xs by auto
      then have "sq_inv ops (c\<lparr>sq := s\<rparr>) (ys @ [x, f]) R (pos(x := pos (last ys))) D"
        using start_behind_inv [OF inv [unfolded xs] _ x, of s] fl post a True xs
        by (auto simp: spec_add_def rl_abs_def)
      then show ?thesis by fastforce
    qed
  qed
qed

lemma rl_postD:
  assumes "rl_post s a s'"
  shows "rlist_ok s' (order a)" "list_frame s s'" "readIndex s' = rindex a" "rd_index s' y = slot a y"
proof -
  have a: "rl_abs s' (order a) = a" using assms by (simp add: rl_post_def)
  show "rlist_ok s' (order a)" "list_frame s s'" using assms by (simp_all add: rl_post_def)
  show "readIndex s' = rindex a" using arg_cong [OF a, of rindex] by (simp add: rl_abs_def)
  show "rd_index s' y = slot a y" using arg_cong [OF a, of slot] by (simp add: rl_abs_def fun_eq_iff)
qed

text \<open>What a waiting reader leaves behind: the front takes over its position.\<close>

lemma spec_remove_waiting:
  fixes n r :: int and sl :: "rid \<Rightarrow> int" and pos pos' :: "rid \<Rightarrow> nat"
  assumes d: "distinct xs" and x: "x \<in> set xs"
    and pos': "pos' = (if x = last xs then pos else pos(last xs := pos x))"
  defines "a \<equiv> spec_remove n False x \<lparr>order = xs, slot = sl, rindex = r\<rparr>"
  shows "map pos' (order a) = map pos (butlast xs)" "set (order a) = set xs - {x}" "rindex a = r"
    "slot a y = (if x \<noteq> last xs \<and> y = last xs then sl x else sl y)"
proof -
  obtain ys f where xs: "xs = ys @ [f]" using x by (cases xs rule: rev_cases) auto
  show "rindex a = r" "slot a y = (if x \<noteq> last xs \<and> y = last xs then sl x else sl y)"
    by (simp_all add: a_def spec_remove_def Let_def)
  have o: "order a = (if x = f then ys else map (\<lambda>y. if y = x then f else y) ys)"
    using xs by (simp add: a_def spec_remove_def Let_def)
  show "map pos' (order a) = map pos (butlast xs)" using d xs pos' o by auto
  show "set (order a) = set xs - {x}" using d xs x o by auto
qed

text \<open>
  A drained queue: every entry was delivered, and the readers wait at consecutive unwritten slots from the
  write index on.
\<close>

lemma drained:
  assumes inv: "sq_inv ops c xs R pos D" and m: "moved c = {}" and u: "\<And>y. listed c y \<Longrightarrow> \<not> finished c y"
    and b: "rl_back (sq c) = Some b" and e: "fst (SyncQueue_isEmpty b (sq c))"
  shows "R = length (accepted c)" "set D = {..<R}" "map pos xs = [R..<R + length xs]"
proof -
  have rp: "ring_part ops c R D" and lp: "list_part c xs R pos" and dp: "deliv_part c xs R pos D"
    using inv by (auto simp: sq_inv_def)
  note L = list_partD [OF lp] and rw = ring_partD [OF rp]
  have ne: "xs \<noteq> []" and hd: "hd xs = b" using L(1) b by (auto simp: rlist_ok_def split: if_splits)
  then have bx: "b \<in> set xs" "pos b = R" using L(6) by auto
  have "liveCount (sq c) \<le> pos b - R"
    using SyncQueue_isEmpty_iff [OF rw(2) L(9) [OF bx(1)] L(8) [OF bx(1)]] e by simp
  then show R: "R = length (accepted c)" using rw(4,6) bx(2) by simp
  have pe: "pending c x \<longleftrightarrow> x \<in> set xs" for x using u L(3) m by (auto simp: pending_def)
  have cl: "claimed xs R pos p \<longleftrightarrow> p \<le> pos (last xs)" for p using ne by (simp add: claimed_def)
  have DR: "p < R" if "p \<in> set D" for p using dp that R by (auto simp: deliv_part_def)
  have RF: "R \<le> pos (last xs)" using L(7) ne by auto
  have cov: "p \<le> pos (last xs) \<longleftrightarrow> p \<in> set D \<or> p \<in> pos ` set xs" for p
    using dp cl pe by (auto simp: deliv_part_def image_iff)
  have low: "R \<le> p" if "p \<in> pos ` set xs" for p using that L(7) by auto
  show D: "set D = {..<R}"
  proof (rule set_eqI)
    show "p \<in> set D \<longleftrightarrow> p \<in> {..<R}" for p using cov [of p] DR [of p] low [of p] RF by auto
  qed
  have "pos ` set xs = {R..<Suc (pos (last xs))}"
  proof (rule set_eqI)
    show "p \<in> pos ` set xs \<longleftrightarrow> p \<in> {R..<Suc (pos (last xs))}" for p
      using cov [of p] D low [of p] by (auto simp: less_Suc_eq_le)
  qed
  moreover have "distinct (map pos xs)"
    using dp L(2) pe by (simp add: deliv_part_def distinct_map)
  ultimately have "map pos xs = [R..<Suc (pos (last xs))]"
    using L(5) by (intro sorted_distinct_set_unique) (auto simp del: upt_Suc)
  moreover from arg_cong [OF this, of length] have "Suc (pos (last xs)) = R + length xs" using RF by simp
  ultimately show "map pos xs = [R..<R + length xs]" by simp
qed

lemma claimed_upt:
  assumes "map pos xs = [R..<R + length xs]"
  shows "claimed xs R pos p \<longleftrightarrow> p < R + length xs"
proof (cases "xs = []")
  case False
  then obtain k where k: "length xs = Suc k" by (cases xs) auto
  have "pos (last xs) = last (map pos xs)" using False by (simp add: last_map)
  then show ?thesis using False k unfolding assms by (auto simp: claimed_def)
qed (simp add: claimed_def)

lemma End_inv:
  assumes inv: "sq_inv ops c xs R pos D" and x: "listed c x" and m: "moved c = {}"
    and u: "\<And>y. listed c y \<Longrightarrow> \<not> finished c y" and b: "rl_back (sq c) = Some b" "fst (SyncQueue_isEmpty b (sq c))"
    and en: "endAccess x (sq c) = Inr s"
  shows "\<exists>xs' pos'. sq_inv ops (c\<lparr>sq := s\<rparr>) xs' R pos' D"
proof -
  let ?c = "c\<lparr>sq := s\<rparr>" and ?n = "ring_size (sq c)"
  have rp: "ring_part ops c R D" and lp: "list_part c xs R pos" and dp: "deliv_part c xs R pos D"
    and wp: "writer_part ops c" and hp: "held_part ops c pos D"
    using inv by (auto simp: sq_inv_def)
  note L = list_partD [OF lp] and rw = ring_partD [OF rp]
  have dr: "R = length (accepted c)" "set D = {..<R}" "map pos xs = [R..<R + length xs]"
    by (rule drained [OF inv m u b]; assumption)+
  have xl: "x \<in> set xs" "\<not> finished c x" using x L(3) u by auto
  define a where "a = spec_remove ?n False x (rl_abs (sq c) xs)"
  from readerList_remove_refines [OF L(1) slots_ok_inv [OF rp lp] xl(1)] xl(2) en
  have fl: "flags_set (sq c) x False False False s" and post: "rl_post (sq c) a s"
    by (auto simp: endAccess_def a_def)
  define pos' where "pos' = (if x = last xs then pos else pos(last xs := pos x))"
  have ord: "map pos' (order a) = map pos (butlast xs)" "set (order a) = set xs - {x}" "rindex a = readIndex (sq c)"
    "slot a y = (if x \<noteq> last xs \<and> y = last xs then rd_index (sq c) x else rd_index (sq c) y)" for y
    using spec_remove_waiting [OF L(2) xl(1), of pos' pos ?n "rd_index (sq c)" "readIndex (sq c)"]
    by (auto simp: a_def rl_abs_def pos'_def)
  have up: "map pos' (order a) = [R..<R + length (order a)]"
  proof -
    have "map pos (butlast xs) = butlast [R..<R + length xs]" using dr(3) by (simp add: map_butlast)
    also have "\<dots> = [R..<R + (length xs - 1)]" using xl by (cases xs rule: rev_cases) auto
    finally have "map pos' (order a) = [R..<R + (length xs - 1)]" using ord(1) by simp
    moreover from arg_cong [OF this, of length] have "length (order a) = length xs - 1" by simp
    ultimately show ?thesis by simp
  qed
  have p: "rlist_ok s (order a)" "list_frame (sq c) s" "readIndex s = readIndex (sq c)" "\<And>y. rd_index s y = slot a y"
    using rl_postD [OF post] ord(3) by simp_all
  have b': "R \<le> pos' y \<and> int (pos' y) < int R + ?n \<and> rd_index s y = slotAt (sq c) (pos' y - R)"
    if "y \<in> set (order a)" for y
    using that ord(2,4) L(7-9) [of y] L(7-9) [OF xl(1)] p(4) by (auto simp: pos'_def)
  have ri: "readIndex s = slotAt (sq c) (R - R)" using p(3) ring_okD(5,6) [OF rw(2)] by (simp add: slotAt_def)
  have hd: "pos' (hd (order a)) = R" if "order a \<noteq> []"
    using up that by (metis hd_map hd_upt length_greater_0_conv less_add_same_cancel1)
  have so: "sorted (map pos' (order a))" unfolding up by simp
  have mvd: "moved c \<subseteq> set (order a)" using m by simp
  note mv = list_move [OF rp, where c' = ?c, simplified, OF p(2,1) mvd so hd order.refl rw(4) ri b']
  have pe: "pending ?c y \<longleftrightarrow> y \<in> set (order a)" for y
    using fl u L(3) m ord(2) by (auto simp: pending_def flags_set_def)
  have "deliv_part ?c (order a) R pos' D"
    unfolding deliv_part_def claimed_upt [OF up] pe
  proof (intro conjI allI impI)
    have "distinct (map pos' (order a))" unfolding up by simp
    then show "inj_on pos' {y. y \<in> set (order a)}" by (simp add: distinct_map)
    have img: "pos' ` set (order a) = {R..<R + length (order a)}" using arg_cong [OF up, of set] by simp
    show "pos' y \<notin> set D" if "y \<in> set (order a)" for y
      using imageI [OF that, of pos'] unfolding img dr(2) by simp
    have "(\<exists>y. y \<in> set (order a) \<and> pos' y = q) \<longleftrightarrow> R \<le> q \<and> q < R + length (order a)" for q
      using img by (metis atLeastLessThan_iff image_iff)
    then show "q < R + length (order a) \<longleftrightarrow> q \<in> set D \<or> (\<exists>y. y \<in> set (order a) \<and> pos' y = q)" for q
      unfolding dr(2) by auto
  qed (use dp in \<open>auto simp: deliv_part_def\<close>)
  moreover have "held c y = None" for y using hp u by (cases "held c y") (auto simp: held_part_def)
  then have "held_part ops ?c pos' D" by (intro held_flags [OF hp p(2) fl]) auto
  ultimately have "sq_inv ops ?c (order a) R pos' D" using mv wp unfolding sq_inv_def by blast
  then show ?thesis by blast
qed

section \<open>Growth and the invariant of all steps\<close>

context entry_class
begin

lemma Grow_inv:
  assumes inv: "sq_inv ops c xs R pos D" and w: "wpc c = WIdle" and m: "moved c = {}" and h: "held c = Map.empty"
    and g: "currentSize (sq c) < size'" "uint size' \<le> 1073741824" "growth_ok (sq c) size'"
    and fuel: "card {x. listed c x} < fuel" and s: "SyncQueue_resize fuel ops size' (sq c) = Inr s"
  shows "sq_inv ops (c\<lparr>sq := s\<rparr>) xs R pos D"
proof -
  let ?c = "c\<lparr>sq := s\<rparr>"
  have rp: "ring_part ops c R D" and lp: "list_part c xs R pos" and dp: "deliv_part c xs R pos D"
    using inv by (auto simp: sq_inv_def)
  note L = list_partD [OF lp] and rw = ring_partD [OF rp]
  have "{x. listed c x} = set xs" using L(3) by auto
  then have len: "length xs < fuel" using fuel L(2) by (simp add: distinct_card)
  have sl: "int (pos x - R) < ring_size (sq c) \<and> rd_index (sq c) x = slotAt (sq c) (pos x - R)" if "x \<in> set xs" for x
    using L(8,9) [OF that] by blast
  obtain s' where s': "SyncQueue_resize fuel ops size' (sq c) = Inr s'" "rwq_inv ops s'"
    "contents ops s' = contents ops (sq c)" "rlist_ok s' xs" "currentSize s' = size'" "flags_frame (sq c) s'"
    "liveCount s' = liveCount (sq c)"
    "\<forall>x \<in> set xs. rd_index s' x = slotAt s' (pos x - R)"
    using SyncQueue_resize_ok [OF rw(1) L(1) len g sl] by blast
  then have eq: "s = s'" using s by simp
  have lt: "ring_size (sq c) < uint size'" using g(1) by (simp add: word_less_def)
  have "ring_part ops ?c R D" using rp s' eq lt by (simp add: ring_part_def)
  moreover have "list_part ?c xs R pos"
    using lp s' eq lt L(7) m by (auto simp: list_part_def)
  moreover have "deliv_part ?c xs R pos D"
    using s'(6) eq by (intro deliv_same [OF dp]) (simp_all add: pending_def flags_frame_def)
  ultimately show ?thesis using w h by (simp add: sq_inv_def writer_part_def held_part_def)
qed

lemma init_inv:
  assumes "2 \<le> uint n" and "uint n \<le> 1073741824"
  shows "sq_inv ops (sq_init ops n d sync ids) [] 0 (\<lambda>_. 0) []"
proof -
  have "n \<noteq> 0" using assms(1) by auto
  note new = rwq_inv_new [OF this assms(2), of d False]
  let ?s = "SyncQueue_new ops n d sync (\<lambda>x. ReaderIndex_init (ids x))"
  have "same_ring (ReaderWriterQueue_new ops n d False) ?s"
    by (simp add: same_ring_def SyncQueue_new_def SyncWriterQueue_new_def ReaderWriterQueue_new_def
        SyncWriterQueue.defs ReaderWriterQueue.defs)
  note sm = same_ringD [OF this]
  have "rlist_ok ?s []" "\<And>x. \<not> ri_inQueue (readers ?s x)"
    by (simp_all add: rlist_ok_def SyncQueue_new_def SyncWriterQueue.defs ReaderIndex_init_def)
  moreover have "currentSize ?s = n" using sm(3) by (simp add: ReaderWriterQueue_new_def)
  moreover have "liveCount ?s = 0" using new(2) sm(11) length_contents [of ops ?s] by simp
  ultimately show ?thesis
    using new sm assms
    by (simp add: sq_inv_def sq_parts sq_init_def pending_def claimed_def)
qed

theorem sq_step_inv:
  assumes "sq_step ops c c'" and "sq_inv ops c xs R pos D"
  shows "\<exists>xs' R' pos' D'. sq_inv ops c' xs' R' pos' D'"
  using assms
proof (induction rule: sq_step.induct)
  case (Test c n e)
  then show ?case using Test_inv by blast
next
  case (Store c e n s)
  then show ?case using Store_inv by blast
next
  case (Reject c e n s)
  then show ?case using Reject_inv by blast
next
  case (Publish c e n)
  then show ?case using Publish_inv by blast
next
  case (Start c x s)
  then show ?case using Start_inv by blast
next
  case (Move c x b s)
  then show ?case using Move_inv by blast
next
  case (Look c x s)
  then show ?case using Look_inv by blast
next
  case (Take c x p s e)
  then show ?case using Take_inv by blast
next
  case (Peek c x)
  then show ?case using Peek_inv by blast
next
  case (Change c x p e e' d)
  then show ?case using Change_inv by blast
next
  case (Handled c x)
  then show ?case using Handled_inv by blast
next
  case (Grow c size' fuel s)
  then show ?case using Grow_inv by blast
next
  case (End c x b s)
  from End_inv [OF End.prems End.hyps(1,2) _ End.hyps(4,5,6)] End.hyps(3) show ?case by blast
qed

lemma sq_reach_keeps:
  "sq_reach ops c c' \<Longrightarrow> \<exists>xs R pos D. sq_inv ops c xs R pos D \<Longrightarrow> \<exists>xs R pos D. sq_inv ops c' xs R pos D"
  by (induction rule: sq_reach.induct) (blast dest: sq_step_inv)+

theorem sq_reach_inv:
  assumes "sq_reach ops (sq_init ops n d sync ids) c" and "2 \<le> uint n" "uint n \<le> 1073741824"
  shows "\<exists>xs R pos D. sq_inv ops c xs R pos D"
  using sq_reach_keeps [OF assms(1)] init_inv [OF assms(2,3)] by blast

end

end
