(* ===== verification/Sync_Properties.thy ===== *)
theory Sync_Properties
  imports Sync_Protocol Ring_Properties "HOL-Library.Multiset"
begin

text \<open>
  The correctness properties of the multi-reader queue: what every interleaving of one writer and any
  number of readers guarantees, stated for the repository's entry types, and that the calls of the code
  are runs of the state machine.
\<close>

section \<open>Lemmas\<close>

context entry_class
begin

lemma contents_not_null:
  assumes inv: "rwq_inv ops q" and k: "k < liveCount q"
  shows "\<not> isNull ops (contents ops q ! k)"
proof -
  from inv obtain a where ring: "ring_ok q" and d: "data_ok ops (currentSize q) a (dataEntries q)"
    and live: "slot_ok a q (slotAt q k)" using k by (auto simp: rwq_inv_def)
  obtain m where "storable ops (slotValue ops q (slotAt q k)) m"
    by (rule slot_ok_value [OF live d slotAt_range [OF ring]])
  then show ?thesis using k stored_not_null by (simp add: contents_nth)
qed

lemma well_typed:
  assumes inv: "sq_inv ops c xs R pos D"
  obtains a cs where "queueDataEntries (dataEntries (sq c)) = Some a" and "arrays (dataEntries (sq c)) a = Some cs"
    and "length cs = unat (currentSize (sq c))" and "\<forall>cell \<in> set cs. cell_ok ops cell"
    and "\<forall>x p e. held c x = Some (p, e) \<longrightarrow> (\<exists>i m. p = Cell a i m \<and> i < length cs \<and> storable ops e m)"
proof -
  have rp: "ring_part ops c R D" using inv by (auto simp: sq_inv_def)
  note rw = ring_partD [OF rp]
  obtain a where d: "data_ok ops (currentSize (sq c)) a (dataEntries (sq c))" using rw(1) by (auto simp: rwq_inv_def)
  then obtain cs where cs: "queueDataEntries (dataEntries (sq c)) = Some a" "arrays (dataEntries (sq c)) a = Some cs"
    "length cs = unat (currentSize (sq c))" "\<forall>cell \<in> set cs. cell_ok ops cell" by (auto simp: data_ok_def)
  have "\<exists>i m. p = Cell a i m \<and> i < length cs \<and> storable ops e m" if h: "held c x = Some (p, e)" for x p e
  proof -
    note X = held_slot [OF inv h]
    obtain m where m: "p = Cell a (nat (slotAt (sq c) (pos x - R))) m" using X(9) cs(1) by (auto simp: data_ok_def)
    have i: "nat (slotAt (sq c) (pos x - R)) < length cs"
      using nat_less_unat [OF slotAt_range [OF rw(2)]] cs(3) by simp
    then have "(cs ! nat (slotAt (sq c) (pos x - R))) m = e" using X(6) cs(2) m by (simp add: deref_def)
    then have "storable ops e m" using cs(4) i by (auto simp: cell_ok_def)
    then show ?thesis using m i by blast
  qed
  then show thesis using that [OF cs] by blast
qed

text \<open>A call of \<^verbatim>\<open>removeSlot\<close> by a listed reader returns the null entry, or a reference that reads an entry.\<close>

lemma look_total:
  assumes inv: "sq_inv ops c xs R pos D" and x: "listed c x"
  obtains p s e where "removeSlot x (sq c) = Inr (p, s)" and "deref ops p (dataEntries s) = Inr e"
    and "isNull ops e \<longleftrightarrow> p = NullEntry"
proof -
  have rp: "ring_part ops c R D" and lp: "list_part c xs R pos" using inv by (auto simp: sq_inv_def)
  note L = list_partD [OF lp] and rw = ring_partD [OF rp]
  have "x \<in> set xs" using x L(3) by simp
  note ok = removeSlot_ok [OF rw(1) L(9,8) [OF this]]
  show thesis
  proof (cases "pos x - R < liveCount (sq c)")
    case True
    from ok(2) [OF this] show thesis using that contents_not_null [OF rw(1) True] by auto
  next
    case False
    have "deref ops NullEntry (dataEntries (set_isDone x False (set_isEmpty x True (sq c)))) = Inr (nullEntry ops)"
      by (simp add: deref_def)
    with False show thesis using ok(1) that null_is_null by auto
  qed
qed

lemma reach_trans: "sq_reach ops b c \<Longrightarrow> sq_reach ops a b \<Longrightarrow> sq_reach ops a c"
  by (induction rule: sq_reach.induct) (auto intro: sq_reach.intros)

lemma look_steps:
  assumes inv: "sq_inv ops c xs R pos D" and x: "listed c x" "\<not> finished c x \<or> x \<in> moved c"
  obtains p s e c' where "removeSlot x (sq c) = Inr (p, s)" and "sq_step ops c c'" and "sq c' = s"
    and "moved c' = moved c - {x}" and "deref ops p (dataEntries s) = Inr e" and "isNull ops e \<longleftrightarrow> p = NullEntry"
    and "delivered c' = delivered c @ (if p = NullEntry then [] else [(x, e)])"
    and "held c' = (if p = NullEntry then held c else (held c)(x \<mapsto> (p, e)))"
proof -
  obtain p s e where r: "removeSlot x (sq c) = Inr (p, s)" and e: "deref ops p (dataEntries s) = Inr e"
    "isNull ops e \<longleftrightarrow> p = NullEntry" by (rule look_total [OF inv x(1)])
  show thesis
  proof (cases "p = NullEntry")
    case True
    show thesis using sq_step.Look [OF x r [unfolded True]] True
      by (intro that [OF r _ _ _ e, of "c\<lparr>sq := s, moved := moved c - {x}\<rparr>"]) auto
  next
    case False
    show thesis using sq_step.Take [OF x r False e(1)] False by (intro that [OF r _ _ _ e]) auto
  qed
qed

text \<open>A call of \<^verbatim>\<open>remove\<close> by a listed reader never faults, and is one or two steps.\<close>

lemma remove_steps:
  assumes inv: "sq_inv ops c xs R pos D" and x: "listed c x" "x \<notin> moved c" "held c x = None"
  shows "\<exists>p s e c'. SyncQueue_remove x (sq c) = Inr (p, s) \<and> sq_reach ops c c' \<and> sq c' = s \<and> moved c' = moved c \<and>
    deref ops p (dataEntries s) = Inr e \<and> (isNull ops e \<longleftrightarrow> p = NullEntry) \<and>
    delivered c' = delivered c @ (if p = NullEntry then [] else [(x, e)]) \<and>
    held c' = (if p = NullEntry then held c else (held c)(x \<mapsto> (p, e)))"
proof (cases "finished c x")
  case False
  obtain p s e c' where "removeSlot x (sq c) = Inr (p, s)" "sq_step ops c c'" "sq c' = s" "moved c' = moved c - {x}"
    "deref ops p (dataEntries s) = Inr e" "isNull ops e \<longleftrightarrow> p = NullEntry"
    "delivered c' = delivered c @ (if p = NullEntry then [] else [(x, e)])"
    "held c' = (if p = NullEntry then held c else (held c)(x \<mapsto> (p, e)))"
    by (rule look_steps [OF inv x(1) disjI1 [OF False]])
  then show ?thesis using False x(2)
    by (intro exI [of _ p] exI [of _ s] exI [of _ e] exI [of _ c']) (auto simp: SyncQueue_remove_def intro: sq_reach.intros)
next
  case True
  have rp: "ring_part ops c R D" and lp: "list_part c xs R pos" using inv by (auto simp: sq_inv_def)
  note L = list_partD [OF lp]
  obtain b a where "spec_moveToFront (ring_size (sq c)) x (rl_abs (sq c) xs) = (b, a)" by fastforce
  from moveToFront_refines [OF L(1) slots_ok_inv [OF rp lp] _ this] x(1) L(3)
  obtain s1 where m: "moveToFront x (sq c) = Inr (b, s1)" and fl: "flags_frame (sq c) s1" by blast
  let ?c1 = "c\<lparr>sq := s1, moved := (if b then insert x (moved c) else moved c)\<rparr>"
  have st: "sq_step ops c ?c1" by (rule sq_step.Move [OF x(1) True x(2,3) m])
  show ?thesis
  proof (cases b)
    case False
    have "deref ops NullEntry (dataEntries s1) = Inr (nullEntry ops)" by (simp add: deref_def)
    then show ?thesis
      using m True False st null_is_null
      by (intro exI [of _ NullEntry] exI [of _ s1] exI [of _ "nullEntry ops"] exI [of _ ?c1])
        (auto simp: SyncQueue_remove_def intro: sq_reach.intros)
  next
    case b: True
    have l1: "listed ?c1 x" "x \<in> moved ?c1" using fl x(1) b by (auto simp: flags_frame_def)
    obtain xs1 R1 pos1 where inv1: "sq_inv ops ?c1 xs1 R1 pos1 D" using Move_inv [OF inv x(1) True x(2,3) m] by blast
    obtain p s e c' where c': "removeSlot x (sq ?c1) = Inr (p, s)" "sq_step ops ?c1 c'" "sq c' = s"
      "moved c' = moved ?c1 - {x}" "deref ops p (dataEntries s) = Inr e" "isNull ops e \<longleftrightarrow> p = NullEntry"
      "delivered c' = delivered ?c1 @ (if p = NullEntry then [] else [(x, e)])"
      "held c' = (if p = NullEntry then held ?c1 else (held ?c1)(x \<mapsto> (p, e)))"
      by (rule look_steps [OF inv1 l1(1) disjI2 [OF l1(2)]])
    have "sq_reach ops c c'" by (rule sq_reach.Step [OF sq_reach.Step [OF sq_reach.Refl st] c'(2)])
    then show ?thesis using c' m True b x(2)
      by (intro exI [of _ p] exI [of _ s] exI [of _ e] exI [of _ c']) (auto simp: SyncQueue_remove_def)
  qed
qed

text \<open>Only entries that can be stored are accepted.\<close>

lemma accepted_storable_step:
  assumes "sq_step ops c c'" and "sq_inv ops c xs R pos D" and "\<forall>e \<in> set (accepted c). \<exists>m. storable ops e m"
  shows "\<forall>e \<in> set (accepted c'). \<exists>m. storable ops e m"
  using assms
proof (induction rule: sq_step.induct)
  case (Publish c e n)
  have st: "stored ops (sq c) e" and ring: "ring_ok (sq c)"
    using Publish ring_partD(2) [of ops c R D] by (auto simp: sq_inv_def writer_part_def)
  from st obtain a where a: "data_ok ops (currentSize (sq c)) a (dataEntries (sq c))" "slot_ok a (sq c) (writeIndex (sq c))"
    and e: "slotValue ops (sq c) (writeIndex (sq c)) = e" by (auto simp: stored_def)
  obtain m where "storable ops (slotValue ops (sq c) (writeIndex (sq c))) m"
    by (rule slot_ok_value [OF a(2,1) ring_okD(7,8) [OF ring]])
  then show ?case using Publish.prems e by auto
qed auto

lemma accepted_storable:
  assumes "sq_reach ops (sq_init ops n d sync ids) c" and "2 \<le> uint n" "uint n \<le> 1073741824"
  shows "\<forall>e \<in> set (accepted c). \<exists>m. storable ops e m"
proof -
  have "sq_reach ops c0 c \<Longrightarrow> c0 = sq_init ops n d sync ids \<Longrightarrow> \<forall>e \<in> set (accepted c). \<exists>m. storable ops e m" for c0
  proof (induction rule: sq_reach.induct)
    case (Refl c)
    then show ?case by (simp add: sq_init_def)
  next
    case (Step c0 c c')
    obtain xs R pos D where "sq_inv ops c xs R pos D" using sq_reach_inv [OF _ assms(2,3)] Step by blast
    then show ?case using accepted_storable_step [OF Step.hyps(2)] Step by blast
  qed
  from this [OF assms(1) refl] show ?thesis .
qed

text \<open>An accepted \<^verbatim>\<open>add\<close> is the test, the copy and the publication.\<close>

lemma add_accepted_steps:
  assumes inv: "sq_inv ops c xs R pos D" and w: "wpc c = WIdle" and m: "storable ops e m"
    and room: "int (liveCount (sq c)) \<noteq> ring_size (sq c) - 1"
  shows "\<exists>s. ReaderWriterQueue_add ops e (sq c) = Inr (writeIndex (sq c), s) \<and> readers s = readers (sq c) \<and>
    sq_reach ops c (c\<lparr>sq := s, accepted := accepted c @ [e]\<rparr>) \<and>
    sq_inv ops (c\<lparr>sq := s, accepted := accepted c @ [e]\<rparr>) xs R pos D"
proof -
  have rw: "rwq_inv ops (sq c)" "ring_ok (sq c)" using inv ring_partD(1,2) by (auto simp: sq_inv_def)
  let ?n = "(writeIndex (sq c) + 1) mod ring_size (sq c)"
  have n: "isFull (sq c) = Inr ?n" "?n \<noteq> IS_FULL" "\<not> ?n < 0"
    using isFull_eq [OF rw(2)] room next_slot_valid [OF rw(2)] by auto
  obtain q where q: "insertEntry ops e (sq c) = Inr (True, q)"
    "q = (sq c)\<lparr>queueData := queueData q, dataEntries := dataEntries q\<rparr>" by (rule store_ok [OF rw(1) m])
  have f: "writeIndex q = writeIndex (sq c)" "readers q = readers (sq c)" by (subst q(2), simp)+
  let ?t = "incrementAddedCount (stats q)"
  let ?s = "q\<lparr>writeIndex := ?n, stats := ?t\<rparr>"
  let ?c1 = "c\<lparr>wpc := WTested e ?n\<rparr>" and ?c2 = "c\<lparr>sq := q, wpc := WStored e ?n\<rparr>"
  let ?c3 = "c\<lparr>sq := ?s, accepted := accepted c @ [e]\<rparr>"
  let ?c4 = "c\<lparr>sq := ?s, accepted := accepted c @ [e], wpc := WIdle\<rparr>"
  have c3: "?c4 = ?c3" using w by (cases c) simp
  have "sq_step ops c ?c1" by (rule sq_step.Test [OF w n(1,2)])
  moreover have "sq_step ops ?c1 ?c2" using sq_step.Store [of ?c1 e ?n ops q] q(1) by simp
  moreover have "sq_step ops ?c2 ?c4" using sq_step.Publish [of ?c2 e ?n ops] by simp
  ultimately have "sq_reach ops c ?c4" by (meson sq_reach.Refl sq_reach.Step)
  then have "sq_reach ops c ?c3" by (rule back_subst) (rule c3)
  moreover have "sq_inv ops ?c2 xs R pos D"
    using Store_inv [OF Test_inv [OF inv n(1,2)], of e e ?n q] q(1) by simp
  from Publish_inv [OF this, of e ?n ?t] have "sq_inv ops ?c4 xs R pos D" by simp
  then have "sq_inv ops ?c3 xs R pos D" by (rule back_subst) (rule c3)
  moreover have "ReaderWriterQueue_add ops e (sq c) = Inr (writeIndex (sq c), ?s)"
    using n q(1) f by (simp add: ReaderWriterQueue_add_def tryInsert_def)
  ultimately show ?thesis using f by (intro exI [of _ ?s]) simp
qed

text \<open>Every call of \<^verbatim>\<open>add\<close> returns, and is a run of the state machine.\<close>

lemma add_steps:
  assumes inv: "sq_inv ops c xs R pos D" and w: "wpc c = WIdle"
  shows "\<exists>i s. ReaderWriterQueue_add ops e (sq c) = Inr (i, s) \<and>
    sq_reach ops c (c\<lparr>sq := s, accepted := accepted c @ (if i < 0 then [] else [e])\<rparr>)"
proof -
  have rw: "rwq_inv ops (sq c)" "ring_ok (sq c)" using inv ring_partD(1,2) by (auto simp: sq_inv_def)
  have same: "c\<lparr>sq := sq c, accepted := accepted c\<rparr> = c" by simp
  show ?thesis
  proof (cases "int (liveCount (sq c)) = ring_size (sq c) - 1")
    case True
    then show ?thesis
      using add_full [OF rw(2) True] same
      by (intro exI [of _ IS_FULL] exI [of _ "sq c"]) (simp add: IS_FULL_def sq_reach.Refl)
  next
    case room: False
    show ?thesis
    proof (cases "\<exists>m. storable ops e m")
      case True
      then obtain m where "storable ops e m" by blast
      from add_accepted_steps [OF inv w this room] obtain s where
        "ReaderWriterQueue_add ops e (sq c) = Inr (writeIndex (sq c), s)"
        "sq_reach ops c (c\<lparr>sq := s, accepted := accepted c @ [e]\<rparr>)" by blast
      then show ?thesis using ring_okD(7) [OF rw(2)]
        by (intro exI [of _ "writeIndex (sq c)"] exI [of _ s]) simp
    next
      case False
      have "int (liveCount (sq c)) < ring_size (sq c) - 1" using room liveCount_less [OF rw(2)] by linarith
      from add_refused [OF rw(1) _ this] False
      have "ReaderWriterQueue_add ops e (sq c) = Inr (CANNOT_ADD, sq c)" by blast
      then show ?thesis using same
        by (intro exI [of _ CANNOT_ADD] exI [of _ "sq c"]) (simp add: CANNOT_ADD_def sq_reach.Refl)
    qed
  qed
qed

end

section \<open>A concrete run\<close>

text \<open>A reader joins a queue of four slots, one entry is added, the reader takes it and is using it.\<close>

definition demo_init :: "(queue_entry, sample_member) sqc" where
  "demo_init = sq_init (sample_ops 256) 4 DataArray_init True (\<lambda>_. 0)"

lemma demo_init_size: "currentSize (sq demo_init) = 4" "readIndex (sq demo_init) = 0"
  by (simp_all add: demo_init_def sq_init_def SyncQueue_new_def SyncWriterQueue_new_def ReaderWriterQueue_new_def
      SyncWriterQueue.defs ReaderWriterQueue.defs)

lemma demo_start:
  "\<exists>s. sq_reach (sample_ops 256) demo_init (demo_init\<lparr>sq := s\<rparr>) \<and> ri_inQueue (readers s 0) \<and> \<not> ri_isDone (readers s 0) \<and>
    sq_inv (sample_ops 256) (demo_init\<lparr>sq := s\<rparr>) [0] 0 ((\<lambda>_. 0)(0 := 0)) []"
proof -
  have inv: "sq_inv (sample_ops 256) demo_init [] 0 (\<lambda>_. 0) []"
    unfolding demo_init_def by (rule sample.init_inv) simp_all
  then have ok: "rlist_ok (sq demo_init) []" "\<not> listed demo_init 0"
    by (auto simp: sq_inv_def list_part_def rlist_ok_def)
  from add_first_refines [OF ok(1), of 0] obtain s where s: "readerList_add 0 (sq demo_init) = Inr s"
    "flags_set (sq demo_init) 0 False True True s"
    "rl_post (sq demo_init) \<lparr>order = [0], slot = (rd_index (sq demo_init))(0 := readIndex (sq demo_init)),
       rindex = readIndex (sq demo_init)\<rparr> s" by blast
  have "sq_step (sample_ops 256) demo_init (demo_init\<lparr>sq := s\<rparr>)"
    by (rule sq_step.Start [OF ok(2)]) (simp add: startAccess_def s(1))
  then have "sq_reach (sample_ops 256) demo_init (demo_init\<lparr>sq := s\<rparr>)" by (blast intro: sq_reach.intros)
  moreover have "sq_inv (sample_ops 256) (demo_init\<lparr>sq := s\<rparr>) [0] 0 ((\<lambda>_. 0)(0 := 0)) []"
    by (rule start_first_inv [OF inv ok(2) s(2,3)])
  ultimately show ?thesis using s(2) by (auto simp: flags_set_def)
qed

lemma demo_run:
  "\<exists>c p. sq_reach (sample_ops 256) demo_init c \<and> accepted c = [demo_entry 1] \<and> delivered c = [(0, demo_entry 1)] \<and>
    held c 0 = Some (p, demo_entry 1) \<and> (\<forall>y. listed c y \<longleftrightarrow> y = 0) \<and> finished c 0 \<and> wpc c = WIdle \<and> moved c = {}"
proof -
  from demo_start obtain s where s: "sq_reach (sample_ops 256) demo_init (demo_init\<lparr>sq := s\<rparr>)" "ri_inQueue (readers s 0)"
    "\<not> ri_isDone (readers s 0)" "sq_inv (sample_ops 256) (demo_init\<lparr>sq := s\<rparr>) [0] 0 ((\<lambda>_. 0)(0 := 0)) []" by blast
  let ?c1 = "demo_init\<lparr>sq := s\<rparr>"
  have i: "wpc ?c1 = WIdle" "accepted ?c1 = []" "moved ?c1 = {}" "delivered ?c1 = []"
    by (simp_all add: demo_init_def sq_init_def)
  have rw: "2 \<le> ring_size s" "liveCount s = 0" "currentSize s = currentSize s"
    using s(4) ring_partD(3,6) [of "sample_ops 256" ?c1 0 "[]"] i by (auto simp: sq_inv_def)
  have "int (liveCount (sq ?c1)) \<noteq> ring_size (sq ?c1) - 1" using rw by simp
  from sample.add_accepted_steps [OF s(4) i(1) storable_demo this] obtain s2 where
    s2: "readers s2 = readers s" "sq_reach (sample_ops 256) ?c1 (?c1\<lparr>sq := s2, accepted := [demo_entry 1]\<rparr>)"
    "sq_inv (sample_ops 256) (?c1\<lparr>sq := s2, accepted := [demo_entry 1]\<rparr>) [0] 0 ((\<lambda>_. 0)(0 := 0)) []"
    using i(2) by (auto simp del: fun_upd_apply)
  let ?c2 = "?c1\<lparr>sq := s2, accepted := [demo_entry 1]\<rparr>"
  have rp: "ring_part (sample_ops 256) ?c2 0 []" and lp: "list_part ?c2 [0] 0 ((\<lambda>_. 0)(0 := 0))"
    using s2(3) by (auto simp: sq_inv_def simp del: fun_upd_apply)
  note R = ring_partD [OF rp] and L = list_partD [OF lp]
  have k: "rd_index (sq ?c2) 0 = slotAt (sq ?c2) 0" "int 0 < ring_size (sq ?c2)" "0 < liveCount (sq ?c2)"
    using L(9) [of 0] R(3,6) by auto
  from sample.removeSlot_ok(2) [OF R(1) k] obtain p where p: "p \<noteq> NullEntry"
    "removeSlot 0 (sq ?c2) = Inr (p, set_isDone 0 True (set_isEmpty 0 False s2))"
    "deref (sample_ops 256) p (dataEntries s2) = Inr (demo_entry 1)" using R(5) [of 0] k(3) by auto
  have "listed ?c2 0" "\<not> finished ?c2 0 \<or> 0 \<in> moved ?c2" using s(2,3) s2(1) by auto
  from sq_step.Take [OF this p(2,1), of "sample_ops 256" "demo_entry 1"] p(3)
  have "sq_step (sample_ops 256) ?c2 (?c2\<lparr>sq := set_isDone 0 True (set_isEmpty 0 False s2), moved := moved ?c2 - {0},
      delivered := delivered ?c2 @ [(0, demo_entry 1)], held := (held ?c2)(0 \<mapsto> (p, demo_entry 1))\<rparr>)" by simp
  then have "sq_reach (sample_ops 256) demo_init (?c2\<lparr>sq := set_isDone 0 True (set_isEmpty 0 False s2), moved := moved ?c2 - {0},
      delivered := delivered ?c2 @ [(0, demo_entry 1)], held := (held ?c2)(0 \<mapsto> (p, demo_entry 1))\<rparr>)"
    using sq_reach.Step sample.reach_trans [OF s2(2) s(1)] by blast
  then show ?thesis using i L(3) s2(1)
    by (intro exI [of _ "?c2\<lparr>sq := set_isDone 0 True (set_isEmpty 0 False s2), moved := moved ?c2 - {0},
      delivered := delivered ?c2 @ [(0, demo_entry 1)], held := (held ?c2)(0 \<mapsto> (p, demo_entry 1))\<rparr>"] exI [of _ p]) simp
qed

lemma demo_start_size:
  "\<exists>s. currentSize s = 4 \<and> sq_inv (sample_ops 256) (demo_init\<lparr>sq := s\<rparr>) [0] 0 ((\<lambda>_. 0)(0 := 0)) []"
proof -
  have inv: "sq_inv (sample_ops 256) demo_init [] 0 (\<lambda>_. 0) []"
    unfolding demo_init_def by (rule sample.init_inv) simp_all
  then have ok: "rlist_ok (sq demo_init) []" "\<not> listed demo_init 0"
    by (auto simp: sq_inv_def list_part_def rlist_ok_def)
  from add_first_refines [OF ok(1), of 0] obtain s where s: "flags_set (sq demo_init) 0 False True True s"
    "rl_post (sq demo_init) \<lparr>order = [0], slot = (rd_index (sq demo_init))(0 := readIndex (sq demo_init)),
       rindex = readIndex (sq demo_init)\<rparr> s" by blast
  have "currentSize s = currentSize (sq demo_init)" using rl_postD(2) [OF s(2)] list_frameD(3) by blast
  then show ?thesis using start_first_inv [OF inv ok(2) s] demo_init_size by auto
qed

lemma singleton_list:
  assumes "distinct xs" and "\<And>y. y \<in> set xs \<longleftrightarrow> y = a"
  shows "xs = [a]"
proof -
  have "set xs = {a}" using assms(2) by blast
  then show ?thesis using assms(1) by (metis distinct.simps(2) empty_set insert_absorb insert_not_empty list.exhaust
      list.set_intros(1) list.simps(15) singletonD subset_singletonD set_subset_Cons)
qed

text \<open>The reader comes back and waits at the next slot, which is empty.\<close>

lemma demo_drained:
  "\<exists>c. sq_reach (sample_ops 256) demo_init c \<and> accepted c = [demo_entry 1] \<and> moved c = {} \<and>
    (\<forall>y. listed c y \<longrightarrow> \<not> finished c y) \<and> rl_back (sq c) = Some 0 \<and> fst (SyncQueue_isEmpty 0 (sq c))"
proof -
  from demo_run obtain c p where c: "sq_reach (sample_ops 256) demo_init c" "accepted c = [demo_entry 1]"
    "delivered c = [(0, demo_entry 1)]" "\<And>y. listed c y \<longleftrightarrow> y = 0" "finished c 0" "moved c = {}" by blast
  let ?c1 = "c\<lparr>held := (held c)(0 := None)\<rparr>"
  have r1: "sq_reach (sample_ops 256) demo_init ?c1" using c(1) sq_step.Handled sq_reach.Step by blast
  have reach_inv: "\<exists>xs R pos D. sq_inv (sample_ops 256) c' xs R pos D" if "sq_reach (sample_ops 256) demo_init c'" for c'
    using sample.sq_reach_inv that unfolding demo_init_def by fastforce
  obtain xs R pos D where inv: "sq_inv (sample_ops 256) ?c1 xs R pos D" using reach_inv [OF r1] by blast
  then have rp: "ring_part (sample_ops 256) ?c1 R D" and lp: "list_part ?c1 xs R pos" by (auto simp: sq_inv_def)
  note L = list_partD [OF lp]
  have xs: "xs = [0]" using L(3) c(4) by (intro singleton_list [OF L(2)]) simp
  have "\<not> spans (ring_size (sq ?c1)) (rl_abs (sq ?c1) xs)"
    using spans_two [OF slots_ok_inv [OF rp lp]] xs by force
  from moveToFront_advances [OF L(1) slots_ok_inv [OF rp lp] _ this] xs
  obtain s where s: "moveToFront 0 (sq ?c1) = Inr (True, s)" "flags_frame (sq ?c1) s" by auto
  let ?c2 = "?c1\<lparr>sq := s, moved := {0}\<rparr>"
  have "sq_step (sample_ops 256) ?c1 ?c2"
    using sq_step.Move [of ?c1 0 True s "sample_ops 256"] s(1) c(4-6) by simp
  then have r2: "sq_reach (sample_ops 256) demo_init ?c2" using r1 sq_reach.Step by blast
  obtain xs2 R2 pos2 D2 where inv2: "sq_inv (sample_ops 256) ?c2 xs2 R2 pos2 D2" using reach_inv [OF r2] by blast
  then have rp2: "ring_part (sample_ops 256) ?c2 R2 D2" and lp2: "list_part ?c2 xs2 R2 pos2"
    and dp2: "deliv_part ?c2 xs2 R2 pos2 D2" by (auto simp: sq_inv_def)
  note R2 = ring_partD [OF rp2] and L2 = list_partD [OF lp2]
  have l2: "listed ?c2 y \<longleftrightarrow> y = 0" for y using s(2) c(4) by (simp add: flags_frame_def)
  then have xs2: "xs2 = [0]" using L2(3) by (intro singleton_list [OF L2(2)]) simp
  have "length D2 = length (map snd (delivered ?c2))" using dp2 unfolding deliv_part_def by (metis length_map)
  then have "length D2 = 1" using c(3) by simp
  then obtain q where "D2 = [q]" by (cases D2) auto
  then have D2: "D2 = [0]" using dp2 c(2) by (auto simp: deliv_part_def)
  have "pending ?c2 0" using l2 by (simp add: pending_def)
  then have pos: "1 \<le> pos2 0" using dp2 D2 by (auto simp: deliv_part_def Suc_le_eq)
  have x0: "0 \<in> set xs2" using xs2 by simp
  have "liveCount s \<le> pos2 0 - R2" using R2(4,6) pos c(2) L2(6) xs2 by simp
  then have rm: "removeSlot 0 s = Inr (NullEntry, set_isDone 0 False (set_isEmpty 0 True s))"
    using sample.removeSlot_ok(1) [OF R2(1) L2(9,8) [OF x0]] by simp
  let ?c3 = "?c2\<lparr>sq := set_isDone 0 False (set_isEmpty 0 True s), moved := {}\<rparr>"
  have "sq_step (sample_ops 256) ?c2 ?c3"
    using sq_step.Look [of ?c2 0 _ "sample_ops 256"] rm l2 by simp
  then have r3: "sq_reach (sample_ops 256) demo_init ?c3" using r2 sq_reach.Step by blast
  have "rl_back s = Some 0" using L2(1) xs2 by (simp add: rlist_ok_def)
  moreover have "fst (SyncQueue_isEmpty 0 (sq ?c3))"
    using SyncQueue_isEmpty_iff [OF R2(2) L2(9,8) [OF x0]] \<open>liveCount s \<le> pos2 0 - R2\<close>
    by (simp add: SyncQueue_isEmpty_def Let_def)
  ultimately show ?thesis using r3 c(2) l2 by (intro exI [of _ ?c3]) auto
qed

section \<open>Delivery\<close>

lemma sample_reach_inv:
  assumes "sq_reach (sample_ops sz) (sq_init (sample_ops sz) n d sync ids) c" and "2 \<le> uint n" "uint n \<le> 1073741824"
  obtains xs R pos D where "sq_inv (sample_ops sz) c xs R pos D"
  using sample.sq_reach_inv [OF assms] by blast



lemma drained_mset:
  assumes inv: "sq_inv ops c xs R pos D" and m: "moved c = {}" and u: "\<And>y. listed c y \<Longrightarrow> \<not> finished c y"
    and b: "rl_back (sq c) = Some b" "fst (SyncQueue_isEmpty b (sq c))"
  shows "mset (map snd (delivered c)) = mset (accepted c)"
proof -
  have "R = length (accepted c)" "set D = {..<R}"
    by (rule drained [OF inv m u b]; assumption)+
  moreover have "distinct D" "map snd (delivered c) = map (\<lambda>p. accepted c ! p) D"
    using inv by (auto simp: sq_inv_def deliv_part_def)
  ultimately have "mset D = mset [0..<length (accepted c)]"
    using set_eq_iff_mset_eq_distinct [of D "[0..<length (accepted c)]"] by (simp add: lessThan_atLeast0)
  then have "image_mset (\<lambda>p. accepted c ! p) (mset D) = image_mset (\<lambda>p. accepted c ! p) (mset [0..<length (accepted c)])"
    by simp
  then show ?thesis
    using \<open>map snd (delivered c) = map (\<lambda>p. accepted c ! p) D\<close> by (metis map_nth mset_map)
qed







section \<open>Calls are runs\<close>

lemma sample_isNull: "isNull (sample_ops sz) e = entry_isNull e"
  by (simp add: sample_ops_def)

text \<open>
  C24. In every reachable state a call of \<^verbatim>\<open>remove\<close> by a reader that is between calls returns without a
  fault (no null pointer, no unset slot, no reference into a deleted array), and its effect is a run of
  the state machine: the reference it returns can be read, it reads the null entry exactly when nothing was
  taken, and otherwise the entry that is recorded as delivered.
\<close>

theorem sync_remove_runs:
  assumes "sq_reach (sample_ops sz) (sq_init (sample_ops sz) n d sync ids) c" and "2 \<le> uint n" "uint n \<le> 1073741824"
    and "listed c x" "x \<notin> moved c" "held c x = None"
  shows "\<exists>p s e c'. SyncQueue_remove x (sq c) = Inr (p, s) \<and> sq_reach (sample_ops sz) c c' \<and> sq c' = s \<and>
    deref (sample_ops sz) p (dataEntries s) = Inr e \<and> (entry_isNull e \<longleftrightarrow> p = NullEntry) \<and>
    delivered c' = delivered c @ (if p = NullEntry then [] else [(x, e)])"
  by (rule sample_reach_inv [OF assms(1-3)]) (use sample.remove_steps [OF _ assms(4-6), unfolded sample_isNull] in blast)

theorem sync_remove_runs_witness:
  "\<exists>c p s e c'. sq_reach (sample_ops 256) demo_init c \<and> SyncQueue_remove 0 (sq c) = Inr (p, s) \<and>
    sq_reach (sample_ops 256) c c' \<and> sq c' = s \<and> deref (sample_ops 256) p (dataEntries s) = Inr e \<and>
    delivered c' = delivered c @ (if p = NullEntry then [] else [(0, e)])"
proof -
  obtain s where s: "sq_reach (sample_ops 256) demo_init (demo_init\<lparr>sq := s\<rparr>)" "ri_inQueue (readers s 0)"
    using demo_start by blast
  then show ?thesis
    using sync_remove_runs [OF s(1) [unfolded demo_init_def], of 0] by (fastforce simp: demo_init_def sq_init_def)
qed

text \<open>
  C25. In every reachable state in which the writer is between calls, a call of \<^verbatim>\<open>add\<close> returns without a
  fault, and its effect is a run of the state machine in which the entry is accepted exactly when the
  call returns an index.
\<close>

theorem sync_add_runs:
  assumes "sq_reach (sample_ops sz) (sq_init (sample_ops sz) n d sync ids) c" and "2 \<le> uint n" "uint n \<le> 1073741824"
    and "wpc c = WIdle"
  shows "\<exists>i s. ReaderWriterQueue_add (sample_ops sz) e (sq c) = Inr (i, s) \<and>
    sq_reach (sample_ops sz) c (c\<lparr>sq := s, accepted := accepted c @ (if i < 0 then [] else [e])\<rparr>)"
  by (rule sample_reach_inv [OF assms(1-3)]) (use sample.add_steps [OF _ assms(4)] in blast)

theorem sync_add_runs_witness:
  "\<exists>c i s. delivered c = [(0, demo_entry 1)] \<and> ReaderWriterQueue_add (sample_ops 256) (demo_entry 2) (sq c) = Inr (i, s) \<and>
    sq_reach (sample_ops 256) c (c\<lparr>sq := s, accepted := accepted c @ (if i < 0 then [] else [demo_entry 2])\<rparr>)"
proof -
  obtain c where c: "sq_reach (sample_ops 256) demo_init c" "delivered c = [(0, demo_entry 1)]" "wpc c = WIdle"
    using demo_run by blast
  then show ?thesis using sync_add_runs [OF c(1) [unfolded demo_init_def] _ _ c(3), of "demo_entry 2"] by fastforce
qed

lemma add_mutex_commute:
  fixes q :: "('e, 'm, 'z) SyncWriterQueue_scheme"
  shows "ReaderWriterQueue_add ops e (q\<lparr>addMutex := m\<rparr>) =
    bind_r (ReaderWriterQueue_add ops e q) (\<lambda>(i, q1). Inr (i, q1\<lparr>addMutex := m\<rparr>))"
  by (auto simp: ReaderWriterQueue_add_def tryInsert_def insertEntry_def insertAt_def queueData_set_def isFull_def
      bind_r_def split: sum.splits option.splits)

text \<open>
  The lock between writers is transparent: with \<^verbatim>\<open>syncWriter\<close> set, a call of \<^verbatim>\<open>add\<close> waits while another
  thread is inside, and otherwise does what the unsynchronised \<^verbatim>\<open>add\<close> does and leaves the mutex as it was.
\<close>

theorem sync_add_locked:
  fixes s :: "(queue_entry, sample_member) SyncQueue"
  assumes "mutex_ok (addMutex s)"
  shows "SyncQueue_add (sample_ops sz) t e s =
    (if syncWriter s \<and> owner (addMutex s) \<noteq> None \<and> owner (addMutex s) \<noteq> Some t then None
     else Some (ReaderWriterQueue_add (sample_ops sz) e s))"
proof (cases "syncWriter s")
  case True
  have own: "ReaderWriterQueue_add (sample_ops sz) e s =
      bind_r (ReaderWriterQueue_add (sample_ops sz) e s) (\<lambda>(i, q1). Inr (i, q1\<lparr>addMutex := addMutex s\<rparr>))"
    using add_mutex_commute [where ops = "sample_ops sz" and e = e and q = s and m = "addMutex s"] by simp
  show ?thesis
  proof (cases "Mutex_acquire t (addMutex s)")
    case None
    then show ?thesis
      using True by (auto simp: SyncQueue_add_def SyncWriterQueue_add_def Mutex_acquire_def split: option.splits if_splits)
  next
    case (Some m)
    have rel: "Mutex_release t m = addMutex s" by (rule Mutex_release_acquire [OF assms Some])
    have "SyncWriterQueue_add (sample_ops sz) t e s = Some (ReaderWriterQueue_add (sample_ops sz) e s)"
      using Some rel own by (cases "ReaderWriterQueue_add (sample_ops sz) e s")
        (auto simp: SyncWriterQueue_add_def add_mutex_commute)
    moreover have "owner (addMutex s) = None \<or> owner (addMutex s) = Some t"
      using Some by (auto simp: Mutex_acquire_def split: option.splits if_splits)
    ultimately show ?thesis using True by (auto simp: SyncQueue_add_def)
  qed
qed (simp add: SyncQueue_add_def)

theorem sync_add_locked_witness:
  "SyncQueue_add (sample_ops 256) 7 (demo_entry 1) (sq demo_init) =
    Some (ReaderWriterQueue_add (sample_ops 256) (demo_entry 1) (sq demo_init))"
proof -
  have m: "addMutex (sq demo_init) = Mutex_init"
    by (simp add: demo_init_def sq_init_def SyncQueue_new_def SyncWriterQueue_new_def SyncWriterQueue.defs ReaderWriterQueue.defs)
  then have "mutex_ok (addMutex (sq demo_init))" by (simp add: mutex_ok_def Mutex_init_def)
  from sync_add_locked [OF this, of 256 7 "demo_entry 1"] m show ?thesis by (simp add: Mutex_init_def)
qed

section \<open>The reader list\<close>

lemma demo_list:
  "\<exists>s. rlist_ok s [0] \<and> slots_ok s [0] \<and> \<not> ri_isDone (readers s 0) \<and>
    ring_size (s :: (queue_entry, sample_member) SyncQueue) = 4"
proof -
  obtain s' where "readerList_add 0 (sq demo_init) = Inr s'" "rlist_ok s' [0]" "flags_set (sq demo_init) 0 False True True s'"
    "list_frame (sq demo_init) s'" "rd_index s' 0 = readIndex (sq demo_init)"
  proof -
    have "rlist_ok (sq demo_init) []"
      using sample.init_inv [of 4 256 DataArray_init True "\<lambda>_. 0"] by (simp add: sq_inv_def list_part_def demo_init_def)
    from add_first_refines [OF this, of 0] obtain s' where s': "readerList_add 0 (sq demo_init) = Inr s'"
      "flags_set (sq demo_init) 0 False True True s'" "rl_post (sq demo_init) \<lparr>order = [0],
        slot = (rd_index (sq demo_init))(0 := readIndex (sq demo_init)), rindex = readIndex (sq demo_init)\<rparr> s'" by blast
    from that [OF s'(1) _ s'(2)] rl_postD [OF s'(3)] show thesis by simp
  qed
  then show ?thesis using demo_init_size
    by (intro exI [of _ s']) (auto simp: slots_ok_def flags_set_def list_frameD(3))
qed

text \<open>
  C28. \<^verbatim>\<open>moveToFront\<close> implements its specification on lists: a reader takes the slot after the front and
  becomes the front (the read index follows the back), or, when the readers span the whole ring, the call
  returns false and the back reader steps behind the front. No pointer it follows is null, the links stay
  a well-formed list, and nothing else of the queue changes.
\<close>

theorem list_moveToFront:
  fixes s :: "(queue_entry, sample_member) SyncQueue"
  assumes "rlist_ok s xs" and "slots_ok s xs" and "x \<in> set xs"
  shows "\<exists>s'. moveToFront x s = Inr (fst (spec_moveToFront (ring_size s) x (rl_abs s xs)), s') \<and>
    rl_post s (snd (spec_moveToFront (ring_size s) x (rl_abs s xs))) s' \<and> flags_frame s s'"
  using moveToFront_refines [OF assms surjective_pairing] by blast

theorem list_moveToFront_witness:
  "\<exists>s s'. rlist_ok s [0] \<and> moveToFront 0 (s :: (queue_entry, sample_member) SyncQueue) =
     Inr (fst (spec_moveToFront 4 0 (rl_abs s [0])), s') \<and> rl_post s (snd (spec_moveToFront 4 0 (rl_abs s [0]))) s'"
proof -
  obtain s :: "(queue_entry, sample_member) SyncQueue" where s: "rlist_ok s [0]" "slots_ok s [0]" "ring_size s = 4"
    using demo_list by blast
  from list_moveToFront [OF s(1,2), of 0] s show ?thesis by auto
qed

text \<open>
  \<^verbatim>\<open>add\<close> implements its specification: a new reader takes the read index (first reader), the slot after
  the front, or, when the readers span the ring, a place behind the front with no slot of its own; adding a
  reader twice is the logic error of the source.
\<close>

theorem list_add:
  fixes s :: "(queue_entry, sample_member) SyncQueue"
  assumes "rlist_ok s xs" and "slots_ok s xs"
  shows "if x \<in> set xs then readerList_add x s = Inl (LogicError ''already added'')
    else \<exists>s'. readerList_add x s = Inr s' \<and> rl_post s (snd (spec_add (ring_size s) x (rl_abs s xs))) s' \<and>
      flags_set s x (fst (spec_add (ring_size s) x (rl_abs s xs))) True True s'"
  using readerList_add_refines [OF assms _ surjective_pairing, of x] readerList_add_twice [of s x] assms(1)
  by (auto simp: rlist_ok_def)

theorem list_add_witness:
  "\<exists>s s'. rlist_ok s [0] \<and> readerList_add 1 (s :: (queue_entry, sample_member) SyncQueue) = Inr s' \<and>
     rl_post s (snd (spec_add 4 1 (rl_abs s [0]))) s' \<and> readerList_add 0 s = Inl (LogicError ''already added'')"
proof -
  obtain s :: "(queue_entry, sample_member) SyncQueue" where s: "rlist_ok s [0]" "slots_ok s [0]" "ring_size s = 4"
    using demo_list by blast
  from list_add [OF s(1,2), of 0] list_add [OF s(1,2), of 1] s show ?thesis by auto
qed



end
