(* ===== verification/Sync_Findings.thy ===== *)
theory Sync_Findings
  imports Sync_Properties
begin

text \<open>
  Growth of the multi-reader queue, and the limits of the reader list that modelling it showed: when
  \<^verbatim>\<open>adjust\<close> is right, what a shrinking \<^verbatim>\<open>resize\<close> does, what the squeeze does with two readers, what happens
  when a reader that is done leaves from the front, and what \<^verbatim>\<open>isEmpty\<close> answers when the read index moves
  between its two reads.
\<close>

section \<open>Growth\<close>



text \<open>
  C38. For a reader that waits at an unwritten slot below the read index while the writer has not wrapped,
  \<^verbatim>\<open>adjust\<close> finds the right slot if and only if the ring exactly doubles. With any other size, such as the
  last step to the maximum size, the reader is moved to a slot that is not its own.
\<close>

theorem adjust_needs_doubling:
  fixes s :: "(queue_entry, sample_member) SyncQueue"
  assumes ring: "ring_ok s" and le: "ring_size s < uint size'" "uint size' \<le> 1073741824"
    and k: "liveCount s \<le> k" "int k < ring_size s" and w: "readIndex s \<le> writeIndex s" "slotAt s k < readIndex s"
    and s1: "currentSize s1 = size'" "writeIndex s1 = writeIndex s"
  shows "adjusted s1 (uint size' - ring_size s) (readIndex s) (slotAt s k) =
      (grownReadIndex s size' + int k) mod uint size' \<longleftrightarrow> uint size' = 2 * ring_size s"
proof -
  note r = ring_okD [OF ring]
  let ?n = "ring_size s" and ?n' = "uint size'"
  have "\<not> adjustIndexForComparison size' (slotAt s k) (readIndex s)
      < adjustIndexForComparison size' (writeIndex s) (readIndex s)"
    using populated_iff [OF ring less_imp_le [OF le(1)] le(2) k(2)] k(1) by simp
  then have adj: "adjusted s1 (?n' - ?n) (readIndex s) (slotAt s k) = slotAt s k + (?n' - ?n)"
    using w s1 by (simp add: adjusted_def)
  have sl: "slotAt s k = (if readIndex s + int k < ?n then readIndex s + int k else readIndex s + int k - ?n)"
    using r k by (auto simp: slotAt_def mod_add_cases)
  have g: "grownReadIndex s size' = readIndex s" using w(1) by (simp add: grownReadIndex_def)
  have "(readIndex s + int k) mod ?n' =
      (if readIndex s + int k < ?n' then readIndex s + int k else readIndex s + int k - ?n')"
    using r k le by (intro mod_add_cases) auto
  then show ?thesis unfolding adj g using sl w r k le by (auto split: if_splits)
qed

theorem adjust_needs_doubling_witness:
  "\<exists>s s1. ring_size s = 4 \<and> ring_size s1 = 6 \<and> slotAt (s :: (queue_entry, sample_member) SyncQueue) 2 = 0 \<and>
    adjusted (s1 :: (queue_entry, sample_member) SyncQueue) 2 2 0 \<noteq> (grownReadIndex s 6 + 2) mod 6"
proof -
  let ?s = "(sq demo_init)\<lparr>readIndex := 2, writeIndex := 2\<rparr>"
  have len: "length (queueData (sq demo_init)) = 4"
    by (simp add: demo_init_def sq_init_def SyncQueue_new_def SyncWriterQueue_new_def ReaderWriterQueue_new_def
        SyncWriterQueue.defs ReaderWriterQueue.defs)
  have ok: "ring_ok ?s" "liveCount ?s = 0" "slotAt ?s 2 = 0"
    using demo_init_size len by (simp_all add: ring_ok_def liveCount_def cdist_def slotAt_def)
  from adjust_needs_doubling [OF ok(1), of 6 2 "?s\<lparr>currentSize := 6\<rparr>"] ok(2,3) demo_init_size
  show ?thesis by (intro exI [of _ ?s] exI [of _ "?s\<lparr>currentSize := 6\<rparr>"]) simp
qed

lemma sint_shrink:
  assumes "(m :: c_uint) < n" and "uint n \<le> 1073741824"
  shows "sint (m - n) = uint m - uint n"
proof -
  have d: "uint (n - m) = uint n - uint m" using assms(1) uint_sub_lem [of m n] by (simp add: word_less_def)
  have neg: "sint (- w) = - uint w" if "0 < uint w" "uint w \<le> 1073741824" for w :: c_uint
  proof -
    have "uint (- w) = 4294967296 - uint w"
      using that by (simp add: uint_word_ariths zmod_zminus1_eq_if)
    moreover have "(6442450944 - uint w) mod 4294967296 = 2147483648 - uint w"
      using that mod_pos_geq [of 4294967296 "6442450944 - uint w"] by simp
    ultimately show ?thesis by (simp add: sint_uint signed_take_bit_eq_take_bit_shift take_bit_eq_mod)
  qed
  have "sint (m - n) = sint (- (n - m))" by simp
  also have "\<dots> = - uint (n - m)"
  proof (rule neg)
    show "0 < uint (n - m)" "uint (n - m) \<le> 1073741824"
      using assms [unfolded word_less_def] d uint_c_uint_range(1) [of m] by linarith+
  qed
  finally show ?thesis using d by simp
qed

text \<open>
  A request to shrink is ignored by the ring but not by the reader list: \<^verbatim>\<open>SyncQueue::resize\<close> still adjusts
  the readers' indices, by a negative amount.
\<close>

theorem sync_resize_shrinks:
  fixes s :: "(queue_entry, sample_member) SyncQueue"
  assumes "ring_ok s" and "rlist_ok s xs" and "length xs < fuel" and "size' < currentSize s"
  shows "SyncQueue_resize fuel (sample_ops sz) size' s =
    Inr (adjust_readers (uint size' - ring_size s) (readIndex s) xs s)"
proof -
  note r = ring_okD [OF assms(1)]
  have "scanLoop (Suc (unat (currentSize s))) (currentSize s) (currentSize s) (readIndex s) (writeIndex s) (readIndex s) = Inr ()"
    using scanLoop_ok [OF assms(1) order.refl r(3), of 0 "Suc (unat (currentSize s))"] r
      nat_less_unat [OF _ liveCount_less [OF assms(1)]] by (simp add: slotAt_def del: scanLoop.simps)
  then show ?thesis
    using sint_shrink [OF assms(4) r(3)] readerList_adjust_ok [OF assms(2,3)] sample.resize_smaller [OF less_imp_le [OF assms(4)]]
    by (simp add: SyncQueue_resize_def Let_def del: scanLoop.simps)
qed

theorem sync_resize_shrinks_witness:
  "\<exists>s. ring_ok s \<and> rlist_ok s [0] \<and> SyncQueue_resize 2 (sample_ops 256) 2 (s :: (queue_entry, sample_member) SyncQueue) =
    Inr (adjust_readers (- 2) (readIndex s) [0] s)"
proof -
  obtain s where s: "sq_inv (sample_ops 256) (demo_init\<lparr>sq := s\<rparr>) [0] 0 ((\<lambda>_. 0)(0 := 0)) []" "currentSize s = 4"
    using demo_start_size by blast
  have rp: "ring_part (sample_ops 256) (demo_init\<lparr>sq := s\<rparr>) 0 []"
    and lp: "list_part (demo_init\<lparr>sq := s\<rparr>) [0] 0 ((\<lambda>_. 0)(0 := 0))"
    using s(1) by (auto simp: sq_inv_def simp del: fun_upd_apply)
  have ok: "ring_ok s" "rlist_ok s [0]" using ring_partD(2) [OF rp] list_partD(1) [OF lp] by simp_all
  from sync_resize_shrinks [OF ok, of 2 2 256] s(2) show ?thesis using ok by (intro exI [of _ s]) simp
qed

section \<open>The squeeze with two readers\<close>

text \<open>
  C39. When exactly two readers span the whole ring, a call of \<^verbatim>\<open>moveToFront\<close> by the back reader returns false
  and changes nothing but the read index, which it sets to the back's slot, where it already is: no slot is
  freed for the writer, although the comment of the source says that one must be. Repeating the call does
  not help, and with the front waiting for the writer nobody makes progress.
\<close>

theorem squeeze_frees_nothing:
  fixes s :: "(queue_entry, sample_member) SyncQueue"
  assumes "rlist_ok s [x, f]" and "slots_ok s [x, f]" and "spans (ring_size s) (rl_abs s [x, f])"
    and "readIndex s = rd_index s x"
  shows "moveToFront x s = Inr (False, s) \<and> moveToFront f s = Inr (False, s)"
proof -
  have ni: "nextIndex (rd_index s f) (currentSize s) = Inr (rd_index s x)"
    using nextIndex_front [OF assms(2), of f] assms(3) by (simp add: spans_def rl_abs_def)
  have p: "rl_front s = Some f" "rl_back s = Some x" "ri_inQueue (readers s x)" "ri_inQueue (readers s f)" "x \<noteq> f"
    using assms(1) by (auto simp: rlist_ok_def)
  have "s\<lparr>readIndex := rd_index s x\<rparr> = s" using assms(4) by simp
  then show ?thesis using p ni squeeze_two [OF assms(1)] by (simp add: moveToFront_def)
qed

definition demo_two :: "(queue_entry, sample_member) SyncQueue" where
  "demo_two = (SyncQueue_new (sample_ops 256) 2 DataArray_init True (\<lambda>x. ReaderIndex_init 0))
     \<lparr>readers := (\<lambda>x. if x = 0 then (ReaderIndex_init 0)\<lparr>ri_index := 0, ri_inQueue := True, ri_isDone := True, ri_next := Some 1\<rparr>
                      else if x = 1 then (ReaderIndex_init 1)\<lparr>ri_index := 1, ri_inQueue := True, ri_previous := Some 0\<rparr>
                      else ReaderIndex_init 0),
      rl_front := Some 1, rl_back := Some 0\<rparr>"

lemma demo_two_ok:
  "rlist_ok demo_two [0, 1]" "slots_ok demo_two [0, 1]" "spans (ring_size demo_two) (rl_abs demo_two [0, 1])"
  "readIndex demo_two = rd_index demo_two 0"
  by (auto simp: demo_two_def rlist_ok_def slots_ok_def spans_def rl_abs_def ReaderIndex_init_def SyncQueue_new_def
      SyncWriterQueue_new_def ReaderWriterQueue_new_def SyncWriterQueue.defs ReaderWriterQueue.defs)

theorem squeeze_frees_nothing_witness:
  "moveToFront 0 demo_two = Inr (False, demo_two) \<and> moveToFront 1 demo_two = Inr (False, demo_two)"
  by (rule squeeze_frees_nothing [OF demo_two_ok])

section \<open>A reader leaves from the front\<close>


definition demo_front :: "(queue_entry, sample_member) SyncQueue" where
  "demo_front = demo_two\<lparr>currentSize := 4, readers := (readers demo_two)(1 := (readers demo_two 1)\<lparr>ri_isDone := True\<rparr>)\<rparr>"


section \<open>The emptiness test\<close>

text \<open>
  \<^verbatim>\<open>isEmpty\<close> evaluates \<^verbatim>\<open>adjustIndexForComparison\<close> twice, and each evaluation reads the queue's read index.
  Between the two reads another reader may move it.
\<close>

definition isEmpty_two_reads :: "c_uint \<Rightarrow> int \<Rightarrow> int \<Rightarrow> int \<Rightarrow> int \<Rightarrow> bool" where
  "isEmpty_two_reads n w i r1 r2 \<longleftrightarrow> adjustIndexForComparison n w r1 \<le> adjustIndexForComparison n i r2"

text \<open>
  With one value of the read index the two reads are the test \<^verbatim>\<open>isEmpty\<close>. When the read index wraps from
  above the write index to below it between the reads, a reader whose slot is the write index, which is not
  written yet, is told that its slot is not empty.
\<close>

theorem isEmpty_race:
  fixes s :: "(queue_entry, sample_member) SyncQueue"
  assumes "uint n \<le> 1073741824" and "0 \<le> w" "w < r1" "r1 < uint n" "0 \<le> r2" "r2 \<le> w"
  shows "\<not> isEmpty_two_reads n w w r1 r2 \<and> isEmpty_two_reads n w w r1 r1 \<and> isEmpty_two_reads n w w r2 r2 \<and>
    fst (SyncQueue_isEmpty x s) =
      isEmpty_two_reads (currentSize s) (writeIndex s) (rd_index s x) (readIndex s) (readIndex s)"
  using assms by (auto simp: isEmpty_two_reads_def adjustIndexForComparison_eq SyncQueue_isEmpty_def Let_def)

theorem isEmpty_race_witness:
  "\<not> isEmpty_two_reads 4 1 1 3 0 \<and> isEmpty_two_reads 4 1 1 3 3 \<and> isEmpty_two_reads 4 1 1 0 0"
  using isEmpty_race [of 4 1 3 0 0 demo_two] by simp

end
