(* ===== verification/Resize_Controls.thy ===== *)
theory Resize_Controls
  imports Queue_Base
begin

text \<open>
  \<^verbatim>\<open>queue/ResizeControls.h\<close>: the lock, the flag and the counter that keep the threads that add to a queue
  away from it while one of them makes it larger.

  Each operation is what one thread does from taking \<^verbatim>\<open>resizeQueuesLock\<close> until it releases the lock, goes to
  sleep on \<^verbatim>\<open>isResizingCond\<close>, or returns with the lock held; \<open>None\<close> means that the lock is held by another
  thread. Going to sleep releases the lock and puts the thread among the \<open>sleepers\<close>.
\<close>

record ResizeControls =
  resizeQueuesLock :: Mutex
  sleepers :: "tid set"
  resizing :: bool
  addingCount :: int

definition ResizeControls_new :: ResizeControls where
  "ResizeControls_new = \<lparr>resizeQueuesLock = Mutex_init, sleepers = {}, resizing = False, addingCount = 0\<rparr>"

definition lockControls :: "tid \<Rightarrow> ResizeControls \<Rightarrow> ResizeControls option" where
  "lockControls t c = map_option (\<lambda>m. c\<lparr>resizeQueuesLock := m\<rparr>) (Mutex_acquire t (resizeQueuesLock c))"

definition unlockControls :: "tid \<Rightarrow> ResizeControls \<Rightarrow> ResizeControls" where
  "unlockControls t c = c\<lparr>resizeQueuesLock := Mutex_release t (resizeQueuesLock c)\<rparr>"

text \<open>\<^verbatim>\<open>isResizingCond.wait(resizeQueuesLock)\<close> and \<^verbatim>\<open>isResizingCond.broadcast()\<close>.\<close>

definition waitResizing :: "tid \<Rightarrow> ResizeControls \<Rightarrow> ResizeControls" where
  "waitResizing t c = (unlockControls t c)\<lparr>sleepers := insert t (sleepers c)\<rparr>"

definition broadcastResizing :: "ResizeControls \<Rightarrow> ResizeControls" where
  "broadcastResizing c = c\<lparr>sleepers := {}\<rparr>"

text \<open>
  \<^verbatim>\<open>waitForResize\<close>: \<open>False\<close> when the thread went to sleep; when it wakes up it takes the lock and tests the
  flag again, which is the same step.
\<close>

definition waitForResize :: "tid \<Rightarrow> ResizeControls \<Rightarrow> (bool \<times> ResizeControls) option" where
  "waitForResize t c =
     (case lockControls t c of
        None \<Rightarrow> None
      | Some c1 \<Rightarrow>
          if resizing c1 then Some (False, waitResizing t c1)
          else Some (True, unlockControls t (c1\<lparr>addingCount := addingCount c1 + 1\<rparr>)))"

text \<open>
  \<^verbatim>\<open>checkFull\<close> up to its first wait, and from a wake-up on. \<open>None\<close> inside the result is a thread asleep in
  the loop; \<open>Some True\<close> returns with the lock held.
\<close>

definition awaitResized :: "tid \<Rightarrow> ResizeControls \<Rightarrow> bool option \<times> ResizeControls" where
  "awaitResized t c = (if resizing c then (None, waitResizing t c) else (Some True, c))"

definition checkFull :: "tid \<Rightarrow> int \<Rightarrow> ResizeControls \<Rightarrow> (bool option \<times> ResizeControls) option" where
  "checkFull t i c =
     (case lockControls t c of
        None \<Rightarrow> None
      | Some c1 \<Rightarrow>
          let c2 = c1\<lparr>addingCount := addingCount c1 - 1\<rparr> in
          if i = IS_FULL then Some (awaitResized t c2) else Some (Some False, unlockControls t c2))"

definition checkFull_woken :: "tid \<Rightarrow> ResizeControls \<Rightarrow> (bool option \<times> ResizeControls) option" where
  "checkFull_woken t c = map_option (awaitResized t) (lockControls t c)"

definition checkFullForResize :: "tid \<Rightarrow> int \<Rightarrow> ResizeControls \<Rightarrow> bool \<times> ResizeControls" where
  "checkFullForResize t i c = (i = IS_FULL, unlockControls t (c\<lparr>resizing := (i = IS_FULL)\<rparr>))"

text \<open>The loop test of \<^verbatim>\<open>pauseAdders\<close>, which reads the counter without the lock.\<close>

definition pauseAdders :: "ResizeControls \<Rightarrow> bool" where
  "pauseAdders c \<longleftrightarrow> addingCount c = 0"

definition resumeAdders :: "tid \<Rightarrow> ResizeControls \<Rightarrow> ResizeControls option" where
  "resumeAdders t c =
     map_option (\<lambda>c1. unlockControls t (broadcastResizing (c1\<lparr>addingCount := addingCount c1 + 1, resizing := False\<rparr>)))
       (lockControls t c)"

section \<open>Effects with a free or an owned lock\<close>

lemma Mutex_free [simp]: "Mutex_acquire t Mutex_init = Some \<lparr>owner = Some t, depth = 1\<rparr>"
  by (simp add: Mutex_acquire_def Mutex_init_def)

lemma Mutex_unlock [simp]: "Mutex_release t \<lparr>owner = Some t, depth = Suc 0\<rparr> = Mutex_init"
  by (simp add: Mutex_release_def)

lemma Mutex_other [simp]: "u \<noteq> t \<Longrightarrow> Mutex_acquire t \<lparr>owner = Some u, depth = n\<rparr> = None"
  by (simp add: Mutex_acquire_def)

lemmas control_defs = lockControls_def unlockControls_def waitResizing_def broadcastResizing_def awaitResized_def
  waitForResize_def checkFull_def checkFull_woken_def checkFullForResize_def resumeAdders_def pauseAdders_def

end
