(* ===== verification/Producer_Protocol.thy ===== *)
theory Producer_Protocol
  imports Resize_Controls Sync_Protocol
begin

text \<open>
  The threads that add entries: \<^verbatim>\<open>consumer/QueueProducerInterface.cpp\<close>. Any number of threads run
  \<^verbatim>\<open>addToQueue\<close> on one multi-reader queue, coordinated by \<^verbatim>\<open>ResizeControls\<close>, while the workers read from it.

  Each thread has a program counter; one step is one atomic access of the shared state: a critical section of
  \<^verbatim>\<open>ResizeControls\<close>, one of the steps of \<^verbatim>\<open>add\<close> (under \<^verbatim>\<open>addMutex\<close>, whose owner is \<open>addOwner\<close>), the call of
  \<^verbatim>\<open>pause(true)\<close>, \<^verbatim>\<open>resize\<close> and \<^verbatim>\<open>resume\<close>. The workers take the reading steps of the queue's state machine
  unless they are paused. \<^verbatim>\<open>pause(true)\<close> returns when every worker is between two calls of \<^verbatim>\<open>doWork\<close>, and does
  nothing on a terminated processor. \<open>puts\<close> counts what the current call of a thread has published.
\<close>

section \<open>Threads\<close>

datatype 'e pc =
    Idle
  | Entering 'e
  | Adding 'e
  | Checking 'e int
  | Spinning 'e
  | Checked 'e int
  | Rechecking 'e
  | LockedAdding 'e
  | LockedChecking 'e int
  | PausingAdders 'e
  | PausingWorkers 'e
  | Resizing 'e
  | ResumingWorkers 'e
  | ResumingAdders 'e
  | Returned 'e int

text \<open>Threads inside \<^verbatim>\<open>adder.add()\<close>, with the entry, and where they are when it returned \<open>i\<close>.\<close>

fun adding :: "'e pc \<Rightarrow> 'e option" where
  "adding (Adding e) = Some e"
| "adding (Spinning e) = Some e"
| "adding (LockedAdding e) = Some e"
| "adding p = None"

fun added :: "'e pc \<Rightarrow> int \<Rightarrow> 'e pc" where
  "added (Adding e) i = Checking e i"
| "added (Spinning e) i = (if i = IS_FULL then Spinning e else Checked e i)"
| "added (LockedAdding e) i = LockedChecking e i"
| "added p i = p"

section \<open>The queue as \<^verbatim>\<open>ProcessorQueueAdder\<close> uses it\<close>

definition adder_isMaxSize :: "('e, 'm) entry_ops \<Rightarrow> ('e, 'm, 'z) SyncQueue_scheme \<Rightarrow> bool result" where
  "adder_isMaxSize ops q = bind_r (MAX_QUEUE_SIZE (getEntrySize ops)) (\<lambda>maxSize. Inr (maxSize \<le> currentSize q))"

definition adder_resize ::
  "nat \<Rightarrow> ('e, 'm) entry_ops \<Rightarrow> ('e, 'm, 'z) SyncQueue_scheme \<Rightarrow> ('e, 'm, 'z) SyncQueue_scheme result" where
  "adder_resize fuel ops q = bind_r (getNewQueueSize ops q) (\<lambda>size'. SyncQueue_resize fuel ops size' q)"

text \<open>\<^verbatim>\<open>checkResizable\<close>: whether the thread has to keep trying because no larger queue is allowed.\<close>

definition checkResizable :: "('e, 'm) entry_ops \<Rightarrow> int \<Rightarrow> ('e, 'm, 'z) SyncQueue_scheme \<Rightarrow> bool result" where
  "checkResizable ops i q = (if i = IS_FULL then adder_isMaxSize ops q else Inr False)"

section \<open>Configurations and steps\<close>

record ('e, 'm) pqc =
  controls :: ResizeControls
  sqs :: "('e, 'm) sqc"
  pcs :: "tid \<Rightarrow> 'e pc"
  addOwner :: "tid option"
  workersPaused :: bool
  terminated :: bool
  puts :: "tid \<Rightarrow> nat"

abbreviation goto :: "tid \<Rightarrow> 'e pc \<Rightarrow> ('e, 'm) pqc \<Rightarrow> ('e, 'm) pqc" where
  "goto t p c \<equiv> c\<lparr>pcs := (pcs c)(t := p)\<rparr>"

definition pq_init :: "('e, 'm) entry_ops \<Rightarrow> c_uint \<Rightarrow> ('e, 'm) DataArray \<Rightarrow> (rid \<Rightarrow> int) \<Rightarrow> ('e, 'm) pqc" where
  "pq_init ops n d ids =
     \<lparr>controls = ResizeControls_new, sqs = sq_init ops n d True ids, pcs = (\<lambda>_. Idle), addOwner = None,
      workersPaused = False, terminated = False, puts = (\<lambda>_. 0)\<rparr>"

text \<open>The label is the producer thread that moves, \<open>None\<close> for its environment.\<close>

inductive pq_step :: "('e, 'm) entry_ops \<Rightarrow> tid option \<Rightarrow> ('e, 'm) pqc \<Rightarrow> ('e, 'm) pqc \<Rightarrow> bool" for ops where
  Call: "pcs c t = Idle \<Longrightarrow>
    pq_step ops (Some t) c
      ((goto t (if terminated c then Returned e IS_TERMINATED else Entering e) c)\<lparr>puts := (puts c)(t := 0)\<rparr>)"
| WaitForResize: "pcs c t = Entering e \<Longrightarrow> t \<notin> sleepers (controls c) \<Longrightarrow> waitForResize t (controls c) = Some (b, k) \<Longrightarrow>
    pq_step ops (Some t) c ((goto t (if b then Adding e else Entering e) c)\<lparr>controls := k\<rparr>)"
| AddLock: "adding (pcs c t) = Some e \<Longrightarrow> addOwner c = None \<Longrightarrow> pq_step ops (Some t) c (c\<lparr>addOwner := Some t\<rparr>)"
| AddFull: "adding (pcs c t) = Some e \<Longrightarrow> addOwner c = Some t \<Longrightarrow> wpc (sqs c) = WIdle \<Longrightarrow>
    isFull (sq (sqs c)) = Inr IS_FULL \<Longrightarrow>
    pq_step ops (Some t) c ((goto t (added (pcs c t) IS_FULL) c)\<lparr>addOwner := None\<rparr>)"
| AddTest: "adding (pcs c t) = Some e \<Longrightarrow> addOwner c = Some t \<Longrightarrow> wpc (sqs c) = WIdle \<Longrightarrow>
    isFull (sq (sqs c)) = Inr n \<Longrightarrow> n \<noteq> IS_FULL \<Longrightarrow>
    pq_step ops (Some t) c (c\<lparr>sqs := (sqs c)\<lparr>wpc := WTested e n\<rparr>\<rparr>)"
| AddReject: "addOwner c = Some t \<Longrightarrow> wpc (sqs c) = WTested e n \<Longrightarrow> insertEntry ops e (sq (sqs c)) = Inr (False, q) \<Longrightarrow>
    pq_step ops (Some t) c
      ((goto t (added (pcs c t) CANNOT_ADD) c)\<lparr>sqs := (sqs c)\<lparr>sq := q, wpc := WIdle\<rparr>, addOwner := None\<rparr>)"
| AddStore: "addOwner c = Some t \<Longrightarrow> wpc (sqs c) = WTested e n \<Longrightarrow> insertEntry ops e (sq (sqs c)) = Inr (True, q) \<Longrightarrow>
    pq_step ops (Some t) c (c\<lparr>sqs := (sqs c)\<lparr>sq := q, wpc := WStored e n\<rparr>\<rparr>)"
| AddPublish: "addOwner c = Some t \<Longrightarrow> wpc (sqs c) = WStored e n \<Longrightarrow>
    pq_step ops (Some t) c
      ((goto t (added (pcs c t) (writeIndex (sq (sqs c)))) c)
        \<lparr>sqs := (sqs c)\<lparr>sq := (sq (sqs c))\<lparr>writeIndex := n, stats := incrementAddedCount (stats (sq (sqs c)))\<rparr>,
           accepted := accepted (sqs c) @ [e], wpc := WIdle\<rparr>,
         addOwner := None, puts := (puts c)(t := Suc (puts c t))\<rparr>)"
| CheckResizable: "pcs c t = Checking e i \<Longrightarrow> checkResizable ops i (sq (sqs c)) = Inr b \<Longrightarrow>
    pq_step ops (Some t) c (goto t (if b then Spinning e else Checked e i) c)"
| CheckFull: "pcs c t = Checked e i \<Longrightarrow> checkFull t i (controls c) = Some (r, k) \<Longrightarrow>
    pq_step ops (Some t) c
      ((goto t (case r of None \<Rightarrow> Rechecking e | Some True \<Rightarrow> LockedAdding e | Some False \<Rightarrow> Returned e i) c)\<lparr>controls := k\<rparr>)"
| Woken: "pcs c t = Rechecking e \<Longrightarrow> t \<notin> sleepers (controls c) \<Longrightarrow> checkFull_woken t (controls c) = Some (r, k) \<Longrightarrow>
    pq_step ops (Some t) c ((goto t (case r of None \<Rightarrow> Rechecking e | Some _ \<Rightarrow> LockedAdding e) c)\<lparr>controls := k\<rparr>)"
| CheckFullForResize: "pcs c t = LockedChecking e i \<Longrightarrow> checkFullForResize t i (controls c) = (b, k) \<Longrightarrow>
    pq_step ops (Some t) c ((goto t (if b then PausingAdders e else Returned e i) c)\<lparr>controls := k\<rparr>)"
| PauseAdders: "pcs c t = PausingAdders e \<Longrightarrow> pauseAdders (controls c) \<Longrightarrow>
    pq_step ops (Some t) c (goto t (PausingWorkers e) c)"
| PauseWorkers: "pcs c t = PausingWorkers e \<Longrightarrow> terminated c \<or> moved (sqs c) = {} \<and> held (sqs c) = Map.empty \<Longrightarrow>
    pq_step ops (Some t) c ((goto t (Resizing e) c)\<lparr>workersPaused := workersPaused c \<or> \<not> terminated c\<rparr>)"
| Resize: "pcs c t = Resizing e \<Longrightarrow> card {x. listed (sqs c) x} < fuel \<Longrightarrow> adder_resize fuel ops (sq (sqs c)) = Inr q \<Longrightarrow>
    pq_step ops (Some t) c ((goto t (ResumingWorkers e) c)\<lparr>sqs := (sqs c)\<lparr>sq := q\<rparr>\<rparr>)"
| ResumeWorkers: "pcs c t = ResumingWorkers e \<Longrightarrow>
    pq_step ops (Some t) c ((goto t (ResumingAdders e) c)\<lparr>workersPaused := workersPaused c \<and> terminated c\<rparr>)"
| ResumeAdders: "pcs c t = ResumingAdders e \<Longrightarrow> resumeAdders t (controls c) = Some k \<Longrightarrow>
    pq_step ops (Some t) c ((goto t (Adding e) c)\<lparr>controls := k\<rparr>)"
| Return: "pcs c t = Returned e i \<Longrightarrow> pq_step ops (Some t) c (goto t Idle c)"
| Spurious: "pq_step ops None c (c\<lparr>controls := (controls c)\<lparr>sleepers := sleepers (controls c) - {t}\<rparr>\<rparr>)"
| Work: "\<not> workersPaused c \<Longrightarrow> sq_step ops (sqs c) s \<Longrightarrow> wpc s = wpc (sqs c) \<Longrightarrow>
    currentSize (sq s) = currentSize (sq (sqs c)) \<Longrightarrow> pq_step ops None c (c\<lparr>sqs := s\<rparr>)"
| Terminate: "pq_step ops None c (c\<lparr>terminated := True\<rparr>)"

inductive pq_reach :: "('e, 'm) entry_ops \<Rightarrow> ('e, 'm) pqc \<Rightarrow> ('e, 'm) pqc \<Rightarrow> bool" for ops where
  Refl: "pq_reach ops c c"
| Step: "pq_reach ops c c' \<Longrightarrow> pq_step ops l c' c'' \<Longrightarrow> pq_reach ops c c''"

section \<open>The controls\<close>

text \<open>
  The classes of program counters: threads counted in \<^verbatim>\<open>addingCount\<close>, the owner of \<^verbatim>\<open>resizeQueuesLock\<close>, the
  resizing thread, the resizing thread once it saw the counter at 0, and threads that may sleep.
\<close>

fun counted :: "'e pc \<Rightarrow> bool" where
  "counted (Adding e) = True" | "counted (Checking e i) = True" | "counted (Spinning e) = True"
| "counted (Checked e i) = True" | "counted p = False"

fun locks :: "'e pc \<Rightarrow> bool" where
  "locks (LockedAdding e) = True" | "locks (LockedChecking e i) = True" | "locks p = False"

fun exclusive :: "'e pc \<Rightarrow> bool" where
  "exclusive (PausingWorkers e) = True" | "exclusive (Resizing e) = True" | "exclusive (ResumingWorkers e) = True"
| "exclusive (ResumingAdders e) = True" | "exclusive p = False"

fun resizer :: "'e pc \<Rightarrow> bool" where
  "resizer (PausingAdders e) = True" | "resizer p = exclusive p"

fun sleepy :: "'e pc \<Rightarrow> bool" where
  "sleepy (Entering e) = True" | "sleepy (Rechecking e) = True" | "sleepy p = False"

definition members :: "('e pc \<Rightarrow> bool) \<Rightarrow> (tid \<Rightarrow> 'e pc) \<Rightarrow> tid set" where
  "members P p = {t. P (p t)}"

lemma members_iff [simp]: "t \<in> members P p \<longleftrightarrow> P (p t)"
  by (simp add: members_def)

lemma members_upd [simp]: "members P (p(t := x)) = (if P x then insert t (members P p) else members P p - {t})"
  by (auto simp: members_def)

lemma members_absorb [simp]:
  "P (p t) \<Longrightarrow> insert t (members P p) = members P p" "\<not> P (p t) \<Longrightarrow> members P p - {t} = members P p"
  by auto

lemma members_single: "members P p = {u} \<Longrightarrow> P (p t) \<Longrightarrow> t = u"
  by (metis members_iff singletonD)

lemma members_none: "members P p = {} \<Longrightarrow> \<not> P (p t)"
  by (metis members_iff empty_iff)

definition lock_part :: "ResizeControls \<Rightarrow> (tid \<Rightarrow> 'e pc) \<Rightarrow> bool" where
  "lock_part k p \<longleftrightarrow>
     members locks p = {} \<and> resizeQueuesLock k = Mutex_init \<or>
     (\<exists>t. members locks p = {t} \<and> resizeQueuesLock k = \<lparr>owner = Some t, depth = 1\<rparr> \<and> \<not> resizing k)"

definition resize_part :: "ResizeControls \<Rightarrow> (tid \<Rightarrow> 'e pc) \<Rightarrow> bool" where
  "resize_part k p \<longleftrightarrow>
     members resizer p = {} \<and> \<not> resizing k \<or> (\<exists>t. members resizer p = {t} \<and> resizing k)"

definition count_part :: "ResizeControls \<Rightarrow> (tid \<Rightarrow> 'e pc) \<Rightarrow> bool" where
  "count_part k p \<longleftrightarrow>
     finite (members counted p) \<and> addingCount k = int (card (members counted p)) \<and>
     (members exclusive p = {} \<or> members counted p = {})"

definition sleep_part :: "ResizeControls \<Rightarrow> (tid \<Rightarrow> 'e pc) \<Rightarrow> bool" where
  "sleep_part k p \<longleftrightarrow> sleepers k \<subseteq> members sleepy p \<and> (sleepers k = {} \<or> resizing k)"

definition ctl_ok :: "ResizeControls \<Rightarrow> (tid \<Rightarrow> 'e pc) \<Rightarrow> bool" where
  "ctl_ok k p \<longleftrightarrow> lock_part k p \<and> resize_part k p \<and> count_part k p \<and> sleep_part k p"

lemmas ctl_parts = ctl_ok_def lock_part_def resize_part_def count_part_def sleep_part_def

lemma exclusive_resizer: "exclusive x \<Longrightarrow> resizer x"
  by (cases x) auto

text \<open>A thread that changes its place without changing its class.\<close>

lemma ctl_ok_same:
  assumes ok: "ctl_ok k p" and cl: "counted x = counted (p t)" "locks x = locks (p t)" "resizer x = resizer (p t)"
    "exclusive x \<Longrightarrow> members counted p = {}" "sleepy (p t) \<Longrightarrow> sleepy x"
  shows "ctl_ok k (p(t := x))"
proof -
  have "members counted (p(t := x)) = members counted p" "members locks (p(t := x)) = members locks p"
    "members resizer (p(t := x)) = members resizer p" using cl(1-3) by auto
  note eq = this
  have "members exclusive (p(t := x)) = {} \<or> members counted p = {}"
    using ok cl(4) by (auto simp: ctl_ok_def count_part_def)
  moreover have "members sleepy p \<subseteq> members sleepy (p(t := x))" using cl(5) by auto
  ultimately show ?thesis
    using ok unfolding ctl_ok_def lock_part_def resize_part_def count_part_def sleep_part_def eq by auto
qed

lemma no_resizer: "members resizer p = {} \<Longrightarrow> members exclusive p = {}"
  using exclusive_resizer by (auto simp: members_def)

text \<open>A thread that can take the lock and does not hold it finds it free.\<close>

lemma lock_free:
  assumes "ctl_ok k p" and "\<not> locks (p t)" and "lockControls t k = Some k'"
  shows "members locks p = {}" and "resizeQueuesLock k = Mutex_init" and "k' = k\<lparr>resizeQueuesLock := \<lparr>owner = Some t, depth = 1\<rparr>\<rparr>"
proof -
  have "False" if "members locks p = {u}" "resizeQueuesLock k = \<lparr>owner = Some u, depth = 1\<rparr>" for u
  proof -
    have "u \<noteq> t" using that(1) assms(2) by (metis members_iff singletonI)
    then show False using assms(3) that(2) by (simp add: lockControls_def)
  qed
  then have "members locks p = {} \<and> resizeQueuesLock k = Mutex_init"
    using assms(1) unfolding ctl_ok_def lock_part_def by blast
  then show "members locks p = {}" "resizeQueuesLock k = Mutex_init" by auto
  then show "k' = k\<lparr>resizeQueuesLock := \<lparr>owner = Some t, depth = 1\<rparr>\<rparr>"
    using assms(3) by (simp add: lockControls_def)
qed

lemma lock_held:
  assumes "ctl_ok k p" and "locks (p t)"
  shows "members locks p = {t}" "resizeQueuesLock k = \<lparr>owner = Some t, depth = 1\<rparr>" "\<not> resizing k"
proof -
  obtain u where u: "members locks p = {u}" "resizeQueuesLock k = \<lparr>owner = Some u, depth = 1\<rparr>" "\<not> resizing k"
    using assms members_none [of locks p t] unfolding ctl_ok_def lock_part_def by blast
  moreover have "u = t" using members_single [OF u(1) assms(2)] by simp
  ultimately show "members locks p = {t}" "resizeQueuesLock k = \<lparr>owner = Some t, depth = 1\<rparr>" "\<not> resizing k" by auto
qed

text \<open>A resizing thread is the only one, and once it is exclusive nobody is counted.\<close>

lemma resizer_only:
  assumes "ctl_ok k p" and "resizer (p t)"
  shows "members resizer p = {t}" "resizing k" "members locks p = {}" "resizeQueuesLock k = Mutex_init"
    "exclusive (p t) \<Longrightarrow> members counted p = {}"
proof -
  obtain u where u: "members resizer p = {u}" "resizing k"
    using assms members_none [of resizer p t] unfolding ctl_ok_def resize_part_def by blast
  moreover have "u = t" using members_single [OF u(1) assms(2)] by simp
  ultimately show "members resizer p = {t}" "resizing k" by auto
  then show "members locks p = {}" "resizeQueuesLock k = Mutex_init"
    using assms(1) unfolding ctl_ok_def lock_part_def by auto
  show "members counted p = {}" if "exclusive (p t)"
    using assms(1) members_none [of exclusive p t] that unfolding ctl_ok_def count_part_def by blast
qed

lemma ctl_waitForResize:
  assumes ok: "ctl_ok k p" and p: "p t = Entering e" and w: "waitForResize t k = Some (b, k')"
  shows "ctl_ok k' (p(t := if b then Adding e else Entering e))"
proof -
  obtain k1 where k1: "lockControls t k = Some k1" using w by (auto simp: waitForResize_def split: option.splits)
  have "\<not> locks (p t)" using p by simp
  note f = lock_free [OF ok this k1]
  have k': "if b then k' = k\<lparr>addingCount := addingCount k + 1\<rparr> \<and> \<not> resizing k
      else k' = k\<lparr>sleepers := insert t (sleepers k)\<rparr> \<and> resizing k"
    using w k1 f by (cases k) (auto simp: waitForResize_def waitResizing_def unlockControls_def split: if_splits)
  show ?thesis
  proof (cases b)
    case True
    have "members resizer p = {}" "sleepers k = {}" using ok k' True unfolding ctl_parts by auto
    then show ?thesis using ok k' True p f no_resizer [of p] unfolding ctl_parts by simp
  next
    case False
    then show ?thesis using ok k' p f unfolding ctl_parts by auto
  qed
qed

lemma ctl_awaitResized:
  assumes ok: "lock_part k p" "resize_part k p" "count_part k (p(t := Rechecking e))" "sleep_part k p"
    and free: "members locks p = {}" "resizeQueuesLock k = Mutex_init" and p: "\<not> resizer (p t)"
    and w: "awaitResized t (k\<lparr>resizeQueuesLock := \<lparr>owner = Some t, depth = 1\<rparr>\<rparr>) = (r, k')"
  shows "ctl_ok k' (p(t := case r of None \<Rightarrow> Rechecking e | Some _ \<Rightarrow> LockedAdding e))"
proof (cases "resizing k")
  case True
  then have "r = None" "k' = k\<lparr>sleepers := insert t (sleepers k)\<rparr>"
    using w free by (cases k; auto simp: awaitResized_def waitResizing_def unlockControls_def)+
  then show ?thesis using ok free p True unfolding ctl_parts by auto
next
  case False
  then have "r = Some True" "k' = k\<lparr>resizeQueuesLock := \<lparr>owner = Some t, depth = 1\<rparr>\<rparr>"
    using w by (auto simp: awaitResized_def)
  moreover have "members resizer p = {}" "sleepers k = {}" using ok False unfolding ctl_parts by auto
  ultimately show ?thesis using ok free p False no_resizer [of p] unfolding ctl_parts by simp
qed

lemma count_part_leave:
  assumes "count_part k p" and "counted (p t)" and "\<not> counted x" and "\<not> exclusive x"
  shows "count_part (k\<lparr>addingCount := addingCount k - 1\<rparr>) (p(t := x))"
proof -
  have "members counted p \<noteq> {}" using assms(2) members_iff [of t counted p] by auto
  moreover have "int (card (members counted p - {t})) = int (card (members counted p)) - 1"
    using assms(1,2) card_Suc_Diff1 [of "members counted p" t] by (simp add: count_part_def)
  ultimately show ?thesis using assms unfolding count_part_def by auto
qed

lemma ctl_checkFull:
  assumes ok: "ctl_ok k p" and p: "p t = Checked e i" and w: "checkFull t i k = Some (r, k')"
  shows "ctl_ok k' (p(t := case r of None \<Rightarrow> Rechecking e | Some True \<Rightarrow> LockedAdding e | Some False \<Rightarrow> Returned e i))"
proof -
  obtain k1 where k1: "lockControls t k = Some k1" using w by (auto simp: checkFull_def split: option.splits)
  have nl: "\<not> locks (p t)" "\<not> resizer (p t)" "counted (p t)" using p by simp_all
  note f = lock_free [OF ok nl(1) k1]
  let ?k = "k\<lparr>addingCount := addingCount k - 1\<rparr>"
  have cnt: "count_part ?k (p(t := x))" if "\<not> counted x" "\<not> exclusive x" for x
    using ok nl(3) that count_part_leave unfolding ctl_ok_def by blast
  show ?thesis
  proof (cases "i = IS_FULL")
    case True
    then have a: "awaitResized t (?k\<lparr>resizeQueuesLock := \<lparr>owner = Some t, depth = 1\<rparr>\<rparr>) = (r, k')"
      using w k1 f by (cases k) (auto simp: checkFull_def Let_def)
    have "ctl_ok k' (p(t := case r of None \<Rightarrow> Rechecking e | Some _ \<Rightarrow> LockedAdding e))"
      using ctl_awaitResized [OF _ _ cnt _ _ _ nl(2) a] ok f unfolding ctl_parts by simp
    moreover have "r \<noteq> Some False" using a by (auto simp: awaitResized_def split: if_splits)
    ultimately show ?thesis by (cases r) auto
  next
    case False
    then have "r = Some False" "k' = ?k"
      using w k1 f by (cases k; auto simp: checkFull_def Let_def unlockControls_def)+
    moreover have "lock_part ?k (p(t := Returned e i)) \<and> resize_part ?k (p(t := Returned e i)) \<and>
        sleep_part ?k (p(t := Returned e i))"
      using ok f p unfolding ctl_parts by auto
    ultimately show ?thesis using cnt [of "Returned e i"] by (simp add: ctl_ok_def)
  qed
qed

lemma ctl_woken:
  assumes ok: "ctl_ok k p" and p: "p t = Rechecking e" and w: "checkFull_woken t k = Some (r, k')"
  shows "ctl_ok k' (p(t := case r of None \<Rightarrow> Rechecking e | Some _ \<Rightarrow> LockedAdding e))"
proof -
  obtain k1 where k1: "lockControls t k = Some k1" "awaitResized t k1 = (r, k')"
    using w by (auto simp: checkFull_woken_def)
  have nl: "\<not> locks (p t)" "\<not> resizer (p t)" using p by simp_all
  note f = lock_free [OF ok nl(1) k1(1)]
  have "p(t := Rechecking e) = p" using p by auto
  then show ?thesis
    using ctl_awaitResized [of k p t e r k'] ok f nl(2) k1(2) unfolding ctl_ok_def by simp
qed

lemma ctl_checkFullForResize:
  assumes ok: "ctl_ok k p" and p: "p t = LockedChecking e i" and w: "checkFullForResize t i k = (b, k')"
  shows "ctl_ok k' (p(t := if b then PausingAdders e else Returned e i))"
proof -
  have "locks (p t)" using p by simp
  note l = lock_held [OF ok this]
  have k': "b = (i = IS_FULL)" "k' = k\<lparr>resizeQueuesLock := Mutex_init, resizing := b\<rparr>"
    using w l by (auto simp: checkFullForResize_def unlockControls_def)
  have "members resizer p = {}" "sleepers k = {}" using ok l unfolding ctl_parts by auto
  then show ?thesis using ok k' l p no_resizer [of p] unfolding ctl_parts by simp
qed

lemma ctl_resumeAdders:
  assumes ok: "ctl_ok k p" and p: "p t = ResumingAdders e" and w: "resumeAdders t k = Some k'"
  shows "ctl_ok k' (p(t := Adding e))"
proof -
  obtain k1 where k1: "lockControls t k = Some k1" using w by (auto simp: resumeAdders_def)
  have nl: "\<not> locks (p t)" "resizer (p t)" "exclusive (p t)" using p by simp_all
  note f = lock_free [OF ok nl(1) k1]
  have k': "k' = k\<lparr>addingCount := addingCount k + 1, resizing := False, sleepers := {}\<rparr>"
    using w k1 f by (cases k) (auto simp: resumeAdders_def unlockControls_def broadcastResizing_def)
  note r = resizer_only [OF ok nl(2)]
  have "members exclusive p = {t}" using r(1) nl(3) exclusive_resizer by (auto simp: members_def)
  then show ?thesis using ok k' f p r(1) r(5) [OF nl(3)] unfolding ctl_parts by simp
qed

end
