(* ===== verification/Producer_Invariant.thy ===== *)
theory Producer_Invariant
  imports Producer_Protocol Sync_Properties
begin

text \<open>
  The invariant of the producers: the resizing thread is alone with the queue, so that its call of \<^verbatim>\<open>resize\<close> is
  a growth step of the queue's state machine, and every run of the producers and the workers is a run of that
  state machine.
\<close>

section \<open>The part of the queue\<close>

definition adder_part :: "('e, 'm) pqc \<Rightarrow> bool" where
  "adder_part c \<longleftrightarrow> (addOwner c = None \<longrightarrow> wpc (sqs c) = WIdle) \<and>
     (\<forall>t. addOwner c = Some t \<longrightarrow> (\<exists>e. adding (pcs c t) = Some e \<and>
        (wpc (sqs c) = WIdle \<or> (\<exists>n. wpc (sqs c) = WTested e n) \<or> (\<exists>n. wpc (sqs c) = WStored e n))))"

definition pause_part :: "('e, 'm) pqc \<Rightarrow> bool" where
  "pause_part c \<longleftrightarrow> (workersPaused c \<longrightarrow> moved (sqs c) = {} \<and> held (sqs c) = Map.empty) \<and>
     (\<forall>t e. pcs c t = Resizing e \<longrightarrow> terminated c \<or> workersPaused c)"

lemma adding_class: "adding p \<noteq> None \<Longrightarrow> counted p \<or> locks p"
  by (cases p) auto

lemma added_class:
  assumes "adding p = Some e"
  shows "counted (added p i) = counted p" "locks (added p i) = locks p" "resizer (added p i) = resizer p"
    "\<not> exclusive (added p i)" "\<not> sleepy p" "added p i \<noteq> Resizing e'"
  using assms by (cases p; auto)+

lemma ctl_added: "ctl_ok k p \<Longrightarrow> adding (p t) = Some e \<Longrightarrow> ctl_ok k (p(t := added (p t) i))"
  using added_class [where p = "p t" and e = e] by (intro ctl_ok_same) auto

text \<open>While a thread is about to resize, no thread is inside \<^verbatim>\<open>add\<close> and the writer's steps are between calls.\<close>

lemma resizing_alone:
  assumes ok: "ctl_ok (controls c) (pcs c)" and ad: "adder_part c" and t: "pcs c t = Resizing e"
  shows "adding (pcs c u) = None" and "addOwner c = None" and "wpc (sqs c) = WIdle"
    and "resizer (pcs c u) \<Longrightarrow> u = t"
proof -
  have r: "resizer (pcs c t)" "exclusive (pcs c t)" using t by simp_all
  note o = resizer_only [OF ok r(1)]
  show a: "adding (pcs c u) = None" for u
    using adding_class [of "pcs c u"] members_none [OF o(3)] members_none [OF o(5) [OF r(2)]] by blast
  show own: "addOwner c = None" using ad a by (cases "addOwner c") (auto simp: adder_part_def)
  then show "wpc (sqs c) = WIdle" using ad by (simp add: adder_part_def)
  show "u = t" if "resizer (pcs c u)" using members_single [OF o(1) that] .
qed

definition protocol_ok :: "('e, 'm) pqc \<Rightarrow> bool" where
  "protocol_ok c \<longleftrightarrow> ctl_ok (controls c) (pcs c) \<and> adder_part c \<and> pause_part c"

text \<open>Steps of one thread that stay outside \<^verbatim>\<open>add\<close> keep the adder part.\<close>

lemma adder_part_goto:
  assumes "adder_part c" and "adding (pcs c t) = None"
  shows "adder_part (c\<lparr>pcs := (pcs c)(t := p)\<rparr>)"
  using assms by (auto simp: adder_part_def split: option.splits)

lemma adder_part_cong:
  "addOwner c' = addOwner c \<Longrightarrow> pcs c' = pcs c \<Longrightarrow> wpc (sqs c') = wpc (sqs c) \<Longrightarrow> adder_part c' = adder_part c"
  by (simp add: adder_part_def cong: option.case_cong)

lemma pause_part_goto:
  assumes "pause_part c" and "\<And>e. p \<noteq> Resizing e"
  shows "pause_part (c\<lparr>pcs := (pcs c)(t := p)\<rparr>)"
  using assms by (auto simp: pause_part_def)

lemma pause_part_cong:
  "workersPaused c' = workersPaused c \<Longrightarrow> pcs c' = pcs c \<Longrightarrow> terminated c' = terminated c \<Longrightarrow>
   moved (sqs c') = moved (sqs c) \<Longrightarrow> held (sqs c') = held (sqs c) \<Longrightarrow> pause_part c' = pause_part c"
  by (simp add: pause_part_def)

lemma protocol_goto:
  assumes ok: "protocol_ok c" and k: "ctl_ok k ((pcs c)(t := p))" and a: "adding (pcs c t) = None" and r: "\<And>e. p \<noteq> Resizing e"
  shows "protocol_ok (c\<lparr>pcs := (pcs c)(t := p), controls := k\<rparr>)"
proof -
  let ?c = "c\<lparr>pcs := (pcs c)(t := p)\<rparr>" and ?d = "c\<lparr>pcs := (pcs c)(t := p), controls := k\<rparr>"
  have "adder_part ?c" "pause_part ?c" using ok a r by (auto simp: protocol_ok_def intro: adder_part_goto pause_part_goto)
  then have "adder_part ?d" "pause_part ?d" using adder_part_cong [of ?d ?c] pause_part_cong [of ?d ?c] by simp_all
  then show ?thesis using k by (simp add: protocol_ok_def)
qed

text \<open>The end of \<^verbatim>\<open>add\<close>.\<close>

lemma protocol_added:
  assumes ok: "protocol_ok c" and a: "adding (pcs c t) = Some e" "addOwner c = Some t"
    and s: "moved s = moved (sqs c)" "held s = held (sqs c)" "wpc s = WIdle"
  shows "protocol_ok (c\<lparr>pcs := (pcs c)(t := added (pcs c t) i), sqs := s, addOwner := None, puts := f\<rparr>)"
  using ok s ctl_added [where p = "pcs c" and t = t, OF _ a(1)] added_class(6) [OF a(1)]
  by (auto simp: protocol_ok_def adder_part_def pause_part_def)

text \<open>Every step keeps the protocol part, whatever the queue does.\<close>

theorem protocol_step: "pq_step ops l c c' \<Longrightarrow> protocol_ok c \<Longrightarrow> protocol_ok c'"
proof (induction rule: pq_step.induct)
  case (Call c t e)
  let ?p = "if terminated c then Returned e IS_TERMINATED else Entering e"
  have "ctl_ok (controls c) ((pcs c)(t := ?p))"
    using Call by (intro ctl_ok_same) (auto simp: protocol_ok_def split: if_splits)
  then have "protocol_ok (goto t ?p c)"
    using protocol_goto [OF Call.prems, of "controls c" t ?p] Call.hyps by simp
  then show ?case by (simp add: protocol_ok_def adder_part_def pause_part_def)
next
  case (WaitForResize c t e b k)
  have "ctl_ok k ((pcs c)(t := if b then Adding e else Entering e))"
    using ctl_waitForResize [where p = "pcs c"] WaitForResize unfolding protocol_ok_def by blast
  from protocol_goto [OF WaitForResize.prems this] WaitForResize.hyps(1) show ?case by simp
next
  case (AddLock c t e)
  then show ?case by (auto simp: protocol_ok_def adder_part_def pause_part_def)
next
  case (AddFull c t e)
  from protocol_added [OF AddFull.prems AddFull.hyps(1,2), where s = "sqs c" and i = IS_FULL and f = "puts c"] AddFull.hyps(3)
  show ?case by simp
next
  case (AddTest c t e n)
  then show ?case by (auto simp: protocol_ok_def adder_part_def pause_part_def)
next
  case (AddReject c t e n q)
  then obtain e' where a: "adding (pcs c t) = Some e'" by (auto simp: protocol_ok_def adder_part_def)
  from protocol_added [OF AddReject.prems this AddReject.hyps(1), where s = "(sqs c)\<lparr>sq := q, wpc := WIdle\<rparr>" and i = CANNOT_ADD
      and f = "puts c"]
  show ?case by simp
next
  case (AddStore c t e n q)
  then show ?case by (auto simp: protocol_ok_def adder_part_def pause_part_def)
next
  case (AddPublish c t e n)
  then obtain e' where a: "adding (pcs c t) = Some e'" by (auto simp: protocol_ok_def adder_part_def)
  from protocol_added [OF AddPublish.prems this AddPublish.hyps(1), where i = "writeIndex (sq (sqs c))" and
      s = "(sqs c)\<lparr>sq := (sq (sqs c))\<lparr>writeIndex := n, stats := incrementAddedCount (stats (sq (sqs c)))\<rparr>,
           accepted := accepted (sqs c) @ [e], wpc := WIdle\<rparr>" and f = "(puts c)(t := Suc (puts c t))"]
  show ?case by simp
next
  case (CheckResizable c t e i b)
  have "ctl_ok (controls c) ((pcs c)(t := if b then Spinning e else Checked e i))"
    using CheckResizable by (intro ctl_ok_same) (auto simp: protocol_ok_def split: if_splits)
  from protocol_goto [OF CheckResizable.prems this] CheckResizable.hyps(1) show ?case by simp
next
  case (CheckFull c t e i r k)
  let ?p = "case r of None \<Rightarrow> Rechecking e | Some True \<Rightarrow> LockedAdding e | Some False \<Rightarrow> Returned e i"
  have "ctl_ok k ((pcs c)(t := ?p))"
    using ctl_checkFull [where p = "pcs c"] CheckFull unfolding protocol_ok_def by blast
  from protocol_goto [OF CheckFull.prems this] CheckFull.hyps(1) show ?case by (simp split: option.split bool.split)
next
  case (Woken c t e r k)
  let ?p = "case r of None \<Rightarrow> Rechecking e | Some _ \<Rightarrow> LockedAdding e"
  have "ctl_ok k ((pcs c)(t := ?p))"
    using ctl_woken [where p = "pcs c"] Woken unfolding protocol_ok_def by blast
  from protocol_goto [OF Woken.prems this] Woken.hyps(1) show ?case by (simp split: option.split)
next
  case (CheckFullForResize c t e i b k)
  have "ctl_ok k ((pcs c)(t := if b then PausingAdders e else Returned e i))"
    using ctl_checkFullForResize [where p = "pcs c"] CheckFullForResize unfolding protocol_ok_def by blast
  from protocol_goto [OF CheckFullForResize.prems this] CheckFullForResize.hyps(1) show ?case by simp
next
  case (PauseAdders c t e)
  then have "members counted (pcs c) = {}"
    by (auto simp: protocol_ok_def ctl_ok_def count_part_def pauseAdders_def)
  then have "ctl_ok (controls c) ((pcs c)(t := PausingWorkers e))"
    using PauseAdders by (intro ctl_ok_same) (auto simp: protocol_ok_def)
  from protocol_goto [OF PauseAdders.prems this] PauseAdders.hyps(1) show ?case by simp
next
  case (PauseWorkers c t e)
  have ok: "ctl_ok (controls c) (pcs c)" and x: "resizer (pcs c t)" "exclusive (pcs c t)"
    using PauseWorkers by (auto simp: protocol_ok_def)
  have "ctl_ok (controls c) ((pcs c)(t := Resizing e))"
    using PauseWorkers resizer_only(5) [OF ok x] by (intro ctl_ok_same [OF ok]) auto
  then show ?case using PauseWorkers by (auto simp: protocol_ok_def adder_part_def pause_part_def split: option.splits)
next
  case (Resize c t e fuel q)
  have ok: "ctl_ok (controls c) (pcs c)" and x: "resizer (pcs c t)" "exclusive (pcs c t)"
    using Resize by (auto simp: protocol_ok_def)
  have "ctl_ok (controls c) ((pcs c)(t := ResumingWorkers e))"
    using Resize resizer_only(5) [OF ok x] by (intro ctl_ok_same [OF ok]) auto
  then show ?case using Resize by (auto simp: protocol_ok_def adder_part_def pause_part_def split: option.splits)
next
  case (ResumeWorkers c t e)
  have ok: "ctl_ok (controls c) (pcs c)" and x: "resizer (pcs c t)" "exclusive (pcs c t)"
    using ResumeWorkers by (auto simp: protocol_ok_def)
  have "ctl_ok (controls c) ((pcs c)(t := ResumingAdders e))"
    using ResumeWorkers resizer_only(5) [OF ok x] by (intro ctl_ok_same [OF ok]) auto
  moreover have "pcs c u \<noteq> Resizing e'" if "u \<noteq> t" for u e'
    using members_single [OF resizer_only(1) [OF ok x(1)], of u] that by auto
  ultimately show ?case
    using ResumeWorkers by (auto simp: protocol_ok_def adder_part_def pause_part_def split: option.splits)
next
  case (ResumeAdders c t e k)
  have "ctl_ok k ((pcs c)(t := Adding e))"
    using ctl_resumeAdders [where p = "pcs c"] ResumeAdders unfolding protocol_ok_def by blast
  from protocol_goto [OF ResumeAdders.prems this] ResumeAdders.hyps(1) show ?case by simp
next
  case (Return c t e i)
  have "ctl_ok (controls c) ((pcs c)(t := Idle))"
    using Return by (intro ctl_ok_same) (auto simp: protocol_ok_def)
  from protocol_goto [OF Return.prems this] Return.hyps(1) show ?case by simp
next
  case (Spurious c t)
  have "ctl_ok ((controls c)\<lparr>sleepers := sleepers (controls c) - {t}\<rparr>) (pcs c)"
    using Spurious unfolding protocol_ok_def ctl_parts by auto
  then show ?case using Spurious by (auto simp: protocol_ok_def adder_part_def pause_part_def)
next
  case (Work c s)
  then show ?case by (auto simp: protocol_ok_def pause_part_def adder_part_def cong: option.case_cong)
next
  case (Terminate c)
  then show ?case by (auto simp: protocol_ok_def pause_part_def adder_part_def cong: option.case_cong)
qed

lemma protocol_init: "protocol_ok (pq_init ops n d ids)"
  by (simp add: protocol_ok_def ctl_parts adder_part_def pause_part_def pq_init_def ResizeControls_new_def sq_init_def
      members_def)

theorem protocol_reach: "pq_reach ops c c' \<Longrightarrow> protocol_ok c \<Longrightarrow> protocol_ok c'"
  by (induction rule: pq_reach.induct) (auto intro: protocol_step)

section \<open>Runs of the producers are runs of the queue\<close>

lemma adjusted_zero [simp]: "adjusted s 0 r i = i"
  by (simp add: adjusted_def)

lemma adjust_readers_zero [simp]: "adjust_readers 0 r xs s = s"
  by (simp add: adjust_readers_def cong: if_cong)

lemma insertEntry_size: "insertEntry ops e q = Inr (b, q') \<Longrightarrow> currentSize q' = currentSize q"
  by (auto simp: insertEntry_def insertAt_def queueData_set_def bind_r_Inr_iff split: if_splits option.splits)

text \<open>
  The sizes \<^verbatim>\<open>getNewQueueSize\<close> asks for below the limit: twice the size, and at the limit the size itself. A ring can grow
  that is at the limit or at most half of it.
\<close>

definition size_limit :: "('e, 'm) entry_ops \<Rightarrow> int" where
  "size_limit ops = 524288000 div uint (getEntrySize ops)"

definition can_grow :: "('e, 'm) entry_ops \<Rightarrow> int \<Rightarrow> bool" where
  "can_grow ops r \<longleftrightarrow> 2 * r \<le> size_limit ops \<or> r = size_limit ops"

lemma size_limit_bound: "size_limit ops \<le> 524288000" "0 < size_limit ops \<Longrightarrow> getEntrySize ops \<noteq> 0"
proof -
  show "0 < size_limit ops \<Longrightarrow> getEntrySize ops \<noteq> 0" by (auto simp: size_limit_def)
  show "size_limit ops \<le> 524288000"
  proof (cases "getEntrySize ops = 0")
    case False
    then have "1 \<le> uint (getEntrySize ops)" by (simp add: uint_c_uint_pos [symmetric])
    then show ?thesis using zdiv_mono2 [of 524288000 1 "uint (getEntrySize ops)"] by (simp add: size_limit_def)
  qed (simp add: size_limit_def)
qed

lemma newSize_doubles:
  assumes cur: "0 < uint (currentSize q)" "can_grow ops (uint (currentSize q))" and new: "getNewQueueSize ops q = Inr size'"
  shows "uint size' \<le> 524288000"
    and "2 * uint (currentSize q) \<le> size_limit ops \<Longrightarrow> uint size' = 2 * uint (currentSize q)"
    and "uint (currentSize q) = size_limit ops \<Longrightarrow> size' = currentSize q"
proof -
  have pos: "0 < size_limit ops" using cur by (auto simp: can_grow_def)
  have lim: "uint (currentSize q) \<le> 524288000" using cur size_limit_bound(1) [of ops] by (auto simp: can_grow_def)
  have u: "uint size' = min (size_limit ops) (2 * uint (currentSize q))"
    using getNewQueueSize_uint [OF size_limit_bound(2) [OF pos], of q] new lim by (auto simp: size_limit_def)
  show "uint size' \<le> 524288000" using u size_limit_bound(1) [of ops] by simp
  show "2 * uint (currentSize q) \<le> size_limit ops \<Longrightarrow> uint size' = 2 * uint (currentSize q)" using u by simp
  show "size' = currentSize q" if "uint (currentSize q) = size_limit ops"
  proof -
    have "uint size' = uint (currentSize q)" using u that cur(1) by simp
    then show ?thesis by (simp only: word_uint_eq_iff)
  qed
qed

text \<open>
  When the rings of a run with initial size \<open>N\<close> can always grow by doubling: the limit is a power of two times \<open>N\<close>, or
  the entries accepted so far, \<open>a\<close>, are few enough that the limit is out of reach.
\<close>

definition size_ok :: "('e, 'm) entry_ops \<Rightarrow> int \<Rightarrow> nat \<Rightarrow> bool" where
  "size_ok ops N a \<longleftrightarrow> (\<exists>k. size_limit ops = N * 2 ^ k) \<or> N \<le> size_limit ops \<and> 2 * (int a + 1) \<le> size_limit ops"

lemma size_ok_mono: "size_ok ops N a \<Longrightarrow> a' \<le> a \<Longrightarrow> size_ok ops N a'"
  by (auto simp: size_ok_def)

lemma size_ok_limit:
  assumes "size_ok ops N a" and "0 < N"
  shows "N \<le> size_limit ops"
proof -
  have "N * 1 \<le> N * 2 ^ k" for k :: nat using assms(2) by (intro mult_left_mono) auto
  then show ?thesis using assms(1) by (auto simp: size_ok_def)
qed

lemma size_ok_grow:
  assumes "size_ok ops N a" and "0 < N" and "r = N * 2 ^ j" "r \<le> size_limit ops" and "r \<le> int a + 1"
  shows "can_grow ops r"
proof (cases "\<exists>k. size_limit ops = N * 2 ^ k")
  case True
  then obtain k where k: "size_limit ops = N * 2 ^ k" by blast
  then have "j \<le> k" using assms(2-4) by simp
  moreover have "N * 2 ^ Suc j \<le> N * 2 ^ k" if "j < k" using that assms(2) by (intro mult_left_mono power_increasing) auto
  ultimately show ?thesis using k assms(3) by (cases "j = k") (auto simp: can_grow_def)
next
  case False
  then show ?thesis using assms(1,5) by (auto simp: size_ok_def can_grow_def)
qed

context entry_class
begin

lemma SyncQueue_resize_same:
  fixes s :: "('e, 'm, 'z) SyncQueue_scheme"
  assumes "ring_ok s" and "rlist_ok s xs" and "length xs < fuel"
  shows "SyncQueue_resize fuel ops (currentSize s) s = Inr s"
proof -
  note r = ring_okD [OF assms(1)]
  have "scanLoop (Suc (unat (currentSize s))) (currentSize s) (currentSize s) (readIndex s) (writeIndex s) (readIndex s) = Inr ()"
    using scanLoop_ok [OF assms(1) order.refl r(3), of 0 "Suc (unat (currentSize s))"] r
      nat_less_unat [OF _ liveCount_less [OF assms(1)]] by (simp add: slotAt_def del: scanLoop.simps)
  then show ?thesis
    using readerList_adjust_ok [OF assms(2,3)]
    by (simp add: SyncQueue_resize_def Let_def resize_smaller del: scanLoop.simps)
qed

lemma resize_grows:
  assumes inv: "sq_inv ops s xs R pos D" and quiet: "wpc s = WIdle" "moved s = {}" "held s = Map.empty"
    and fuel: "card {x. listed s x} < fuel" and res: "adder_resize fuel ops (sq s) = Inr q"
    and g: "can_grow ops (ring_size (sq s))"
  shows "sq_reach ops s (s\<lparr>sq := q\<rparr>) \<and> (q = sq s \<or> ring_size q = 2 * ring_size (sq s) \<and> ring_size q \<le> size_limit ops)"
proof -
  have rp: "ring_part ops s R D" and lp: "list_part s xs R pos" using inv by (auto simp: sq_inv_def)
  note L = list_partD [OF lp] and rw = ring_partD [OF rp]
  have len: "length xs < fuel" using fuel L(2,3) distinct_card [OF L(2)] by simp
  obtain size' where new: "getNewQueueSize ops (sq s) = Inr size'" and sz: "SyncQueue_resize fuel ops size' (sq s) = Inr q"
    using res by (auto simp: adder_resize_def bind_r_Inr_iff)
  have 0: "0 < ring_size (sq s)" using rw(3) by simp
  note d = newSize_doubles [OF 0 g new]
  show ?thesis
  proof (cases "2 * ring_size (sq s) \<le> size_limit ops")
    case True
    have gt: "currentSize (sq s) < size'" and le: "uint size' \<le> 1073741824" and gr: "growth_ok (sq s) size'"
      using d(1) d(2) [OF True] 0 by (simp_all add: word_less_def growth_ok_def)
    have "sq_step ops s (s\<lparr>sq := q\<rparr>)" by (rule sq_step.Grow [OF quiet gt le gr fuel sz])
    moreover have sl: "\<And>x. x \<in> set xs \<Longrightarrow> int (pos x - R) < ring_size (sq s) \<and> rd_index (sq s) x = slotAt (sq s) (pos x - R)"
      using L(8,9) by blast
    have "currentSize q = size'" using SyncQueue_resize_ok [OF rw(1) L(1) len gt le gr sl] sz by auto
    ultimately show ?thesis using d(2) [OF True] True by (auto intro!: sq_reach.Step [OF sq_reach.Refl])
  next
    case False
    then have "q = sq s" using d(3) g sz SyncQueue_resize_same [OF rw(2) L(1) len] by (simp add: can_grow_def)
    then show ?thesis by (auto intro: sq_reach.Refl)
  qed
qed

end

text \<open>A thread on its way to a resize has seen the ring full since the last resize.\<close>

fun saw_full :: "'e pc \<Rightarrow> bool" where
  "saw_full (LockedChecking e i) \<longleftrightarrow> i = IS_FULL"
| "saw_full (PausingAdders e) = True"
| "saw_full (PausingWorkers e) = True"
| "saw_full (Resizing e) = True"
| "saw_full p = False"

definition room_part :: "('e, 'm) pqc \<Rightarrow> bool" where
  "room_part c \<longleftrightarrow> (\<forall>t. saw_full (pcs c t) \<longrightarrow> ring_size (sq (sqs c)) \<le> int (length (accepted (sqs c))) + 1)"

lemma saw_full_class: "saw_full p \<Longrightarrow> locks p \<or> resizer p"
  by (cases p) auto

lemma room_partD: "room_part c \<Longrightarrow> pcs c t = p \<Longrightarrow> saw_full p \<Longrightarrow> ring_size (sq (sqs c)) \<le> int (length (accepted (sqs c))) + 1"
  by (auto simp: room_part_def)

lemma room_goto:
  assumes "room_part c" and "ring_size (sq s) = ring_size (sq (sqs c))" and "length (accepted (sqs c)) \<le> length (accepted s)"
    and "saw_full p \<Longrightarrow> ring_size (sq (sqs c)) \<le> int (length (accepted (sqs c))) + 1"
    and "pcs c' = (pcs c)(t := p)" and "sqs c' = s"
  shows "room_part c'"
  unfolding room_part_def
proof (intro allI impI)
  fix u assume u: "saw_full (pcs c' u)"
  have "ring_size (sq (sqs c)) \<le> int (length (accepted (sqs c))) + 1"
    using u assms(4,5) room_partD [OF assms(1) refl, of u] by (cases "u = t") auto
  then show "ring_size (sq (sqs c')) \<le> int (length (accepted (sqs c'))) + 1" using assms(2,3,6) by simp
qed

lemma accepted_step: "sq_step ops c c' \<Longrightarrow> length (accepted c) \<le> length (accepted c')"
  by (induction rule: sq_step.induct) auto

lemma accepted_mono: "pq_step ops l c c' \<Longrightarrow> length (accepted (sqs c)) \<le> length (accepted (sqs c'))"
  by (induction rule: pq_step.induct) (auto dest: accepted_step)

lemma saw_full_added: "saw_full (added p i) \<Longrightarrow> adding p = Some e \<Longrightarrow> i = IS_FULL"
  by (cases p) (auto split: if_splits)

context entry_class
begin

lemma full_accepted:
  assumes "sq_inv ops s xs R pos D" and "isFull (sq s) = Inr IS_FULL"
  shows "ring_size (sq s) \<le> int (length (accepted s)) + 1"
proof -
  have rp: "ring_part ops s R D" using assms(1) by (simp add: sq_inv_def)
  note rw = ring_partD [OF rp]
  have "int (liveCount (sq s)) = ring_size (sq s) - 1"
    using assms(2) isFull_eq [OF rw(2)] next_slot_valid [OF rw(2)] by (auto split: if_splits)
  then show ?thesis using rw(6) by simp
qed

lemma room_step:
  assumes "pq_step ops l c c'" and "protocol_ok c" and "sq_inv ops (sqs c) xs R pos D" and "room_part c"
  shows "room_part c'"
  using assms
proof (induction rule: pq_step.induct)
  case (AddFull c t e)
  show ?case by (rule room_goto [OF AddFull.prems(3), where s = "sqs c"])
      (use full_accepted [OF AddFull.prems(2) AddFull.hyps(4)] in auto)
next
  case (AddReject c t e n q)
  then obtain e' where a: "adding (pcs c t) = Some e'" by (auto simp: protocol_ok_def adder_part_def)
  have ns: "\<not> saw_full (added (pcs c t) CANNOT_ADD)"
    using saw_full_added [OF _ a, of CANNOT_ADD] by (auto simp: CANNOT_ADD_def IS_FULL_def)
  show ?case
    by (rule room_goto [OF AddReject.prems(3), where s = "(sqs c)\<lparr>sq := q, wpc := WIdle\<rparr>" and t = t and p = "added (pcs c t) CANNOT_ADD"])
      (use insertEntry_size [OF AddReject.hyps(3)] ns in auto)
next
  case (AddPublish c t e n)
  then obtain e' where a: "adding (pcs c t) = Some e'" by (auto simp: protocol_ok_def adder_part_def)
  have "0 \<le> writeIndex (sq (sqs c))"
    using AddPublish.prems(2) ring_okD(7) [OF ring_partD(2)] by (auto simp: sq_inv_def)
  then have ns: "\<not> saw_full (added (pcs c t) (writeIndex (sq (sqs c))))"
    using saw_full_added [OF _ a, of "writeIndex (sq (sqs c))"] by (auto simp: IS_FULL_def)
  show ?case
    by (rule room_goto [OF AddPublish.prems(3), where t = t and p = "added (pcs c t) (writeIndex (sq (sqs c)))" and
      s = "(sqs c)\<lparr>sq := (sq (sqs c))\<lparr>writeIndex := n, stats := incrementAddedCount (stats (sq (sqs c)))\<rparr>,
           accepted := accepted (sqs c) @ [e], wpc := WIdle\<rparr>"]) (use ns in auto)
next
  case (CheckFull c t e i r k)
  show ?case by (rule room_goto [OF CheckFull.prems(3), where t = t and s = "sqs c" and
      p = "case r of None \<Rightarrow> Rechecking e | Some True \<Rightarrow> LockedAdding e | Some False \<Rightarrow> Returned e i"])
      (auto split: option.splits bool.splits)
next
  case (Woken c t e r k)
  show ?case by (rule room_goto [OF Woken.prems(3), where t = t and s = "sqs c" and
      p = "case r of None \<Rightarrow> Rechecking e | Some _ \<Rightarrow> LockedAdding e"]) (auto split: option.splits)
next
  case (CheckFullForResize c t e i b k)
  have "i = IS_FULL" if b using CheckFullForResize.hyps(2) that by (auto simp: checkFullForResize_def split: if_splits)
  then show ?case using room_partD [OF CheckFullForResize.prems(3) CheckFullForResize.hyps(1)]
    by (intro room_goto [OF CheckFullForResize.prems(3), where t = t and s = "sqs c" and
      p = "if b then PausingAdders e else Returned e i"]) (auto split: if_splits)
next
  case (PauseAdders c t e)
  then show ?case using room_partD [OF PauseAdders.prems(3) PauseAdders.hyps(1)]
    by (intro room_goto [OF PauseAdders.prems(3), where t = t and s = "sqs c" and p = "PausingWorkers e"]) auto
next
  case (PauseWorkers c t e)
  then show ?case using room_partD [OF PauseWorkers.prems(3) PauseWorkers.hyps(1)]
    by (intro room_goto [OF PauseWorkers.prems(3), where t = t and s = "sqs c" and p = "Resizing e"]) auto
next
  case (Resize c t e fuel q)
  have "ctl_ok (controls c) (pcs c)" "resizer (pcs c t)" using Resize by (auto simp: protocol_ok_def)
  note o = resizer_only [OF this]
  have "\<not> saw_full (pcs c u)" if "u \<noteq> t" for u
    using saw_full_class [of "pcs c u"] members_none [OF o(3), of u] members_single [OF o(1), of u] that by blast
  then show ?case by (auto simp: room_part_def)
next
  case (Work c s)
  then show ?case using accepted_step [OF Work.hyps(2)] by (fastforce simp: room_part_def)
qed (auto simp: room_part_def insertEntry_size split: if_splits)

definition reach_part :: "('e, 'm) sqc \<Rightarrow> int \<Rightarrow> ('e, 'm) pqc \<Rightarrow> bool" where
  "reach_part s0 N c \<longleftrightarrow> sq_reach ops s0 (sqs c) \<and> (\<exists>j. ring_size (sq (sqs c)) = N * 2 ^ j) \<and>
     ring_size (sq (sqs c)) \<le> size_limit ops \<and> room_part c"

lemma reach_part_step:
  assumes "reach_part s0 N c" and "sq_step ops (sqs c) s" and "ring_size (sq s) = ring_size (sq (sqs c))"
    and "sqs c' = s" and "room_part c'"
  shows "reach_part s0 N c'"
  using assms by (auto simp: reach_part_def intro: sq_reach.Step)

theorem producers_step:
  assumes st: "pq_step ops l c c'" and ok: "protocol_ok c" "\<not> terminated c" and rp: "reach_part s0 N c"
    and N: "0 < N" "size_ok ops N (length (accepted (sqs c)))"
    and s0: "sq_inv ops s0 xs0 R0 pos0 D0"
  shows "reach_part s0 N c'"
proof -
  obtain xs R pos D where inv: "sq_inv ops (sqs c) xs R pos D"
    using rp sq_reach_keeps s0 unfolding reach_part_def by blast
  have room: "room_part c'" using room_step [OF st ok(1) inv] rp by (simp add: reach_part_def)
  from st ok rp N inv room show ?thesis
  proof (induction rule: pq_step.induct)
    case (AddTest c t e n)
    from reach_part_step [OF AddTest.prems(3) sq_step.Test [OF AddTest.hyps(3-5)] _ _ AddTest.prems(7)] show ?case by simp
  next
    case (AddReject c t e n q)
    from reach_part_step [OF AddReject.prems(3) sq_step.Reject [OF AddReject.hyps(2,3)] _ _ AddReject.prems(7)]
    show ?case using insertEntry_size [OF AddReject.hyps(3)] by simp
  next
    case (AddStore c t e n q)
    from reach_part_step [OF AddStore.prems(3) sq_step.Store [OF AddStore.hyps(2,3)] _ _ AddStore.prems(7)]
    show ?case using insertEntry_size [OF AddStore.hyps(3)] by simp
  next
    case (AddPublish c t e n)
    from reach_part_step [OF AddPublish.prems(3) sq_step.Publish [OF AddPublish.hyps(2)] _ _ AddPublish.prems(7)]
    show ?case by simp
  next
    case (Resize c t e fuel q)
    have k: "ctl_ok (controls c) (pcs c)" "adder_part c" and ps: "pause_part c" using Resize.prems(1) by (auto simp: protocol_ok_def)
    have quiet: "wpc (sqs c) = WIdle" by (rule resizing_alone(3) [OF k Resize.hyps(1)])
    have idle: "moved (sqs c) = {}" "held (sqs c) = Map.empty"
      using ps Resize.hyps(1) Resize.prems(2) by (auto simp: pause_part_def)
    obtain j where j: "ring_size (sq (sqs c)) = N * 2 ^ j" "ring_size (sq (sqs c)) \<le> size_limit ops"
      and r: "sq_reach ops s0 (sqs c)" and rm: "room_part c" using Resize.prems(3) by (auto simp: reach_part_def)
    have "can_grow ops (ring_size (sq (sqs c)))"
      using size_ok_grow [OF Resize.prems(5,4) j] room_partD [OF rm Resize.hyps(1)] by simp
    from resize_grows [OF Resize.prems(6) quiet idle Resize.hyps(2,3) this]
    have "sq_reach ops s0 ((sqs c)\<lparr>sq := q\<rparr>)" "q = sq (sqs c) \<or> ring_size q = N * 2 ^ Suc j \<and> ring_size q \<le> size_limit ops"
      using reach_trans [OF _ r] j(1) by auto
    then show ?case using Resize.prems(7) j unfolding reach_part_def by (cases "q = sq (sqs c)") (auto intro: exI [of _ "Suc j"])
  next
    case (Work c s)
    from reach_part_step [OF Work.prems(3) Work.hyps(2) _ _ Work.prems(7)] Work.hyps(4) show ?case by simp
  qed (simp_all add: reach_part_def)
qed

end

end
