(* ===== verification/Producer_Properties.thy ===== *)
theory Producer_Properties
  imports Producer_Invariant
begin

text \<open>
  What the producers guarantee: a resize is alone with the queue, a call adds its entry exactly once, nobody
  sleeps through the end of a resize and no producer is ever stuck, and the runs of producers and workers are
  runs of the multi-reader queue.
\<close>

section \<open>Lemmas\<close>

lemma terminated_mono: "pq_step ops l c c' \<Longrightarrow> terminated c \<Longrightarrow> terminated c'"
  by (induction rule: pq_step.induct) auto

context entry_class
begin

lemma producers_reach:
  assumes "pq_reach ops (pq_init ops n d ids) c" and "\<not> terminated c"
    and sz: "size_ok ops (uint n) (length (accepted (sqs c)))" and n: "2 \<le> uint n"
  shows "reach_part (sq_init ops n d True ids) (uint n) c"
proof -
  have pos: "0 < uint n" using n by simp
  have "uint n \<le> 1073741824" using size_ok_limit [OF sz pos] size_limit_bound(1) [of ops] by simp
  note s0 = init_inv [OF n this, of d True ids]
  have "pq_reach ops c0 c \<Longrightarrow> c0 = pq_init ops n d ids \<Longrightarrow> protocol_ok c \<and>
      (\<not> terminated c \<and> size_ok ops (uint n) (length (accepted (sqs c))) \<longrightarrow> reach_part (sq_init ops n d True ids) (uint n) c)" for c0
  proof (induction rule: pq_reach.induct)
    case (Refl c)
    have r: "ring_size (sq (sq_init ops n d True ids)) = uint n * 2 ^ 0"
      by (simp add: sq_init_def SyncQueue_new_def SyncWriterQueue_new_def ReaderWriterQueue_new_def SyncWriterQueue.defs
          ReaderWriterQueue.defs)
    have "reach_part (sq_init ops n d True ids) (uint n) (pq_init ops n d ids)"
      if "size_ok ops (uint n) a" for a
      unfolding reach_part_def room_part_def
      using r size_ok_limit [OF that pos] by (auto simp: pq_init_def intro!: exI [of _ 0] sq_reach.Refl)
    then show ?case using Refl protocol_init by blast
  next
    case (Step c0 c l c')
    note mono = size_ok_mono [OF _ accepted_mono [OF Step.hyps(2)]]
    show ?case using Step.IH Step.prems protocol_step [OF Step.hyps(2)] terminated_mono [OF Step.hyps(2)] mono
        producers_step [OF Step.hyps(2) _ _ _ pos _ s0] by blast
  qed
  from this [OF assms(1) refl] assms(2) sz show ?thesis by blast
qed

lemma producers_inv:
  assumes "pq_reach ops (pq_init ops n d ids) c" and "\<not> terminated c"
    and sz: "size_ok ops (uint n) (length (accepted (sqs c)))" and n: "2 \<le> uint n"
  obtains xs R pos D where "sq_inv ops (sqs c) xs R pos D" and "getEntrySize ops \<noteq> 0"
    and "\<forall>t e. pcs c t = Resizing e \<longrightarrow> can_grow ops (ring_size (sq (sqs c)))"
proof -
  have r: "reach_part (sq_init ops n d True ids) (uint n) c" by (rule producers_reach [OF assms])
  have pos: "0 < uint n" using n by simp
  have le: "uint n \<le> 1073741824" using size_ok_limit [OF sz pos] size_limit_bound(1) [of ops] by simp
  obtain xs R pos D where "sq_inv ops (sqs c) xs R pos D" using sq_reach_inv [OF _ n le] r unfolding reach_part_def by blast
  moreover have "getEntrySize ops \<noteq> 0" using size_limit_bound(2) [of ops] size_ok_limit [OF sz pos] pos by simp
  moreover have "can_grow ops (ring_size (sq (sqs c)))" if t: "pcs c t = Resizing e" for t e
    using r room_partD [OF _ t] size_ok_grow [OF sz pos] unfolding reach_part_def by auto
  ultimately show thesis using that by blast
qed

end

section \<open>Exactly once\<close>

text \<open>What a thread has published so far in its call: nothing, or its entry once when \<^verbatim>\<open>add\<close> returned an index.\<close>

definition refused :: "int \<Rightarrow> bool" where
  "refused i \<longleftrightarrow> i = IS_FULL \<or> i = CANNOT_ADD \<or> i = IS_TERMINATED"

lemma refused_codes [simp]: "refused IS_FULL" "refused CANNOT_ADD" "refused IS_TERMINATED"
  by (simp_all add: refused_def)

lemma refused_neg: "0 \<le> i \<Longrightarrow> \<not> refused i"
  by (auto simp: refused_def IS_FULL_def CANNOT_ADD_def IS_TERMINATED_def)

fun once :: "'e pc \<Rightarrow> nat \<Rightarrow> bool" where
  "once Idle m \<longleftrightarrow> True"
| "once (Checking e i) m \<longleftrightarrow> (if refused i then m = 0 else 0 \<le> i \<and> m = 1)"
| "once (Checked e i) m \<longleftrightarrow> (if refused i then m = 0 else 0 \<le> i \<and> m = 1)"
| "once (LockedChecking e i) m \<longleftrightarrow> (if refused i then m = 0 else 0 \<le> i \<and> m = 1)"
| "once (Returned e i) m \<longleftrightarrow> i \<noteq> IS_FULL \<and> (if refused i then m = 0 else 0 \<le> i \<and> m = 1)"
| "once p m \<longleftrightarrow> m = 0"

lemma once_added:
  assumes "adding p = Some e" and "once p m"
  shows "refused i \<Longrightarrow> once (added p i) m" and "0 \<le> i \<Longrightarrow> once (added p i) (Suc m)"
  using assms refused_neg [of i] by (cases p; auto)+

lemma once_step:
  assumes "pq_step ops l c c'" and "protocol_ok c" and "0 \<le> writeIndex (sq (sqs c))"
    and "\<forall>t. once (pcs c t) (puts c t)"
  shows "\<forall>t. once (pcs c' t) (puts c' t)"
  using assms
proof (induction rule: pq_step.induct)
  case (Call c t e)
  then show ?case by (auto simp: refused_def IS_TERMINATED_def IS_FULL_def)
next
  case (WaitForResize c t e b k)
  then show ?case using WaitForResize.prems(3) [rule_format, of t] by auto
next
  case (AddFull c t e)
  then show ?case using once_added(1) [OF AddFull.hyps(1), of "puts c t" IS_FULL] by auto
next
  case (AddReject c t e n q)
  then obtain e' where "adding (pcs c t) = Some e'" by (auto simp: protocol_ok_def adder_part_def)
  from once_added(1) [OF this, of "puts c t" CANNOT_ADD] AddReject.prems(3) show ?case by auto
next
  case (AddPublish c t e n)
  then obtain e' where "adding (pcs c t) = Some e'" by (auto simp: protocol_ok_def adder_part_def)
  from once_added(2) [OF this, of "puts c t"] AddPublish.prems(2,3) show ?case by auto
next
  case (CheckResizable c t e i b)
  then show ?case using CheckResizable.prems(3) [rule_format, of t] by (auto simp: checkResizable_def split: if_splits)
next
  case (CheckFull c t e i r k)
  have "r \<noteq> Some False \<Longrightarrow> i = IS_FULL" "r = Some False \<Longrightarrow> i \<noteq> IS_FULL"
    using CheckFull.hyps(2) by (auto simp: checkFull_def awaitResized_def Let_def split: option.splits if_splits)
  then show ?case using CheckFull.prems(3) CheckFull.prems(3) [rule_format, of t] CheckFull.hyps(1)
    by (auto split: option.split bool.split)
next
  case (Woken c t e r k)
  then show ?case using Woken.prems(3) [rule_format, of t] by (auto split: option.split)
next
  case (CheckFullForResize c t e i b k)
  then show ?case using CheckFullForResize.prems(3) [rule_format, of t] by (auto simp: checkFullForResize_def)
next
  case (PauseAdders c t e)
  then show ?case using PauseAdders.prems(3) [rule_format, of t] by auto
next
  case (PauseWorkers c t e)
  then show ?case using PauseWorkers.prems(3) [rule_format, of t] by auto
next
  case (Resize c t e fuel q)
  then show ?case using Resize.prems(3) [rule_format, of t] by auto
next
  case (ResumeWorkers c t e)
  then show ?case using ResumeWorkers.prems(3) [rule_format, of t] by auto
next
  case (ResumeAdders c t e k)
  then show ?case using ResumeAdders.prems(3) [rule_format, of t] by auto
qed auto

context entry_class
begin

lemma once_reach:
  assumes "pq_reach ops (pq_init ops n d ids) c" and "\<not> terminated c"
    and sz: "size_ok ops (uint n) (length (accepted (sqs c)))" and n: "2 \<le> uint n"
  shows "\<forall>t. once (pcs c t) (puts c t)"
proof -
  have "pq_reach ops c0 c \<Longrightarrow> c0 = pq_init ops n d ids \<Longrightarrow> \<not> terminated c \<Longrightarrow>
      size_ok ops (uint n) (length (accepted (sqs c))) \<Longrightarrow> \<forall>t. once (pcs c t) (puts c t)" for c0
  proof (induction rule: pq_reach.induct)
    case (Refl c)
    then show ?case by (simp add: pq_init_def)
  next
    case (Step c0 c l c')
    have nt: "\<not> terminated c" using terminated_mono [OF Step.hyps(2)] Step.prems(2) by blast
    have r: "pq_reach ops (pq_init ops n d ids) c" using Step.hyps(1) Step.prems(1) by simp
    have sc: "size_ok ops (uint n) (length (accepted (sqs c)))"
      by (rule size_ok_mono [OF Step.prems(3) accepted_mono [OF Step.hyps(2)]])
    obtain xs R pos D where "sq_inv ops (sqs c) xs R pos D" by (rule producers_inv [OF r nt sc n])
    then have "0 \<le> writeIndex (sq (sqs c))" using ring_okD(7) [OF ring_partD(2)] by (auto simp: sq_inv_def)
    then show ?case
      using once_step [OF Step.hyps(2)] protocol_reach [OF r protocol_init] Step.IH Step.prems(1) nt sc by blast
  qed
  from this [OF assms(1) refl assms(2) sz] show ?thesis .
qed

end

section \<open>Progress\<close>

definition busy :: "'e pc \<Rightarrow> bool" where
  "busy p \<longleftrightarrow> p \<noteq> Idle \<and> (\<forall>e i. p \<noteq> Returned e i)"

text \<open>With the lock free and no resize in progress, every section of the controls can be entered.\<close>

lemma controls_enabled:
  assumes "resizeQueuesLock k = Mutex_init"
  shows "\<exists>r. waitForResize t k = Some r" "\<exists>r. checkFull t i k = Some r" "\<exists>r. checkFull_woken t k = Some r"
    "\<exists>r. resumeAdders t k = Some r"
  using assms by (auto simp: control_defs Let_def)

context entry_class
begin

lemma insertEntry_total:
  assumes "rwq_inv ops q"
  shows "\<exists>b q'. insertEntry ops e q = Inr (b, q')"
proof (cases "\<exists>m. storable ops e m")
  case True
  then show ?thesis using store_ok [OF assms] by metis
next
  case False
  moreover obtain a where "data_ok ops (currentSize q) a (dataEntries q)" using assms by (auto simp: rwq_inv_def)
  ultimately show ?thesis using insertEntry_refused by blast
qed

lemma add_enabled:
  assumes inv: "sq_inv ops (sqs c) xs R pos D" and ok: "adder_part c" and own: "addOwner c = Some t"
  shows "\<exists>c'. pq_step ops (Some t) c c'"
proof -
  have rw: "rwq_inv ops (sq (sqs c))" "ring_ok (sq (sqs c))" using inv ring_partD(1,2) by (auto simp: sq_inv_def)
  obtain e where a: "adding (pcs c t) = Some e"
    and w: "wpc (sqs c) = WIdle \<or> (\<exists>n. wpc (sqs c) = WTested e n) \<or> (\<exists>n. wpc (sqs c) = WStored e n)"
    using ok own by (auto simp: adder_part_def)
  obtain b q where i: "insertEntry ops e (sq (sqs c)) = Inr (b, q)" using insertEntry_total [OF rw(1)] by blast
  obtain m where f: "isFull (sq (sqs c)) = Inr m" using isFull_eq [OF rw(2)] by blast
  from w consider "wpc (sqs c) = WIdle" "m = IS_FULL" | "wpc (sqs c) = WIdle" "m \<noteq> IS_FULL"
    | n where "wpc (sqs c) = WTested e n" b | n where "wpc (sqs c) = WTested e n" "\<not> b" | n where "wpc (sqs c) = WStored e n"
    by blast
  then show ?thesis
    using a own i f by cases (auto intro: pq_step.AddFull pq_step.AddTest pq_step.AddReject pq_step.AddStore pq_step.AddPublish)
qed

lemma resize_enabled:
  assumes inv: "sq_inv ops s xs R pos D" and g: "can_grow ops (ring_size (sq s))" and ent: "getEntrySize ops \<noteq> 0"
  shows "\<exists>fuel q. card {x. listed s x} < fuel \<and> adder_resize fuel ops (sq s) = Inr q"
proof -
  have rp: "ring_part ops s R D" and lp: "list_part s xs R pos" using inv by (auto simp: sq_inv_def)
  note L = list_partD [OF lp] and rw = ring_partD [OF rp]
  obtain size' where new: "getNewQueueSize ops (sq s) = Inr size'"
    using getNewQueueSize_uint [OF ent] by blast
  have 0: "0 < ring_size (sq s)" using rw(3) by simp
  note d = newSize_doubles [OF 0 g new]
  have len: "length xs < Suc (length xs)" "card {x. listed s x} < Suc (length xs)"
    using L(2,3) distinct_card [OF L(2)] by simp_all
  have sl: "\<And>x. x \<in> set xs \<Longrightarrow> int (pos x - R) < ring_size (sq s) \<and> rd_index (sq s) x = slotAt (sq s) (pos x - R)"
    using L(8,9) by blast
  have "\<exists>q. SyncQueue_resize (Suc (length xs)) ops size' (sq s) = Inr q"
  proof (cases "2 * ring_size (sq s) \<le> size_limit ops")
    case True
    have "currentSize (sq s) < size'" "uint size' \<le> 1073741824" "growth_ok (sq s) size'"
      using d(1) d(2) [OF True] rw(3) by (simp_all add: word_less_def growth_ok_def)
    from SyncQueue_resize_ok [OF rw(1) L(1) len(1) this sl] show ?thesis by blast
  next
    case False
    then show ?thesis using d(3) g [unfolded can_grow_def] SyncQueue_resize_same [OF rw(2) L(1) len(1)] by auto
  qed
  then show ?thesis using len(2) new by (intro exI [of _ "Suc (length xs)"]) (auto simp: adder_resize_def)
qed

lemma counted_enabled:
  assumes "resizeQueuesLock (controls c) = Mutex_init" and "counted (pcs c t)" and "adding (pcs c t) = None"
    and "getEntrySize ops \<noteq> 0"
  shows "\<exists>c'. pq_step ops (Some t) c c'"
proof -
  have "\<exists>b. checkResizable ops i (sq (sqs c)) = Inr b" for i
    using assms(4) by (auto simp: checkResizable_def adder_isMaxSize_def MAX_QUEUE_SIZE_def)
  then show ?thesis
    using assms(2,3) controls_enabled(2) [OF assms(1)]
    by (cases "pcs c t") (auto, metis pq_step.CheckResizable, metis pq_step.CheckFull surj_pair)
qed

lemma resizer_enabled:
  assumes ok: "protocol_ok c" and own: "\<And>u. adding (pcs c u) = None" and t: "resizer (pcs c t)"
    and quiet: "moved (sqs c) = {}" "held (sqs c) = Map.empty"
    and inv: "sq_inv ops (sqs c) xs R pos D" and ent: "getEntrySize ops \<noteq> 0"
    and g: "\<forall>t e. pcs c t = Resizing e \<longrightarrow> can_grow ops (ring_size (sq (sqs c)))"
  shows "\<exists>u c'. busy (pcs c u) \<and> pq_step ops (Some u) c c'"
proof -
  have ctl: "ctl_ok (controls c) (pcs c)" using ok by (simp add: protocol_ok_def)
  note o = resizer_only [OF ctl t]
  have bt: "busy (pcs c t)" using t by (cases "pcs c t") (auto simp: busy_def)
  show ?thesis
  proof (cases "pcs c t")
    case (PausingAdders e)
    show ?thesis
    proof (cases "members counted (pcs c) = {}")
      case True
      then have "pauseAdders (controls c)" using ctl by (simp add: ctl_ok_def count_part_def pauseAdders_def)
      then show ?thesis using pq_step.PauseAdders [OF PausingAdders] bt by blast
    next
      case False
      then obtain u where u: "counted (pcs c u)" by (auto simp: members_def)
      then have "busy (pcs c u)" by (cases "pcs c u") (auto simp: busy_def)
      then show ?thesis using counted_enabled [OF o(4) u own ent] by blast
    qed
  next
    case (PausingWorkers e)
    then show ?thesis using pq_step.PauseWorkers [OF PausingWorkers] quiet bt by blast
  next
    case (Resizing e)
    then show ?thesis using resize_enabled [OF inv _ ent] g pq_step.Resize [OF Resizing] bt by blast
  next
    case (ResumingWorkers e)
    then show ?thesis using pq_step.ResumeWorkers [OF ResumingWorkers] bt by blast
  next
    case (ResumingAdders e)
    then show ?thesis using controls_enabled(4) [OF o(4)] pq_step.ResumeAdders [OF ResumingAdders] bt by blast
  qed (use t in auto)
qed

lemma waiter_enabled:
  assumes lock: "resizeQueuesLock (controls c) = Mutex_init" and "sleepers (controls c) = {}"
    and "getEntrySize ops \<noteq> 0" and b: "busy (pcs c t)" and a: "adding (pcs c t) = None" "\<not> resizer (pcs c t)" "\<not> locks (pcs c t)"
  shows "\<exists>c'. pq_step ops (Some t) c c'"
proof (cases "counted (pcs c t)")
  case True
  then show ?thesis using counted_enabled [OF lock True a(1) assms(3)] by blast
next
  case False
  then consider e where "pcs c t = Entering e" | e where "pcs c t = Rechecking e"
    using b a by (cases "pcs c t") (auto simp: busy_def)
  then show ?thesis
  proof cases
    case 1
    then show ?thesis using controls_enabled(1) [OF lock] assms(2) pq_step.WaitForResize [OF 1] by (metis empty_iff surj_pair)
  next
    case 2
    then show ?thesis using controls_enabled(3) [OF lock] assms(2) pq_step.Woken [OF 2] by (metis empty_iff surj_pair)
  qed
qed

theorem progress:
  assumes ok: "protocol_ok c" and b: "busy (pcs c t)" and quiet: "moved (sqs c) = {}" "held (sqs c) = Map.empty"
    and inv: "sq_inv ops (sqs c) xs R pos D" and ent: "getEntrySize ops \<noteq> 0"
    and g: "\<forall>t e. pcs c t = Resizing e \<longrightarrow> can_grow ops (ring_size (sq (sqs c)))"
  shows "\<exists>u c'. busy (pcs c u) \<and> pq_step ops (Some u) c c'"
proof -
  have ctl: "ctl_ok (controls c) (pcs c)" and ad: "adder_part c" using ok by (auto simp: protocol_ok_def)
  have ab: "busy p" if "adding p \<noteq> None" for p :: "'e pc" using that by (cases p) (auto simp: busy_def)
  show ?thesis
  proof (cases "addOwner c")
    case (Some u)
    then have "busy (pcs c u)" using ad ab by (auto simp: adder_part_def)
    then show ?thesis using add_enabled [OF inv ad Some] by blast
  next
    case None
    show ?thesis
    proof (cases "\<exists>u. adding (pcs c u) \<noteq> None")
      case True
      then show ?thesis using pq_step.AddLock [OF _ None] ab by blast
    next
      case False
      then have own: "\<And>u. adding (pcs c u) = None" by blast
      show ?thesis
      proof (cases "\<exists>u. locks (pcs c u)")
        case True
        then obtain u e i where u: "pcs c u = LockedChecking e i"
          using own by (metis adding.simps(3) locks.elims(2) option.distinct(1))
        then have "busy (pcs c u)" by (simp add: busy_def)
        then show ?thesis using pq_step.CheckFullForResize [OF u] by (metis surj_pair)
      next
        case False
        then have lock: "resizeQueuesLock (controls c) = Mutex_init"
          using ctl by (auto simp: ctl_ok_def lock_part_def members_def)
        show ?thesis
        proof (cases "\<exists>u. resizer (pcs c u)")
          case True
          then show ?thesis using resizer_enabled [OF ok own _ quiet inv ent g] by blast
        next
          case False
          then have "sleepers (controls c) = {}"
            using ctl by (auto simp: ctl_ok_def resize_part_def sleep_part_def members_def)
          then show ?thesis
            using waiter_enabled [OF lock _ ent b own] False \<open>\<not> (\<exists>u. locks (pcs c u))\<close> b by blast
        qed
      qed
    qed
  qed
qed

end

section \<open>A first call\<close>

lemma first_adding:
  obtains c where "pq_reach ops (pq_init ops n d ids) c" "pcs c 0 = Adding e" "sqs c = sq_init ops n d True ids"
    "addOwner c = Some 0" "controls c = ResizeControls_new\<lparr>addingCount := 1\<rparr>" "\<not> terminated c"
proof -
  let ?c0 = "pq_init ops n d ids"
  let ?c1 = "(goto 0 (if terminated ?c0 then Returned e IS_TERMINATED else Entering e) ?c0)\<lparr>puts := (puts ?c0)(0 := 0)\<rparr>"
  let ?k = "ResizeControls_new\<lparr>addingCount := 1\<rparr>"
  let ?c2 = "(goto 0 (if True then Adding e else Entering e) ?c1)\<lparr>controls := ?k\<rparr>"
  let ?c3 = "?c2\<lparr>addOwner := Some 0\<rparr>"
  have "pq_step ops (Some 0) ?c0 ?c1" by (rule pq_step.Call) (simp add: pq_init_def)
  moreover have "pq_step ops (Some 0) ?c1 ?c2"
    by (rule pq_step.WaitForResize) (simp_all add: pq_init_def ResizeControls_new_def control_defs)
  moreover have "pq_step ops (Some 0) ?c2 ?c3" by (rule pq_step.AddLock [where e = e]) (simp_all add: pq_init_def)
  ultimately have "pq_reach ops ?c0 ?c3" by (meson pq_reach.Refl pq_reach.Step)
  then show ?thesis by (rule that) (simp_all add: pq_init_def)
qed

lemma sq_init_fields:
  "writeIndex (sq (sq_init ops n d True ids)) = 0" "readIndex (sq (sq_init ops n d True ids)) = 0"
  "currentSize (sq (sq_init ops n d True ids)) = n" "wpc (sq_init ops n d True ids) = WIdle"
  "moved (sq_init ops n d True ids) = {}" "held (sq_init ops n d True ids) = Map.empty"
  by (simp_all add: sq_init_def SyncQueue_new_def SyncWriterQueue_new_def ReaderWriterQueue_new_def
      SyncWriterQueue.defs ReaderWriterQueue.defs)

text \<open>A queue of one slot is always full: the first call goes straight to a resize.\<close>

lemma first_resizing:
  "\<exists>c. pq_reach (sample_ops 256) (pq_init (sample_ops 256) 1 DataArray_init (\<lambda>_. 0)) c \<and> pcs c 0 = Resizing e"
proof -
  let ?ops = "sample_ops 256"
  obtain c where c: "pq_reach ?ops (pq_init ?ops 1 DataArray_init (\<lambda>_. 0)) c" "pcs c 0 = Adding e"
    "sqs c = sq_init ?ops 1 DataArray_init True (\<lambda>_. 0)" "addOwner c = Some 0"
    "controls c = ResizeControls_new\<lparr>addingCount := 1\<rparr>" "\<not> terminated c"
    by (rule first_adding)
  note f = sq_init_fields [of ?ops 1 DataArray_init "\<lambda>_. 0"]
  have full: "isFull (sq (sqs c)) = Inr IS_FULL" by (simp add: isFull_def nextIndex_def f c(3))
  have room: "checkResizable ?ops IS_FULL (sq (sqs c)) = Inr False"
    unfolding c(3) checkResizable_def adder_isMaxSize_def MAX_QUEUE_SIZE_def getEntrySize_def f
    by (simp add: sample_ops_def word_le_def)
  let ?k2 = "ResizeControls_new\<lparr>resizeQueuesLock := \<lparr>owner = Some 0, depth = 1\<rparr>\<rparr>"
  let ?k3 = "ResizeControls_new\<lparr>resizing := True\<rparr>"
  let ?a = "(goto 0 (added (pcs c 0) IS_FULL) c)\<lparr>addOwner := None\<rparr>"
  let ?b = "goto 0 (if False then Spinning e else Checked e IS_FULL) ?a"
  let ?c = "(goto 0 (case Some True of None \<Rightarrow> Rechecking e | Some True \<Rightarrow> LockedAdding e | Some False \<Rightarrow> Returned e IS_FULL) ?b)\<lparr>controls := ?k2\<rparr>"
  let ?d = "?c\<lparr>addOwner := Some 0\<rparr>"
  let ?e = "(goto 0 (added (pcs ?d 0) IS_FULL) ?d)\<lparr>addOwner := None\<rparr>"
  let ?f = "(goto 0 (if True then PausingAdders e else Returned e IS_FULL) ?e)\<lparr>controls := ?k3\<rparr>"
  let ?g = "goto 0 (PausingWorkers e) ?f"
  let ?h = "(goto 0 (Resizing e) ?g)\<lparr>workersPaused := workersPaused ?g \<or> \<not> terminated ?g\<rparr>"
  have "pq_step ?ops (Some 0) c ?a" by (rule pq_step.AddFull [where e = e]) (simp_all add: c f full [unfolded c(3)])
  moreover have "pq_step ?ops (Some 0) ?a ?b" by (rule pq_step.CheckResizable) (simp_all add: c(2) room)
  moreover have "pq_step ?ops (Some 0) ?b ?c"
    by (rule pq_step.CheckFull) (simp_all add: c ResizeControls_new_def control_defs Let_def)
  moreover have "pq_step ?ops (Some 0) ?c ?d" by (rule pq_step.AddLock [where e = e]) simp_all
  moreover have "pq_step ?ops (Some 0) ?d ?e" by (rule pq_step.AddFull [where e = e]) (simp_all add: c f full [unfolded c(3)])
  moreover have "pq_step ?ops (Some 0) ?e ?f"
    by (rule pq_step.CheckFullForResize) (simp_all add: ResizeControls_new_def control_defs)
  moreover have "pq_step ?ops (Some 0) ?f ?g" by (rule pq_step.PauseAdders) (simp_all add: ResizeControls_new_def control_defs)
  moreover have "pq_step ?ops (Some 0) ?g ?h" by (rule pq_step.PauseWorkers) (simp_all add: c f)
  ultimately have "pq_reach ?ops (pq_init ?ops 1 DataArray_init (\<lambda>_. 0)) ?h"
    using c(1) by (meson pq_reach.Step)
  then show ?thesis by (intro exI [of _ ?h]) simp
qed

text \<open>In a queue of two slots with a limit of four the first call returns slot 0.\<close>

abbreviation ops4 :: "(queue_entry, sample_member) entry_ops" where
  "ops4 \<equiv> sample_ops 131071992"

lemma first_returned:
  "\<exists>c. pq_reach ops4 (pq_init ops4 2 DataArray_init (\<lambda>_. 0)) c \<and> pcs c 0 = Returned (demo_entry 1) 0 \<and> \<not> terminated c"
proof -
  obtain c where c: "pq_reach ops4 (pq_init ops4 2 DataArray_init (\<lambda>_. 0)) c" "pcs c 0 = Adding (demo_entry 1)"
    "sqs c = sq_init ops4 2 DataArray_init True (\<lambda>_. 0)" "addOwner c = Some 0"
    "controls c = ResizeControls_new\<lparr>addingCount := 1\<rparr>" "\<not> terminated c"
    by (rule first_adding)
  note f = sq_init_fields [of ops4 2 DataArray_init "\<lambda>_. 0"]
  have "sq_inv ops4 (sqs c) [] 0 (\<lambda>_. 0) []" unfolding c(3) by (rule sample.init_inv) simp_all
  then have inv: "rwq_inv ops4 (sq (sqs c))" by (simp add: sq_inv_def ring_part_def)
  obtain q where q: "insertEntry ops4 (demo_entry 1) (sq (sqs c)) = Inr (True, q)"
    "q = (sq (sqs c))\<lparr>queueData := queueData q, dataEntries := dataEntries q\<rparr>"
    by (rule sample.store_ok [OF inv storable_demo])
  have w: "writeIndex q = 0" by (subst q(2)) (simp add: c f)
  have full: "isFull (sq (sqs c)) = Inr 1" unfolding c(3) isFull_def f nextIndex_def by (simp add: IS_FULL_def)
  let ?a = "c\<lparr>sqs := (sqs c)\<lparr>wpc := WTested (demo_entry 1) 1\<rparr>\<rparr>"
  let ?b = "?a\<lparr>sqs := (sqs ?a)\<lparr>sq := q, wpc := WStored (demo_entry 1) 1\<rparr>\<rparr>"
  let ?c = "(goto 0 (added (pcs ?b 0) (writeIndex (sq (sqs ?b)))) ?b)
        \<lparr>sqs := (sqs ?b)\<lparr>sq := (sq (sqs ?b))\<lparr>writeIndex := 1, stats := incrementAddedCount (stats (sq (sqs ?b)))\<rparr>,
           accepted := accepted (sqs ?b) @ [demo_entry 1], wpc := WIdle\<rparr>,
         addOwner := None, puts := (puts ?b)(0 := Suc (puts ?b 0))\<rparr>"
  let ?d = "goto 0 (if False then Spinning (demo_entry 1) else Checked (demo_entry 1) 0) ?c"
  let ?e = "(goto 0 (case Some False of None \<Rightarrow> Rechecking (demo_entry 1) | Some True \<Rightarrow> LockedAdding (demo_entry 1)
      | Some False \<Rightarrow> Returned (demo_entry 1) 0) ?d)\<lparr>controls := ResizeControls_new\<rparr>"
  have "pq_step ops4 (Some 0) c ?a" by (rule pq_step.AddTest [where e = "demo_entry 1"]) (simp_all add: c f full [unfolded c(3)] IS_FULL_def)
  moreover have "pq_step ops4 (Some 0) ?a ?b" by (rule pq_step.AddStore [where e = "demo_entry 1"]) (simp_all add: c(4) q(1))
  moreover have "pq_step ops4 (Some 0) ?b ?c" by (rule pq_step.AddPublish) (simp_all add: c(4))
  moreover have "pq_step ops4 (Some 0) ?c ?d"
    by (rule pq_step.CheckResizable) (simp_all add: c(2) w checkResizable_def IS_FULL_def)
  moreover have "pq_step ops4 (Some 0) ?d ?e"
    by (rule pq_step.CheckFull) (simp_all add: c ResizeControls_new_def control_defs Let_def IS_FULL_def)
  ultimately have "pq_reach ops4 (pq_init ops4 2 DataArray_init (\<lambda>_. 0)) ?e"
    using c(1) by (meson pq_reach.Step)
  then show ?thesis using c(6) by (intro exI [of _ ?e]) simp
qed

lemma limit4: "size_ok ops4 (uint (2 :: c_uint)) a"
proof -
  have "size_limit ops4 = uint (2 :: c_uint) * 2 ^ 1" by (simp add: size_limit_def getEntrySize_def sample_ops_def)
  then show ?thesis unfolding size_ok_def by blast
qed

section \<open>Properties\<close>





text \<open>
  C14. Exactly once: a call of \<^verbatim>\<open>addToQueue\<close> that returns an index has published its entry once, however often it
  had to try and whoever resized the queue meanwhile; a call that returns a code has published nothing, and
  the code is never \<^verbatim>\<open>IS_FULL\<close>.
\<close>

theorem add_exactly_once:
  assumes "pq_reach (sample_ops sz) (pq_init (sample_ops sz) n d ids) c" and "\<not> terminated c"
    and "size_ok (sample_ops sz) (uint n) (length (accepted (sqs c)))" and "2 \<le> uint n"
    and "pcs c t = Returned e i"
  shows "0 \<le> i \<and> puts c t = 1 \<or> (i = CANNOT_ADD \<or> i = IS_TERMINATED) \<and> puts c t = 0"
  using sample.once_reach [OF assms(1-4), rule_format, of t] assms(5) by (auto simp: refused_def split: if_splits)

theorem add_exactly_once_witness:
  "\<exists>c. pcs c 0 = Returned (demo_entry 1) 0 \<and> puts (c :: (queue_entry, sample_member) pqc) 0 = 1"
proof -
  obtain c where c: "pq_reach ops4 (pq_init ops4 2 DataArray_init (\<lambda>_. 0)) c" "pcs c 0 = Returned (demo_entry 1) 0"
    "\<not> terminated c" using first_returned by blast
  from add_exactly_once [OF c(1,3) limit4 _ c(2)] c(2) show ?thesis by (auto simp: CANNOT_ADD_def IS_TERMINATED_def)
qed

text \<open>
  C16. No producer is stuck: while the workers are between calls, some thread that is inside a call of
  \<^verbatim>\<open>addToQueue\<close> can take a step. No wake-up is lost: a thread sleeps only while some thread resizes.
\<close>

theorem producers_progress:
  assumes "pq_reach (sample_ops sz) (pq_init (sample_ops sz) n d ids) c" and "\<not> terminated c"
    and "size_ok (sample_ops sz) (uint n) (length (accepted (sqs c)))" and "2 \<le> uint n"
    and "busy (pcs c t)" and "moved (sqs c) = {}" "held (sqs c) = Map.empty"
  shows "(\<exists>u c'. busy (pcs c u) \<and> pq_step (sample_ops sz) (Some u) c c') \<and>
    (sleepers (controls c) \<noteq> {} \<longrightarrow> (\<exists>u. resizer (pcs c u)))"
proof -
  have ok: "protocol_ok c" by (rule protocol_reach [OF assms(1) protocol_init])
  obtain xs R pos D where inv: "sq_inv (sample_ops sz) (sqs c) xs R pos D" and ent: "getEntrySize (sample_ops sz) \<noteq> 0"
    and g: "\<forall>t e. pcs c t = Resizing e \<longrightarrow> can_grow (sample_ops sz) (ring_size (sq (sqs c)))"
    by (rule sample.producers_inv [OF assms(1-4)])
  from sample.progress [OF ok assms(5,6,7) inv ent g]
  show ?thesis using ok by (auto simp: protocol_ok_def ctl_ok_def resize_part_def sleep_part_def members_def)
qed

theorem producers_progress_witness:
  "\<exists>c. pcs c 0 = Adding (demo_entry 1) \<and> (\<exists>u c'. busy (pcs c u) \<and> pq_step ops4 (Some u) c c')"
proof -
  obtain c where c: "pq_reach ops4 (pq_init ops4 2 DataArray_init (\<lambda>_. 0)) c" "pcs c 0 = Adding (demo_entry 1)"
    "sqs c = sq_init ops4 2 DataArray_init True (\<lambda>_. 0)" "addOwner c = Some 0"
    "controls c = ResizeControls_new\<lparr>addingCount := 1\<rparr>" "\<not> terminated c"
    by (rule first_adding)
  have "busy (pcs c 0)" "moved (sqs c) = {}" "held (sqs c) = Map.empty" using c(2,3) by (simp_all add: busy_def sq_init_fields)
  from producers_progress [OF c(1,6) limit4 _ this] c(2) show ?thesis by (intro exI [of _ c]) simp
qed

end
