(* ===== verification/Worker_Machine.thy ===== *)
theory Worker_Machine
  imports HPQ_Prelude
begin

text \<open>
  A worker thread and the thread that controls it: \<^verbatim>\<open>consumer/Worker.h\<close> and \<^verbatim>\<open>consumer/Worker.cpp\<close>.

  The worker runs the loop of \<^verbatim>\<open>Worker::run\<close>; the controller calls \<^verbatim>\<open>start\<close>, \<^verbatim>\<open>signal\<close>, \<^verbatim>\<open>pause\<close>, \<^verbatim>\<open>resume\<close>,
  \<^verbatim>\<open>stop\<close> and \<^verbatim>\<open>join\<close>, one call at a time: \<^verbatim>\<open>QueueProcessor\<close> makes these calls under its \<^verbatim>\<open>workerLock\<close>. One step
  is one critical section, or one read or write of a flag outside a lock, so the two interleave in every order.

  A thread that waits on a condition variable is at a program counter of its own (\<open>PauseSleep\<close>, \<open>WorkSleep\<close>
  for the worker, \<open>SignalSleep\<close>, \<open>IdleSleep\<close> for the controller) and is moved on by a signal. The waits of the
  worker may also end without a signal; the two waits of the controller do not, because the source does not
  test their condition again. \<^verbatim>\<open>isWorkLock\<close> is held by the worker between steps exactly at \<open>TestTerminated\<close> and
  \<open>TestPaused\<close>, \<^verbatim>\<open>hasPausedLock\<close> by the controller exactly at \<open>PauseSignal\<close> and \<open>PauseIdle\<close>; the other critical
  sections are one step.

  \<open>init\<close>, \<open>finalize\<close>, \<open>doWork\<close> and \<open>isWork\<close> are virtual: \<open>doWork\<close> may return either value or throw, and
  \<open>isWork\<close> may answer either way.
\<close>

section \<open>State\<close>

datatype run_pc =
    NotStarted | Init | Top | PauseSection | PauseSleep | PauseWoken
  | Working | WorkSection | TestTerminated | TestPaused | WorkSleep | WorkWoken
  | LoopTest | Failing | FailPaused | FailWork | Finalizing | SignalDead | Dead

datatype ctl_pc =
    NoCall
  | Signalling bool | SignalSleep | SignalWoken
  | Pausing bool | PauseSignal bool | PauseIdle bool | IdleSleep | IdleWoken
  | StopResume | StopSignal | StopIdle | StopUnstarted | StopDead

record Worker =
  isStartedFlag :: bool
  isPausedFlag :: bool
  isIdleFlag :: bool
  isTerminatedFlag :: bool
  isDeadFlag :: bool
  isWaitingFlag :: bool
  haveWorkJoiners :: bool
  run_at :: run_pc
  ctl_at :: ctl_pc
  quiet :: bool
  stopped :: bool
  starts :: nat

text \<open>
  \<open>quiet\<close>, \<open>stopped\<close> and \<open>starts\<close> record that a blocking pause has returned and nothing resumed the worker
  since, that \<^verbatim>\<open>stop\<close> has returned, and how often a thread was created.
\<close>

definition Worker_new :: Worker where
  "Worker_new = \<lparr>isStartedFlag = False, isPausedFlag = False, isIdleFlag = False, isTerminatedFlag = False,
     isDeadFlag = False, isWaitingFlag = False, haveWorkJoiners = False, run_at = NotStarted, ctl_at = NoCall,
     quiet = False, stopped = False, starts = 0\<rparr>"

abbreviation run_goto :: "run_pc \<Rightarrow> Worker \<Rightarrow> Worker" where "run_goto p w \<equiv> w\<lparr>run_at := p\<rparr>"
abbreviation ctl_goto :: "ctl_pc \<Rightarrow> Worker \<Rightarrow> Worker" where "ctl_goto p w \<equiv> w\<lparr>ctl_at := p\<rparr>"

definition workLockHeld :: "Worker \<Rightarrow> bool" where
  "workLockHeld w \<longleftrightarrow> run_at w = TestTerminated \<or> run_at w = TestPaused"

fun holdsPausedLock :: "ctl_pc \<Rightarrow> bool" where
  "holdsPausedLock (PauseSignal b) = True" | "holdsPausedLock (PauseIdle b) = True" | "holdsPausedLock p = False"

abbreviation pausedLockHeld :: "Worker \<Rightarrow> bool" where "pausedLockHeld w \<equiv> holdsPausedLock (ctl_at w)"

section \<open>Condition variables\<close>

text \<open>A signal on \<^verbatim>\<open>isWorkWaiting\<close> by the controller, a broadcast on it by the worker.\<close>

definition wakeWorker :: "Worker \<Rightarrow> Worker" where
  "wakeWorker w = (if run_at w = WorkSleep then run_goto WorkWoken w else w)"

definition wakeJoiner :: "Worker \<Rightarrow> Worker" where
  "wakeJoiner w = (if haveWorkJoiners w \<and> ctl_at w = SignalSleep then ctl_goto SignalWoken w else w)"

text \<open>\<^verbatim>\<open>hasPaused.signal()\<close> and \<^verbatim>\<open>isIdle.signal()\<close>.\<close>

definition wakePaused :: "Worker \<Rightarrow> Worker" where
  "wakePaused w = (if run_at w = PauseSleep then run_goto PauseWoken w else w)"

definition wakePauser :: "Worker \<Rightarrow> Worker" where
  "wakePauser w = (if ctl_at w = IdleSleep then ctl_goto IdleWoken w else w)"

text \<open>
  \<^verbatim>\<open>Condition::wait\<close> with a time limit: the absolute time it computes from the time of day, in seconds and nanoseconds.
  The argument is called \<^verbatim>\<open>nsec\<close> but is divided as a number of microseconds; \<^verbatim>\<open>Worker::run\<close> passes whole seconds, in
  32 bits.
\<close>

definition wait_deadline :: "int \<Rightarrow> int \<Rightarrow> int \<Rightarrow> int \<times> int" where
  "wait_deadline tv_sec tv_usec nsec = (tv_sec + nsec div 1000000, tv_usec * 1000 + nsec mod 1000000)"

definition worker_deadline :: "int \<Rightarrow> int \<Rightarrow> c_uint \<Rightarrow> int \<times> int" where
  "worker_deadline tv_sec tv_usec timeoutSeconds = wait_deadline tv_sec tv_usec (uint (timeoutSeconds * 1000000))"

text \<open>Up to 4294 seconds the deadline is that many seconds away and a valid time.\<close>

lemma worker_deadline_eq:
  assumes "uint timeoutSeconds \<le> 4294" and "0 \<le> tv_usec" "tv_usec < 1000000"
  shows "worker_deadline tv_sec tv_usec timeoutSeconds = (tv_sec + uint timeoutSeconds, tv_usec * 1000)"
    and "snd (worker_deadline tv_sec tv_usec timeoutSeconds) < 1000000000"
proof -
  have "uint (timeoutSeconds * 1000000) = uint timeoutSeconds * 1000000"
    using assms(1) by (simp add: uint_word_ariths(3))
  then show e: "worker_deadline tv_sec tv_usec timeoutSeconds = (tv_sec + uint timeoutSeconds, tv_usec * 1000)"
    by (simp add: worker_deadline_def wait_deadline_def)
  show "snd (worker_deadline tv_sec tv_usec timeoutSeconds) < 1000000000" using e assms(3) by simp
qed

section \<open>Operations\<close>

definition Worker_start :: "Worker \<Rightarrow> Worker" where
  "Worker_start w =
     (if \<not> isStartedFlag w \<and> \<not> isTerminatedFlag w
      then w\<lparr>isStartedFlag := True, run_at := Init, starts := Suc (starts w)\<rparr> else w)"

text \<open>The section of \<^verbatim>\<open>signal\<close>; \<open>k\<close> is where the caller continues.\<close>

definition Worker_signal :: "bool \<Rightarrow> ctl_pc \<Rightarrow> Worker \<Rightarrow> Worker" where
  "Worker_signal block k w =
     (let w1 = (if isWaitingFlag w then wakeWorker w else w) in
      if block \<and> \<not> isTerminatedFlag w1 \<and> isStartedFlag w1
      then w1\<lparr>haveWorkJoiners := True, ctl_at := SignalSleep\<rparr> else ctl_goto k w1)"

text \<open>\<^verbatim>\<open>pause\<close>: the section up to the call of \<^verbatim>\<open>signal\<close>, and the rest of it.\<close>

definition Worker_pause_enter :: "bool \<Rightarrow> Worker \<Rightarrow> Worker" where
  "Worker_pause_enter block w =
     (if isTerminatedFlag w then ctl_goto NoCall w
      else if \<not> isPausedFlag w then w\<lparr>isPausedFlag := True, ctl_at := PauseSignal block\<rparr>
      else ctl_goto (PauseIdle block) w)"

definition Worker_pause_idle :: "bool \<Rightarrow> Worker \<Rightarrow> Worker" where
  "Worker_pause_idle block w =
     (if block \<and> \<not> isIdleFlag w \<and> isStartedFlag w then ctl_goto IdleSleep w
      else w\<lparr>ctl_at := NoCall, quiet := quiet w \<or> block\<rparr>)"

definition Worker_resume :: "Worker \<Rightarrow> Worker" where
  "Worker_resume w = (if isPausedFlag w then wakePaused (w\<lparr>isPausedFlag := False\<rparr>) else w)"

definition Worker_stop :: "Worker \<Rightarrow> Worker" where
  "Worker_stop w =
     w\<lparr>isTerminatedFlag := True, ctl_at := (if isStartedFlag w then StopResume else StopUnstarted), quiet := False\<rparr>"

definition Worker_stop_idle :: "Worker \<Rightarrow> Worker" where
  "Worker_stop_idle w = w\<lparr>isIdleFlag := False, ctl_at := NoCall, stopped := True\<rparr>"

definition Worker_stop_unstarted :: "Worker \<Rightarrow> Worker" where
  "Worker_stop_unstarted w = w\<lparr>isPausedFlag := False, isIdleFlag := False, ctl_at := StopDead\<rparr>"

definition signalDead :: "Worker \<Rightarrow> Worker" where
  "signalDead w = w\<lparr>isDeadFlag := True\<rparr>"

text \<open>The call of \<^verbatim>\<open>join\<close> returns exactly when the worker is dead.\<close>

definition Worker_join :: "Worker \<Rightarrow> bool" where
  "Worker_join w = isDeadFlag w"

text \<open>The sections of \<^verbatim>\<open>run\<close>.\<close>

definition run_pause :: "Worker \<Rightarrow> Worker" where
  "run_pause w =
     (if isPausedFlag w \<and> \<not> isTerminatedFlag w
      then run_goto PauseSleep (wakePauser (w\<lparr>isIdleFlag := True\<rparr>))
      else run_goto LoopTest w)"

definition run_sleep :: "Worker \<Rightarrow> Worker" where
  "run_sleep w =
     (if isPausedFlag w then run_goto LoopTest w
      else run_goto WorkSleep (wakeJoiner (w\<lparr>isWaitingFlag := True\<rparr>)))"

definition fail_pause :: "Worker \<Rightarrow> Worker" where
  "fail_pause w = run_goto FailWork (if isPausedFlag w then (wakePauser w)\<lparr>isIdleFlag := False\<rparr> else w)"

definition fail_work :: "Worker \<Rightarrow> Worker" where
  "fail_work w = run_goto Finalizing ((wakeJoiner w)\<lparr>isWaitingFlag := False\<rparr>)"

section \<open>Steps\<close>

text \<open>The label is true for the steps of the worker thread.\<close>

inductive w_step :: "bool \<Rightarrow> Worker \<Rightarrow> Worker \<Rightarrow> bool" where
  Init: "run_at w = Init \<Longrightarrow> w_step True w (run_goto Top w)"
| Top: "run_at w = Top \<Longrightarrow> w_step True w (run_goto (if isPausedFlag w then PauseSection else Working) w)"
| PauseSection: "run_at w = PauseSection \<Longrightarrow> \<not> pausedLockHeld w \<Longrightarrow> w_step True w (run_pause w)"
| PauseWoken: "run_at w = PauseWoken \<Longrightarrow> \<not> pausedLockHeld w \<Longrightarrow>
    w_step True w (w\<lparr>isIdleFlag := False, run_at := LoopTest\<rparr>)"
| WorkMore: "run_at w = Working \<Longrightarrow> w_step True w (run_goto LoopTest w)"
| WorkNone: "run_at w = Working \<Longrightarrow> w_step True w (run_goto WorkSection w)"
| WorkThrow: "run_at w = Working \<Longrightarrow> w_step True w (run_goto Failing w)"
| IsWork: "run_at w = WorkSection \<Longrightarrow> w_step True w (run_goto LoopTest w)"
| NoWork: "run_at w = WorkSection \<Longrightarrow> w_step True w (run_goto TestTerminated w)"
| TestTerminated: "run_at w = TestTerminated \<Longrightarrow>
    w_step True w (run_goto (if isTerminatedFlag w then LoopTest else TestPaused) w)"
| TestPaused: "run_at w = TestPaused \<Longrightarrow> w_step True w (run_sleep w)"
| WorkWoken: "run_at w = WorkWoken \<Longrightarrow> w_step True w (w\<lparr>isWaitingFlag := False, run_at := LoopTest\<rparr>)"
| LoopTest: "run_at w = LoopTest \<Longrightarrow> w_step True w (run_goto (if isTerminatedFlag w then Finalizing else Top) w)"
| Failing: "run_at w = Failing \<Longrightarrow> w_step True w (w\<lparr>isTerminatedFlag := True, run_at := FailPaused\<rparr>)"
| FailPaused: "run_at w = FailPaused \<Longrightarrow> \<not> pausedLockHeld w \<Longrightarrow> w_step True w (fail_pause w)"
| FailWork: "run_at w = FailWork \<Longrightarrow> w_step True w (fail_work w)"
| Finalizing: "run_at w = Finalizing \<Longrightarrow> w_step True w (run_goto SignalDead w)"
| SignalDead: "run_at w = SignalDead \<Longrightarrow> w_step True w (run_goto Dead (signalDead w))"
| WakeWork: "run_at w = WorkSleep \<Longrightarrow> w_step False w (run_goto WorkWoken w)"
| WakePause: "run_at w = PauseSleep \<Longrightarrow> w_step False w (run_goto PauseWoken w)"
| CallStart: "ctl_at w = NoCall \<Longrightarrow> w_step False w (Worker_start w)"
| CallSignal: "ctl_at w = NoCall \<Longrightarrow> w_step False w (ctl_goto (Signalling b) w)"
| Signal: "ctl_at w = Signalling b \<Longrightarrow> \<not> workLockHeld w \<Longrightarrow> w_step False w (Worker_signal b NoCall w)"
| SignalWoken: "ctl_at w = SignalWoken \<Longrightarrow> \<not> workLockHeld w \<Longrightarrow> w_step False w (ctl_goto NoCall w)"
| CallPause: "ctl_at w = NoCall \<Longrightarrow> w_step False w (if isTerminatedFlag w then w else ctl_goto (Pausing b) w)"
| Pause: "ctl_at w = Pausing b \<Longrightarrow> w_step False w (Worker_pause_enter b w)"
| PauseSignal: "ctl_at w = PauseSignal b \<Longrightarrow> \<not> workLockHeld w \<Longrightarrow> w_step False w (Worker_signal False (PauseIdle b) w)"
| PauseIdle: "ctl_at w = PauseIdle b \<Longrightarrow> w_step False w (Worker_pause_idle b w)"
| IdleWoken: "ctl_at w = IdleWoken \<Longrightarrow> w_step False w (w\<lparr>ctl_at := NoCall, quiet := True\<rparr>)"
| CallResume: "ctl_at w = NoCall \<Longrightarrow> w_step False w ((Worker_resume w)\<lparr>quiet := False\<rparr>)"
| CallStop: "ctl_at w = NoCall \<Longrightarrow> w_step False w (Worker_stop w)"
| StopResume: "ctl_at w = StopResume \<Longrightarrow> w_step False w (ctl_goto StopSignal (Worker_resume w))"
| StopSignal: "ctl_at w = StopSignal \<Longrightarrow> \<not> workLockHeld w \<Longrightarrow> w_step False w (Worker_signal False StopIdle w)"
| StopIdle: "ctl_at w = StopIdle \<Longrightarrow> w_step False w (Worker_stop_idle w)"
| StopUnstarted: "ctl_at w = StopUnstarted \<Longrightarrow> w_step False w (Worker_stop_unstarted w)"
| StopDead: "ctl_at w = StopDead \<Longrightarrow> w_step False w ((signalDead w)\<lparr>ctl_at := NoCall, stopped := True\<rparr>)"

inductive w_reach :: "Worker \<Rightarrow> Worker \<Rightarrow> bool" where
  Refl: "w_reach w w"
| Step: "w_reach w w' \<Longrightarrow> w_step l w' w'' \<Longrightarrow> w_reach w w''"

text \<open>
  The steps between two calls of the controller: those of the worker thread, the rest of a call that was made,
  and wakeups.
\<close>

inductive run_step :: "Worker \<Rightarrow> Worker \<Rightarrow> bool" where
  Thread: "w_step True w w' \<Longrightarrow> run_step w w'"
| Continue: "ctl_at w \<noteq> NoCall \<Longrightarrow> w_step False w w' \<Longrightarrow> run_step w w'"
| Wake: "run_at w = WorkSleep \<Longrightarrow> run_step w (run_goto WorkWoken w)"
| WakePaused: "run_at w = PauseSleep \<Longrightarrow> run_step w (run_goto PauseWoken w)"

inductive run_reach :: "Worker \<Rightarrow> Worker \<Rightarrow> bool" where
  Refl: "run_reach w w"
| Step: "run_step w w' \<Longrightarrow> run_reach w' w'' \<Longrightarrow> run_reach w w''"

lemmas worker_ops = wakeWorker_def wakeJoiner_def wakePaused_def wakePauser_def Worker_start_def Worker_signal_def
  Worker_pause_enter_def Worker_pause_idle_def Worker_resume_def Worker_stop_def Worker_stop_idle_def
  Worker_stop_unstarted_def signalDead_def run_pause_def run_sleep_def fail_pause_def fail_work_def workLockHeld_def Let_def

section \<open>Invariant\<close>

text \<open>Where the worker is away from the queue: from these places it reaches \<open>Working\<close> only when it is not paused.\<close>

definition away :: "run_pc \<Rightarrow> bool" where
  "away p \<longleftrightarrow> p \<in> {NotStarted, Init, Top, PauseSection, PauseSleep, PauseWoken, LoopTest}"

definition flags_part :: "Worker \<Rightarrow> bool" where
  "flags_part w \<longleftrightarrow>
     (isIdleFlag w \<longrightarrow> run_at w = PauseSleep \<or> run_at w = PauseWoken) \<and>
     (run_at w = PauseSleep \<longrightarrow> isIdleFlag w \<and> isPausedFlag w) \<and>
     (run_at w = WorkSleep \<longrightarrow> isWaitingFlag w \<and> ctl_at w \<noteq> SignalSleep) \<and>
     (isStartedFlag w \<longleftrightarrow> run_at w \<noteq> NotStarted) \<and> starts w = (if isStartedFlag w then 1 else 0) \<and>
     (ctl_at w = SignalSleep \<longrightarrow> haveWorkJoiners w)"

definition pausing_part :: "Worker \<Rightarrow> bool" where
  "pausing_part w \<longleftrightarrow>
     (pausedLockHeld w \<or> ctl_at w = IdleSleep \<or> ctl_at w = IdleWoken \<longrightarrow> isPausedFlag w) \<and>
     (isPausedFlag w \<and> (\<forall>b. ctl_at w \<noteq> PauseSignal b) \<longrightarrow> run_at w \<noteq> WorkSleep) \<and>
     (ctl_at w = IdleSleep \<longrightarrow> run_at w \<noteq> PauseSleep) \<and>
     (quiet w \<or> ctl_at w = IdleWoken \<longrightarrow> \<not> isTerminatedFlag w \<longrightarrow> isPausedFlag w \<and> away (run_at w))"

definition stopping_part :: "Worker \<Rightarrow> bool" where
  "stopping_part w \<longleftrightarrow>
     (ctl_at w = StopResume \<or> ctl_at w = StopSignal \<or> ctl_at w = StopIdle \<longrightarrow> isTerminatedFlag w \<and> isStartedFlag w) \<and>
     (ctl_at w = StopUnstarted \<or> ctl_at w = StopDead \<longrightarrow> isTerminatedFlag w \<and> \<not> isStartedFlag w) \<and>
     (stopped w \<longrightarrow> isTerminatedFlag w \<and> (\<not> isStartedFlag w \<longrightarrow> isDeadFlag w)) \<and>
     (ctl_at w = StopSignal \<or> ctl_at w = StopIdle \<or> stopped w \<longrightarrow> run_at w \<noteq> PauseSleep) \<and>
     (ctl_at w = StopIdle \<or> stopped w \<longrightarrow> run_at w \<noteq> WorkSleep \<and> run_at w \<noteq> TestPaused) \<and>
     (run_at w \<in> {FailPaused, FailWork, Finalizing, SignalDead, Dead} \<longrightarrow> isTerminatedFlag w) \<and>
     (run_at w = Dead \<longrightarrow> isDeadFlag w)"

definition w_inv :: "Worker \<Rightarrow> bool" where
  "w_inv w \<longleftrightarrow> flags_part w \<and> pausing_part w \<and> stopping_part w"

lemma stoppingD:
  assumes "stopping_part w"
  shows "ctl_at w = StopIdle \<Longrightarrow> run_at w \<noteq> PauseSleep" "ctl_at w = StopUnstarted \<Longrightarrow> \<not> isStartedFlag w"
    "ctl_at w = StopResume \<or> ctl_at w = StopUnstarted \<or> run_at w = FailPaused \<Longrightarrow> isTerminatedFlag w"
  using assms by (auto simp: stopping_part_def)

lemma flags_step: "w_step l w w' \<Longrightarrow> w_inv w \<Longrightarrow> flags_part w'"
  unfolding w_inv_def
  by (induction rule: w_step.induct) (auto simp: flags_part_def pausing_part_def worker_ops stoppingD split: if_splits)

lemma pausing_step: "w_step l w w' \<Longrightarrow> w_inv w \<Longrightarrow> pausing_part w'"
  unfolding w_inv_def
  by (induction rule: w_step.induct)
    (auto simp: flags_part_def pausing_part_def worker_ops away_def stoppingD split: if_splits)

lemma stopping_step: "w_step l w w' \<Longrightarrow> w_inv w \<Longrightarrow> stopping_part w'"
  unfolding w_inv_def
  by (induction rule: w_step.induct)
    (auto simp: flags_part_def stopping_part_def worker_ops split: if_splits)

theorem w_step_inv: "w_step l w w' \<Longrightarrow> w_inv w \<Longrightarrow> w_inv w'"
  using flags_step pausing_step stopping_step by (simp add: w_inv_def)

theorem w_reach_inv: "w_reach w w' \<Longrightarrow> w_inv w \<Longrightarrow> w_inv w'"
  by (induction rule: w_reach.induct) (auto intro: w_step_inv)

lemma run_step_step: "run_step w w' \<Longrightarrow> \<exists>l. w_step l w w'"
  by (induction rule: run_step.induct) (auto intro: w_step.intros)

lemma run_step_inv: "run_step w w' \<Longrightarrow> w_inv w \<Longrightarrow> w_inv w'"
  using run_step_step w_step_inv by blast

lemma w_reach_trans: "w_reach v w \<Longrightarrow> w_reach u v \<Longrightarrow> w_reach u w"
  by (induction rule: w_reach.induct) (auto intro: w_reach.intros)

lemma run_reach_reach: "run_reach w w' \<Longrightarrow> w_reach w w'"
proof (induction rule: run_reach.induct)
  case (Step w w' w'')
  from run_step_step [OF Step(1)] obtain l where "w_step l w w'" by blast
  then show ?case by (rule w_reach_trans [OF Step(3) w_reach.Step [OF w_reach.Refl]])
qed (rule w_reach.Refl)

lemma w_inv_new: "w_inv Worker_new"
  by (simp add: w_inv_def flags_part_def pausing_part_def stopping_part_def Worker_new_def)

end
