(* ===== verification/Worker_Properties.thy ===== *)
theory Worker_Properties
  imports Worker_Machine
begin

text \<open>
  What the calls on a worker guarantee: a blocking pause keeps the worker away from the queue, nobody sleeps
  while the one it waits for sleeps, a stopped worker dies, and a blocking signal to a paused worker does not
  return.
\<close>

section \<open>Lemmas\<close>

text \<open>Distance to the end of the thread for a terminated worker that no longer goes to sleep.\<close>

fun rank :: "run_pc \<Rightarrow> nat" where
  "rank NotStarted = 0" | "rank Init = 9" | "rank Top = 8" | "rank PauseSection = 7" | "rank PauseSleep = 5"
| "rank PauseWoken = 4" | "rank Working = 7" | "rank WorkSection = 6" | "rank TestTerminated = 5" | "rank TestPaused = 4"
| "rank WorkSleep = 5" | "rank WorkWoken = 4" | "rank LoopTest = 3" | "rank Failing = 6" | "rank FailPaused = 5"
| "rank FailWork = 4" | "rank Finalizing = 2" | "rank SignalDead = 1" | "rank Dead = 0"

lemma stopped_facts:
  assumes "w_inv w" and "stopped w"
  shows "isTerminatedFlag w" "run_at w \<noteq> PauseSleep" "run_at w \<noteq> WorkSleep" "run_at w \<noteq> TestPaused"
    "\<not> isStartedFlag w \<Longrightarrow> isDeadFlag w" "run_at w = Dead \<Longrightarrow> isDeadFlag w" "isStartedFlag w \<longleftrightarrow> run_at w \<noteq> NotStarted"
  using assms by (auto simp: w_inv_def stopping_part_def flags_part_def)

lemma stopped_rank:
  assumes "w_step l w w'" and "w_inv w" and "stopped w"
  shows "if l then rank (run_at w') < rank (run_at w) else rank (run_at w') \<le> rank (run_at w)"
  using assms(1) stopped_facts(1-4) [OF assms(2,3)]
  by cases (auto simp: worker_ops)

lemma stopped_worker_step:
  assumes "run_at w \<notin> {NotStarted, Dead, PauseSleep, WorkSleep}" and "ctl_at w = NoCall"
  shows "\<exists>w'. w_step True w w'"
proof -
  have "\<not> pausedLockHeld w" using assms(2) by simp
  then show ?thesis using assms(1) by (cases "run_at w") (auto intro: w_step.intros simp del: holdsPausedLock.simps)
qed

lemma worker_step_ctl:
  "w_step l w w' \<Longrightarrow> l \<Longrightarrow> ctl_at w = NoCall \<Longrightarrow> stopped w \<Longrightarrow> ctl_at w' = NoCall \<and> stopped w'"
  by (induction rule: w_step.induct) (simp_all add: worker_ops)

lemma stopped_dies:
  "w_inv w \<Longrightarrow> stopped w \<Longrightarrow> ctl_at w = NoCall \<Longrightarrow> \<exists>w'. run_reach w w' \<and> isDeadFlag w'"
proof (induction "rank (run_at w)" arbitrary: w rule: less_induct)
  case less
  note f = stopped_facts [OF less.prems(1,2)]
  show ?case
  proof (cases "run_at w = NotStarted \<or> run_at w = Dead")
    case True
    then have "isDeadFlag w" using f(5,6,7) by auto
    then show ?thesis by (blast intro: run_reach.Refl)
  next
    case False
    then obtain v where v: "w_step True w v" using stopped_worker_step [of w] f(2,3) less.prems(3) by auto
    have "rank (run_at v) < rank (run_at w)" using stopped_rank [OF v less.prems(1,2)] by simp
    moreover have "ctl_at v = NoCall" "stopped v" using worker_step_ctl [OF v _ less.prems(3,2)] by auto
    ultimately obtain w' where "run_reach v w'" "isDeadFlag w'" using less.hyps w_step_inv [OF v less.prems(1)] by blast
    then show ?thesis using run_reach.Step [OF run_step.Thread [OF v]] by blast
  qed
qed

text \<open>A blocking signal to a worker that is paused: the worker stays away and wakes nobody.\<close>

definition stuck :: "Worker \<Rightarrow> bool" where
  "stuck w \<longleftrightarrow> ctl_at w = SignalSleep \<and> isPausedFlag w \<and> \<not> isTerminatedFlag w \<and> away (run_at w)"

lemma stuck_step: "w_step l w w' \<Longrightarrow> stuck w \<Longrightarrow> stuck w'"
  by (induction rule: w_step.induct) (auto simp: stuck_def away_def worker_ops)

lemma stuck_reach: "w_reach w w' \<Longrightarrow> stuck w \<Longrightarrow> stuck w'"
  by (induction rule: w_reach.induct) (auto intro: stuck_step)

section \<open>A run\<close>

text \<open>A started worker, paused with a blocking call that has returned.\<close>

definition demo_paused :: Worker where
  "demo_paused = Worker_new\<lparr>isStartedFlag := True, isPausedFlag := True, isIdleFlag := True, run_at := PauseSleep,
     quiet := True, starts := 1\<rparr>"

lemma demo_paused_reach: "w_reach Worker_new demo_paused"
proof -
  let ?a = "Worker_start Worker_new"
  let ?b = "ctl_goto (Pausing True) ?a"
  let ?c = "Worker_pause_enter True ?b"
  let ?d = "Worker_signal False (PauseIdle True) ?c"
  let ?e = "Worker_pause_idle True ?d"
  let ?f = "run_goto Top ?e"
  let ?g = "run_goto PauseSection ?f"
  let ?h = "run_pause ?g"
  let ?i = "?h\<lparr>ctl_at := NoCall, quiet := True\<rparr>"
  note d = Worker_new_def worker_ops
  have "w_step False Worker_new ?a" by (rule w_step.CallStart) (simp add: d)
  moreover have "w_step False ?a ?b" using w_step.CallPause [of ?a True] by (simp add: d)
  moreover have "w_step False ?b ?c" by (rule w_step.Pause) simp
  moreover have "w_step False ?c ?d" by (rule w_step.PauseSignal) (simp_all add: d)
  moreover have "w_step False ?d ?e" by (rule w_step.PauseIdle) (simp add: d)
  moreover have "w_step True ?e ?f" by (rule w_step.Init) (simp add: d)
  moreover have "w_step True ?f ?g" using w_step.Top [of ?f] by (simp add: d)
  moreover have "w_step True ?g ?h" by (rule w_step.PauseSection) (simp_all add: d)
  moreover have "w_step False ?h ?i" by (rule w_step.IdleWoken) (simp add: d)
  ultimately have "w_reach Worker_new ?i" by (meson w_reach.Refl w_reach.Step)
  moreover have "?i = demo_paused" by (simp add: d demo_paused_def)
  ultimately show ?thesis by simp
qed

section \<open>Properties\<close>

text \<open>
  C19. After a call of \<^verbatim>\<open>pause(true)\<close> has returned, and until the worker is resumed or terminated, the worker is not
  inside \<^verbatim>\<open>doWork\<close> and does not enter it: it is outside the part of its loop that touches the queue.
\<close>

theorem worker_pause_blocks:
  assumes "w_reach Worker_new w" and "quiet w" and "\<not> isTerminatedFlag w"
  shows "isPausedFlag w \<and> away (run_at w) \<and> run_at w \<noteq> Working"
  using w_reach_inv [OF assms(1) w_inv_new] assms(2,3) by (auto simp: w_inv_def pausing_part_def away_def)

theorem worker_pause_blocks_witness:
  "run_at demo_paused = PauseSleep \<and> isPausedFlag demo_paused \<and> away (run_at demo_paused)"
  using worker_pause_blocks [OF demo_paused_reach] by (simp add: demo_paused_def Worker_new_def)

text \<open>
  C18. After a call of \<^verbatim>\<open>stop\<close> has returned, the thread ends: it never sleeps again, every step it takes brings it
  closer to its end, no call brings it back, and \<^verbatim>\<open>join\<close> returns after finitely many steps. A worker that was
  never started counts as dead at once and cannot be started any more.
\<close>

theorem worker_stop_ends:
  assumes "w_reach Worker_new w" and "stopped w" and "ctl_at w = NoCall"
  shows "(\<exists>w'. w_reach w w' \<and> Worker_join w') \<and>
    (\<forall>l w'. w_step l w w' \<longrightarrow> (if l then rank (run_at w') < rank (run_at w) else rank (run_at w') \<le> rank (run_at w))) \<and>
    run_at w \<noteq> PauseSleep \<and> run_at w \<noteq> WorkSleep \<and> (\<not> isStartedFlag w \<longrightarrow> Worker_join w) \<and> Worker_start w = w"
proof -
  have inv: "w_inv w" by (rule w_reach_inv [OF assms(1) w_inv_new])
  show ?thesis
    using stopped_dies [OF inv assms(2,3)] run_reach_reach stopped_rank [OF _ inv assms(2)] stopped_facts [OF inv assms(2)]
    by (auto simp: Worker_join_def Worker_start_def)
qed

theorem worker_stop_ends_witness:
  "\<exists>w. stopped w \<and> Worker_join w \<and> Worker_start w = w"
proof -
  let ?a = "Worker_stop Worker_new"
  let ?b = "Worker_stop_unstarted ?a"
  let ?c = "(signalDead ?b)\<lparr>ctl_at := NoCall, stopped := True\<rparr>"
  note d = Worker_new_def worker_ops
  have "w_step False Worker_new ?a" by (rule w_step.CallStop) (simp add: d)
  moreover have "w_step False ?a ?b" by (rule w_step.StopUnstarted) (simp add: d)
  moreover have "w_step False ?b ?c" by (rule w_step.StopDead) (simp add: d)
  ultimately have "w_reach Worker_new ?c" by (meson w_reach.Refl w_reach.Step)
  from worker_stop_ends [OF this] show ?thesis by (intro exI [of _ ?c]) (simp add: d)
qed

text \<open>
  Nobody sleeps while the one it waits for sleeps: a controller asleep in \<^verbatim>\<open>signal(true)\<close> never faces a worker
  asleep for want of work, a controller asleep in \<^verbatim>\<open>pause(true)\<close> never faces a sleeping worker, and at most one
  thread was created.
\<close>

theorem worker_no_lost_wakeup:
  assumes "w_reach Worker_new w"
  shows "\<not> (ctl_at w = SignalSleep \<and> run_at w = WorkSleep) \<and>
    \<not> (ctl_at w = IdleSleep \<and> (run_at w = WorkSleep \<or> run_at w = PauseSleep)) \<and> starts w \<le> 1"
  using w_reach_inv [OF assms w_inv_new] by (auto simp: w_inv_def pausing_part_def flags_part_def)

theorem worker_no_lost_wakeup_witness: "starts demo_paused \<le> 1 \<and> run_at demo_paused = PauseSleep"
  using worker_no_lost_wakeup [OF demo_paused_reach] by (simp add: demo_paused_def)

text \<open>
  A blocking signal to a paused worker never returns unless somebody else resumes or stops the worker, and in
  the source nobody can: \<^verbatim>\<open>QueueProcessor::stop\<close> makes this call while it holds the lock that \<^verbatim>\<open>resume\<close> needs.
\<close>

theorem paused_signal_stuck:
  assumes "w_reach Worker_new w" and "quiet w" and "\<not> isTerminatedFlag w" and "isStartedFlag w"
    and "ctl_at w = Signalling True" and "w_reach (Worker_signal True NoCall w) w'"
  shows "ctl_at w' = SignalSleep"
proof -
  have "isPausedFlag w" "away (run_at w)"
    using w_reach_inv [OF assms(1) w_inv_new] assms(2,3) by (auto simp: w_inv_def pausing_part_def)
  then have "stuck (Worker_signal True NoCall w)" using assms(3,4) by (auto simp: stuck_def worker_ops away_def)
  then have "stuck w'" by (rule stuck_reach [OF assms(6)])
  then show ?thesis by (simp add: stuck_def)
qed

theorem paused_signal_stuck_witness:
  "ctl_at (Worker_signal True NoCall (ctl_goto (Signalling True) demo_paused)) = SignalSleep"
proof -
  have "ctl_at demo_paused = NoCall" by (simp add: demo_paused_def Worker_new_def)
  then have "w_reach Worker_new (ctl_goto (Signalling True) demo_paused)"
    by (rule w_reach.Step [OF demo_paused_reach w_step.CallSignal])
  from paused_signal_stuck [OF this _ _ _ _ w_reach.Refl] show ?thesis by (simp add: demo_paused_def Worker_new_def)
qed

end
