(* ===== verification/Worker_Calls.thy ===== *)
theory Worker_Calls
  imports Worker_Properties
begin

text \<open>
  Calls on a worker return. From every state in which a call on a worker is under way, there is a run of the
  worker and of the rest of the call in which the call returns; only a blocking signal needs the worker not to
  be paused. The measure is the distance of the call to its end, and, while the caller sleeps, the distance of
  the worker to the place where it wakes the caller.
\<close>

section \<open>What holds while a call is under way\<close>

definition signal_part :: "Worker \<Rightarrow> bool" where
  "signal_part w \<longleftrightarrow> (ctl_at w = SignalSleep \<longrightarrow> isStartedFlag w \<and>
     (isTerminatedFlag w \<longrightarrow> run_at w = FailPaused \<or> run_at w = FailWork))"

definition pause_part :: "Worker \<Rightarrow> bool" where
  "pause_part w \<longleftrightarrow> (pausedLockHeld w \<or> ctl_at w = IdleSleep \<longrightarrow> isTerminatedFlag w \<longrightarrow> run_at w = FailPaused) \<and>
     (ctl_at w = IdleSleep \<longrightarrow> isStartedFlag w \<and> run_at w \<noteq> PauseSleep)"

definition unblocked :: "Worker \<Rightarrow> bool" where
  "unblocked w \<longleftrightarrow> (ctl_at w = Signalling True \<or> ctl_at w = SignalSleep \<longrightarrow> \<not> isPausedFlag w)"

definition call_ok :: "Worker \<Rightarrow> bool" where
  "call_ok w \<longleftrightarrow> w_inv w \<and> signal_part w \<and> pause_part w \<and> unblocked w"

lemma w_invD:
  assumes "w_inv w"
  shows "ctl_at w = SignalSleep \<Longrightarrow> haveWorkJoiners w" "ctl_at w = IdleSleep \<Longrightarrow> isPausedFlag w"
    "run_at w = PauseSleep \<Longrightarrow> isIdleFlag w" "run_at w = PauseSleep \<Longrightarrow> isPausedFlag w"
    "run_at w = WorkSleep \<Longrightarrow> ctl_at w \<noteq> SignalSleep" "isStartedFlag w \<longleftrightarrow> run_at w \<noteq> NotStarted"
    "run_at w \<in> {FailPaused, FailWork, Finalizing, SignalDead, Dead} \<Longrightarrow> isTerminatedFlag w"
    "isPausedFlag w \<Longrightarrow> ctl_at w = IdleSleep \<Longrightarrow> run_at w \<noteq> WorkSleep"
proof -
  have p: "flags_part w" "pausing_part w" "stopping_part w" using assms by (simp_all add: w_inv_def)
  show "ctl_at w = SignalSleep \<Longrightarrow> haveWorkJoiners w" "run_at w = PauseSleep \<Longrightarrow> isIdleFlag w"
    "run_at w = PauseSleep \<Longrightarrow> isPausedFlag w" "run_at w = WorkSleep \<Longrightarrow> ctl_at w \<noteq> SignalSleep"
    "isStartedFlag w \<longleftrightarrow> run_at w \<noteq> NotStarted"
    using p(1) unfolding flags_part_def by blast+
  show "ctl_at w = IdleSleep \<Longrightarrow> isPausedFlag w" "isPausedFlag w \<Longrightarrow> ctl_at w = IdleSleep \<Longrightarrow> run_at w \<noteq> WorkSleep"
    using p(2) unfolding pausing_part_def by simp_all
  show "run_at w \<in> {FailPaused, FailWork, Finalizing, SignalDead, Dead} \<Longrightarrow> isTerminatedFlag w"
    using p(3) unfolding stopping_part_def by blast
qed

lemma signal_part_step:
  assumes "w_step l w w'" and "w_inv w" and "signal_part w"
  shows "signal_part w'"
  using assms(1) w_invD(1) [OF assms(2)] assms(3)
  by (induction rule: w_step.induct) (auto simp: signal_part_def worker_ops split: if_splits)

lemma pause_part_step:
  assumes "w_step l w w'" and "w_inv w" and "pause_part w"
  shows "pause_part w'"
  using assms(1) w_invD(2,3) [OF assms(2)] assms(3)
  by (induction rule: w_step.induct) (auto simp: pause_part_def worker_ops split: if_splits)

lemma unblocked_step: "w_step l w w' \<Longrightarrow> l \<or> ctl_at w \<noteq> NoCall \<Longrightarrow> unblocked w \<Longrightarrow> unblocked w'"
  by (induction rule: w_step.induct) (auto simp: unblocked_def worker_ops split: if_splits)

lemma call_ok_step: "run_step w w' \<Longrightarrow> call_ok w \<Longrightarrow> call_ok w'"
proof (induction rule: run_step.induct)
  case (Thread w w')
  then show ?case using w_step_inv signal_part_step pause_part_step unblocked_step unfolding call_ok_def by blast
next
  case (Continue w w')
  then show ?case using w_step_inv signal_part_step pause_part_step unblocked_step unfolding call_ok_def by blast
next
  case (Wake w)
  have s: "w_step False w (run_goto WorkWoken w)" by (rule w_step.WakeWork [OF Wake(1)])
  moreover have "unblocked (run_goto WorkWoken w)" using Wake(2) by (simp add: call_ok_def unblocked_def)
  ultimately show ?case using Wake(2) w_step_inv signal_part_step pause_part_step unfolding call_ok_def by blast
next
  case (WakePaused w)
  have s: "w_step False w (run_goto PauseWoken w)" by (rule w_step.WakePause [OF WakePaused(1)])
  moreover have "unblocked (run_goto PauseWoken w)" using WakePaused(2) by (simp add: call_ok_def unblocked_def)
  ultimately show ?case using WakePaused(2) w_step_inv signal_part_step pause_part_step unfolding call_ok_def by blast
qed

section \<open>The measure\<close>

fun ctl_rank :: "ctl_pc \<Rightarrow> nat" where
  "ctl_rank NoCall = 0" | "ctl_rank SignalWoken = 1" | "ctl_rank SignalSleep = 2" | "ctl_rank (Signalling b) = 3"
| "ctl_rank IdleWoken = 1" | "ctl_rank IdleSleep = 2" | "ctl_rank (PauseIdle b) = 3" | "ctl_rank (PauseSignal b) = 4"
| "ctl_rank (Pausing b) = 5" | "ctl_rank StopIdle = 1" | "ctl_rank StopSignal = 2" | "ctl_rank StopResume = 3"
| "ctl_rank StopDead = 1" | "ctl_rank StopUnstarted = 2"

fun to_sleep :: "run_pc \<Rightarrow> nat" where
  "to_sleep TestPaused = 1" | "to_sleep TestTerminated = 2" | "to_sleep WorkSection = 3" | "to_sleep Working = 4"
| "to_sleep Top = 5" | "to_sleep LoopTest = 6" | "to_sleep Init = 6" | "to_sleep WorkWoken = 7" | "to_sleep PauseWoken = 7"
| "to_sleep PauseSection = 7" | "to_sleep FailWork = 1" | "to_sleep FailPaused = 2" | "to_sleep Failing = 3" | "to_sleep p = 0"

fun to_pause :: "run_pc \<Rightarrow> nat" where
  "to_pause PauseSection = 1" | "to_pause Top = 2" | "to_pause LoopTest = 3" | "to_pause Init = 3" | "to_pause Working = 4"
| "to_pause WorkSection = 4" | "to_pause TestTerminated = 5" | "to_pause TestPaused = 4" | "to_pause WorkWoken = 4"
| "to_pause PauseWoken = 4" | "to_pause FailPaused = 1" | "to_pause Failing = 2" | "to_pause p = 0"

fun to_unlock :: "run_pc \<Rightarrow> nat" where
  "to_unlock TestTerminated = 2" | "to_unlock TestPaused = 1" | "to_unlock p = 0"

definition effort :: "Worker \<Rightarrow> nat" where
  "effort w = 10 * ctl_rank (ctl_at w) +
     (if ctl_at w = SignalSleep then to_sleep (run_at w) else if ctl_at w = IdleSleep then to_pause (run_at w)
      else to_unlock (run_at w))"

lemma effort_less_ctl:
  "ctl_rank (ctl_at w') < ctl_rank (ctl_at w) \<Longrightarrow> effort w' < effort w"
proof -
  have "to_sleep p < 10" "to_pause p < 10" "to_unlock p < 10" for p by (cases p; simp)+
  then have "effort w' < 10 * ctl_rank (ctl_at w') + 10" by (simp add: effort_def)
  then show "ctl_rank (ctl_at w') < ctl_rank (ctl_at w) \<Longrightarrow> effort w' < effort w" by (simp add: effort_def)
qed

text \<open>A worker that holds the work lock gives it back.\<close>

lemma unlock_step:
  assumes "workLockHeld w" and "ctl_at w \<noteq> SignalSleep" "ctl_at w \<noteq> IdleSleep"
  shows "\<exists>w'. run_step w w' \<and> effort w' < effort w"
proof (cases "run_at w = TestTerminated")
  case True
  from run_step.Thread [OF w_step.TestTerminated [OF this]] assms True show ?thesis
    by (intro exI conjI) (assumption, simp add: effort_def)
next
  case False
  then have t: "run_at w = TestPaused" using assms(1) by (simp add: workLockHeld_def)
  have "ctl_at (run_sleep w) = ctl_at w" "to_unlock (run_at (run_sleep w)) = 0"
    using assms by (auto simp: run_sleep_def wakeJoiner_def)
  with run_step.Thread [OF w_step.TestPaused [OF t]] assms t show ?thesis
    by (intro exI conjI) (assumption, simp add: effort_def)
qed

lemma locked_call:
  assumes "ctl_at w \<noteq> NoCall" "ctl_at w \<noteq> SignalSleep" "ctl_at w \<noteq> IdleSleep"
    and "\<not> workLockHeld w \<Longrightarrow> w_step False w w'" and "ctl_rank (ctl_at w') < ctl_rank (ctl_at w)"
  shows "\<exists>w'. run_step w w' \<and> effort w' < effort w"
proof (cases "workLockHeld w")
  case True
  then show ?thesis by (rule unlock_step [OF _ assms(2,3)])
next
  case False
  then show ?thesis using run_step.Continue [OF assms(1,4)] effort_less_ctl [OF assms(5)] by blast
qed

lemma free_call:
  assumes "ctl_at w \<noteq> NoCall" and "w_step False w w'" and "ctl_rank (ctl_at w') < ctl_rank (ctl_at w)"
  shows "\<exists>w'. run_step w w' \<and> effort w' < effort w"
  using run_step.Continue [OF assms(1,2)] effort_less_ctl [OF assms(3)] by blast

lemma thread_call:
  assumes "w_step True w w'" and "effort w' < effort w"
  shows "\<exists>w'. run_step w w' \<and> effort w' < effort w"
  using run_step.Thread [OF assms(1)] assms(2) by blast

text \<open>The worker goes to the place where it wakes a caller that sleeps.\<close>

lemma sleeping_signal:
  assumes ok: "call_ok w" and c: "ctl_at w = SignalSleep"
  shows "\<exists>w'. run_step w w' \<and> effort w' < effort w"
proof -
  have p: "w_inv w" "signal_part w" "pause_part w" "unblocked w" using ok by (simp_all add: call_ok_def)
  have l: "\<not> pausedLockHeld w" using c by simp
  have f: "\<not> isPausedFlag w" "haveWorkJoiners w" "isTerminatedFlag w \<longrightarrow> run_at w = FailPaused \<or> run_at w = FailWork"
    "run_at w \<noteq> WorkSleep" "run_at w \<noteq> PauseSleep" "run_at w \<noteq> NotStarted"
    using w_invD(1,4,5,6) [OF p(1)] p(2,4) c by (auto simp: unblocked_def signal_part_def)
  have t: "run_at w \<notin> {Finalizing, SignalDead, Dead}" using w_invD(7) [OF p(1)] f(3) by auto
  note e = effort_def worker_ops c f(1,2)
  show ?thesis
  proof (cases "run_at w")
    case Init
    show ?thesis by (rule thread_call [OF w_step.Init [OF Init]]) (use Init f in \<open>simp add: e\<close>)
  next
    case Top
    show ?thesis by (rule thread_call [OF w_step.Top [OF Top]]) (use Top f in \<open>simp add: e\<close>)
  next
    case PauseSection
    show ?thesis by (rule thread_call [OF w_step.PauseSection [OF PauseSection l]]) (use PauseSection f in \<open>simp add: e\<close>)
  next
    case PauseWoken
    show ?thesis by (rule thread_call [OF w_step.PauseWoken [OF PauseWoken l]]) (use PauseWoken f in \<open>simp add: e\<close>)
  next
    case Working
    show ?thesis by (rule thread_call [OF w_step.WorkNone [OF Working]]) (use Working f in \<open>simp add: e\<close>)
  next
    case WorkSection
    show ?thesis by (rule thread_call [OF w_step.NoWork [OF WorkSection]]) (use WorkSection f in \<open>simp add: e\<close>)
  next
    case TestTerminated
    show ?thesis by (rule thread_call [OF w_step.TestTerminated [OF TestTerminated]]) (use TestTerminated f in \<open>simp add: e\<close>)
  next
    case TestPaused
    show ?thesis by (rule thread_call [OF w_step.TestPaused [OF TestPaused]]) (use TestPaused f in \<open>simp add: e\<close>)
  next
    case WorkWoken
    show ?thesis by (rule thread_call [OF w_step.WorkWoken [OF WorkWoken]]) (use WorkWoken f in \<open>simp add: e\<close>)
  next
    case LoopTest
    show ?thesis by (rule thread_call [OF w_step.LoopTest [OF LoopTest]]) (use LoopTest f in \<open>simp add: e\<close>)
  next
    case Failing
    show ?thesis by (rule thread_call [OF w_step.Failing [OF Failing]]) (use Failing f in \<open>simp add: e\<close>)
  next
    case FailPaused
    show ?thesis by (rule thread_call [OF w_step.FailPaused [OF FailPaused l]]) (use FailPaused f in \<open>simp add: e\<close>)
  next
    case FailWork
    show ?thesis by (rule thread_call [OF w_step.FailWork [OF FailWork]]) (use FailWork f in \<open>simp add: e\<close>)
  qed (use f t in simp_all)
qed

lemma sleeping_pause:
  assumes ok: "call_ok w" and c: "ctl_at w = IdleSleep"
  shows "\<exists>w'. run_step w w' \<and> effort w' < effort w"
proof -
  have p: "w_inv w" "signal_part w" "pause_part w" "unblocked w" using ok by (simp_all add: call_ok_def)
  have l: "\<not> pausedLockHeld w" using c by simp
  have ip: "isPausedFlag w" by (rule w_invD(2) [OF p(1) c])
  have "isTerminatedFlag w \<longrightarrow> run_at w = FailPaused" "isStartedFlag w" "run_at w \<noteq> PauseSleep"
    using p(3) unfolding pause_part_def c by simp_all
  then have f: "isPausedFlag w" "isTerminatedFlag w \<longrightarrow> run_at w = FailPaused" "run_at w \<noteq> WorkSleep" "run_at w \<noteq> PauseSleep"
    "run_at w \<noteq> NotStarted"
    using ip w_invD(6) [OF p(1)] w_invD(8) [OF p(1) ip c] by simp_all
  have t: "run_at w \<notin> {FailWork, Finalizing, SignalDead, Dead}"
  proof
    assume a: "run_at w \<in> {FailWork, Finalizing, SignalDead, Dead}"
    then have "run_at w = FailPaused" using w_invD(7) [OF p(1)] f(2) by blast
    with a show False by simp
  qed
  note e = effort_def worker_ops c f(1)
  show ?thesis
  proof (cases "run_at w")
    case Init
    show ?thesis by (rule thread_call [OF w_step.Init [OF Init]]) (use Init f in \<open>simp add: e\<close>)
  next
    case Top
    show ?thesis by (rule thread_call [OF w_step.Top [OF Top]]) (use Top f in \<open>simp add: e\<close>)
  next
    case PauseSection
    show ?thesis by (rule thread_call [OF w_step.PauseSection [OF PauseSection l]]) (use PauseSection f in \<open>simp add: e\<close>)
  next
    case PauseWoken
    show ?thesis by (rule thread_call [OF w_step.PauseWoken [OF PauseWoken l]]) (use PauseWoken f in \<open>simp add: e\<close>)
  next
    case Working
    show ?thesis by (rule thread_call [OF w_step.WorkMore [OF Working]]) (use Working f in \<open>simp add: e\<close>)
  next
    case WorkSection
    show ?thesis by (rule thread_call [OF w_step.IsWork [OF WorkSection]]) (use WorkSection f in \<open>simp add: e\<close>)
  next
    case TestTerminated
    show ?thesis by (rule thread_call [OF w_step.TestTerminated [OF TestTerminated]]) (use TestTerminated f in \<open>simp add: e\<close>)
  next
    case TestPaused
    show ?thesis by (rule thread_call [OF w_step.TestPaused [OF TestPaused]]) (use TestPaused f in \<open>simp add: e\<close>)
  next
    case WorkWoken
    show ?thesis by (rule thread_call [OF w_step.WorkWoken [OF WorkWoken]]) (use WorkWoken f in \<open>simp add: e\<close>)
  next
    case LoopTest
    show ?thesis by (rule thread_call [OF w_step.LoopTest [OF LoopTest]]) (use LoopTest f in \<open>simp add: e\<close>)
  next
    case Failing
    show ?thesis by (rule thread_call [OF w_step.Failing [OF Failing]]) (use Failing f in \<open>simp add: e\<close>)
  next
    case FailPaused
    show ?thesis by (rule thread_call [OF w_step.FailPaused [OF FailPaused l]]) (use FailPaused f in \<open>simp add: e\<close>)
  qed (use f t in simp_all)
qed

section \<open>Calls return\<close>

lemma call_progress:
  assumes ok: "call_ok w" and c: "ctl_at w \<noteq> NoCall"
  shows "\<exists>w'. run_step w w' \<and> effort w' < effort w"
proof (cases "ctl_at w")
  case (Signalling b)
  show ?thesis by (rule locked_call [OF _ _ _ w_step.Signal [OF Signalling]]) (use Signalling in \<open>auto simp: worker_ops\<close>)
next
  case SignalWoken
  show ?thesis by (rule locked_call [OF _ _ _ w_step.SignalWoken [OF SignalWoken]]) (use SignalWoken in auto)
next
  case (PauseSignal b)
  show ?thesis by (rule locked_call [OF _ _ _ w_step.PauseSignal [OF PauseSignal]]) (use PauseSignal in \<open>auto simp: worker_ops\<close>)
next
  case StopSignal
  show ?thesis by (rule locked_call [OF _ _ _ w_step.StopSignal [OF StopSignal]]) (use StopSignal in \<open>auto simp: worker_ops\<close>)
next
  case (Pausing b)
  show ?thesis by (rule free_call [OF c w_step.Pause [OF Pausing]]) (use Pausing in \<open>auto simp: worker_ops\<close>)
next
  case (PauseIdle b)
  show ?thesis by (rule free_call [OF c w_step.PauseIdle [OF PauseIdle]]) (use PauseIdle in \<open>auto simp: worker_ops\<close>)
next
  case IdleWoken
  show ?thesis by (rule free_call [OF c w_step.IdleWoken [OF IdleWoken]]) (use IdleWoken in auto)
next
  case StopResume
  show ?thesis by (rule free_call [OF c w_step.StopResume [OF StopResume]]) (use StopResume in auto)
next
  case StopIdle
  show ?thesis by (rule free_call [OF c w_step.StopIdle [OF StopIdle]]) (use StopIdle in \<open>auto simp: worker_ops\<close>)
next
  case StopUnstarted
  show ?thesis by (rule free_call [OF c w_step.StopUnstarted [OF StopUnstarted]]) (use StopUnstarted in \<open>auto simp: worker_ops\<close>)
next
  case StopDead
  show ?thesis by (rule free_call [OF c w_step.StopDead [OF StopDead]]) (use StopDead in auto)
qed (use c sleeping_signal [OF ok] sleeping_pause [OF ok] in auto)

lemma call_returns: "call_ok w \<Longrightarrow> \<exists>w'. run_reach w w' \<and> call_ok w' \<and> ctl_at w' = NoCall"
proof (induction "effort w" arbitrary: w rule: less_induct)
  case less
  show ?case
  proof (cases "ctl_at w = NoCall")
    case True
    then show ?thesis using less.prems run_reach.Refl by blast
  next
    case False
    from call_progress [OF less.prems this] obtain v where v: "run_step w v" "effort v < effort w" by blast
    from less.hyps [OF v(2) call_ok_step [OF v(1) less.prems]] obtain w' where "run_reach v w'" "call_ok w'" "ctl_at w' = NoCall"
      by blast
    then show ?thesis using run_reach.Step [OF v(1)] by blast
  qed
qed

end
