(* ===== verification/Data_Strings.thy ===== *)
theory Data_Strings
  imports HPQ_Prelude
begin

text \<open>
  The string utilities and conversions of \<^verbatim>\<open>base/Data.h\<close> and \<^verbatim>\<open>base/Data.cpp\<close>: trimming on \<^verbatim>\<open>std::string\<close> and on
  C strings, option lookup, booleans and integers to and from text, line feeds and indentation.

  A loop over a string is a function of the position it has reached. What the source uses of the C and C++
  libraries is written out: \<^verbatim>\<open>isspace\<close> and \<^verbatim>\<open>tolower\<close> in the C locale, formatted input of integers and of
  booleans with \<^verbatim>\<open>skipws\<close> and \<^verbatim>\<open>boolalpha\<close> as libstdc++ has it. An input stream that holds nothing but white space
  leaves its target unassigned; reading the target is the fault \<open>UninitRead\<close>.
\<close>

section \<open>Characters\<close>

definition LF :: char where "LF = CHR 0x0A"
definition NUL :: char where "NUL = CHR 0x00"

definition c_isspace :: "char \<Rightarrow> bool" where
  "c_isspace c \<longleftrightarrow> (let n = of_char c :: nat in n = 32 \<or> 9 \<le> n \<and> n \<le> 13)"

definition c_tolower :: "char \<Rightarrow> char" where
  "c_tolower c = (let n = of_char c :: nat in if 65 \<le> n \<and> n \<le> 90 then char_of (n + 32) else c)"

definition lowerCase :: "string \<Rightarrow> string" where
  "lowerCase s = map c_tolower s"

definition lowerCaseAppend :: "string \<Rightarrow> string \<Rightarrow> string" where
  "lowerCaseAppend toStr appendStr = toStr @ map c_tolower appendStr"

section \<open>Trimming\<close>

text \<open>The loops of \<^verbatim>\<open>trimEnd\<close> (the argument is the index plus one) and \<^verbatim>\<open>trimStart\<close>.\<close>

fun scanBack :: "string \<Rightarrow> nat \<Rightarrow> nat" where
  "scanBack s 0 = 0"
| "scanBack s (Suc i) = (if c_isspace (s ! i) then scanBack s i else Suc i)"

function scanForward :: "string \<Rightarrow> nat \<Rightarrow> nat" where
  "scanForward s i = (if i < length s \<and> c_isspace (s ! i) then scanForward s (Suc i) else i)"
  by auto
termination by (relation "measure (\<lambda>(s, i). length s - i)") auto

declare scanForward.simps [simp del]

definition trimEnd :: "string \<Rightarrow> string" where
  "trimEnd s =
     (if 0 < length s \<and> c_isspace (s ! (length s - 1)) then take (scanBack s (length s - 1)) s else s)"

definition trimStart :: "string \<Rightarrow> string" where
  "trimStart s = (if 0 < length s \<and> c_isspace (s ! 0) then drop (scanForward s 1) s else s)"

definition trim :: "string \<Rightarrow> string" where
  "trim s = trimStart (trimEnd s)"

text \<open>
  The overloads on C strings: a buffer whose first \<open>NUL\<close> ends the string. \<^verbatim>\<open>trimEnd\<close> overwrites a character of
  the buffer, \<^verbatim>\<open>trimStart\<close> returns an offset into it.
\<close>

definition c_string :: "string \<Rightarrow> nat \<Rightarrow> string" where
  "c_string buf i = takeWhile (\<lambda>c. c \<noteq> NUL) (drop i buf)"

definition c_strlen :: "string \<Rightarrow> nat" where
  "c_strlen buf = length (c_string buf 0)"

definition trimEnd_c :: "string \<Rightarrow> string" where
  "trimEnd_c buf =
     (let n = c_strlen buf in
      if 0 < n \<and> c_isspace (buf ! (n - 1)) then buf[scanBack buf (n - 1) := NUL] else buf)"

function scanForward_c :: "string \<Rightarrow> nat \<Rightarrow> nat" where
  "scanForward_c buf i =
     (if i < length buf \<and> buf ! i \<noteq> NUL \<and> c_isspace (buf ! i) then scanForward_c buf (Suc i) else i)"
  by auto
termination by (relation "measure (\<lambda>(s, i). length s - i)") auto

declare scanForward_c.simps [simp del]

definition trim_c :: "string \<Rightarrow> string \<times> nat" where
  "trim_c buf = (let b = trimEnd_c buf in (b, scanForward_c b 0))"

section \<open>Choices\<close>

fun chooseLoop :: "string \<Rightarrow> nat \<Rightarrow> string list \<Rightarrow> int" where
  "chooseLoop str i [] = -1"
| "chooseLoop str i (opt # opts) = (if str = lowerCase (trim opt) then int i else chooseLoop str (Suc i) opts)"

definition chooseOption :: "string \<Rightarrow> string list \<Rightarrow> int" where
  "chooseOption val options = chooseLoop (lowerCase (trim val)) 0 options"

section \<open>Booleans\<close>

text \<open>
  \<^verbatim>\<open>stream >> skipws >> boolalpha >> result\<close>: the value assigned, if any, and whether the stream failed. The
  library compares as many characters as the two names have; what follows them is left in the stream.
\<close>

definition extractBool :: "string \<Rightarrow> bool option \<times> bool" where
  "extractBool s =
     (let r = dropWhile c_isspace s in
      if r = [] then (None, True)
      else if take 4 r = ''true'' then (Some True, False)
      else if take 5 r = ''false'' then (Some False, False)
      else (Some False, True))"

definition assigned :: "'a option \<Rightarrow> 'a result" where
  "assigned x = (case x of None \<Rightarrow> Inl UninitRead | Some v \<Rightarrow> Inr v)"

lemma assigned_simps [simp]: "assigned None = Inl UninitRead" "assigned (Some v) = Inr v"
  by (simp_all add: assigned_def)

definition convertToStringValue_bool :: "bool \<Rightarrow> string" where
  "convertToStringValue_bool b = (if b then ''true'' else ''false'')"

definition convertFromStringValue_bool :: "string \<Rightarrow> bool result" where
  "convertFromStringValue_bool val = assigned (fst (extractBool (lowerCase val)))"

definition convertFromString_bool :: "string \<Rightarrow> (bool \<times> bool) result" where
  "convertFromString_bool val =
     (let (v, failed) = extractBool (lowerCase val) in bind_r (assigned v) (\<lambda>b. Inr (b, failed)))"

definition getBoolValue :: "string \<Rightarrow> bool result" where
  "getBoolValue val =
     (let str = lowerCase (trim val) in if str = ''yes'' then Inr True else convertFromStringValue_bool str)"

text \<open>The overload that reports success: the value and \<^verbatim>\<open>succeeded\<close>.\<close>

definition getBoolValue_checked :: "string \<Rightarrow> (bool \<times> bool) result" where
  "getBoolValue_checked val =
     (let str = lowerCase (trim val) in
      if str = ''yes'' then Inr (True, True)
      else bind_r (convertFromString_bool str) (\<lambda>(b, failed). Inr (b, \<not> failed)))"

definition getYesNoStringValue :: "bool \<Rightarrow> string" where
  "getYesNoStringValue b = (if b then ''yes'' else ''no'')"

section \<open>Integers\<close>

text \<open>
  \<^verbatim>\<open>stream << value\<close> prints in decimal. \<^verbatim>\<open>stream >> skipws >> result\<close> reads an optional sign and the longest run of
  digits; without digits the value is 0 and the stream fails, outside the range of the type it is the nearest
  bound and the stream fails. A minus sign on an unsigned type negates modulo the size of the type. \<open>lo\<close> and \<open>hi\<close>
  are the bounds of the type. The 8-bit types are characters to a stream and are not integers here.
\<close>

definition digit :: "nat \<Rightarrow> char" where "digit d = char_of (d + 48)"
definition is_digit :: "char \<Rightarrow> bool" where "is_digit c \<longleftrightarrow> (let n = of_char c :: nat in 48 \<le> n \<and> n \<le> 57)"
definition digit_value :: "char \<Rightarrow> nat" where "digit_value c = of_char c - 48"

fun dec :: "nat \<Rightarrow> string" where
  "dec n = (if n < 10 then [digit n] else dec (n div 10) @ [digit (n mod 10)])"

declare dec.simps [simp del]

definition undec :: "string \<Rightarrow> nat" where
  "undec s = foldl (\<lambda>a c. 10 * a + digit_value c) 0 s"

definition convertToStringValue_int :: "int \<Rightarrow> string" where
  "convertToStringValue_int v = (if v < 0 then CHR ''-'' # dec (nat (- v)) else dec (nat v))"

definition extractInt :: "int \<Rightarrow> int \<Rightarrow> string \<Rightarrow> int option \<times> bool" where
  "extractInt lo hi s =
     (let r = dropWhile c_isspace s in
      if r = [] then (None, True)
      else
        let neg = (hd r = CHR ''-'');
            t = (if neg \<or> hd r = CHR ''+'' then tl r else r);
            ds = takeWhile is_digit t;
            m = int (undec ds);
            v = (if neg then - m else m)
        in if ds = [] then (Some 0, True)
           else if neg \<and> lo = 0 then (if hi < m then (Some hi, True) else (Some (v mod (hi + 1)), False))
           else if v < lo then (Some lo, True)
           else if hi < v then (Some hi, True)
           else (Some v, False))"

definition convertFromStringValue_int :: "int \<Rightarrow> int \<Rightarrow> string \<Rightarrow> int result" where
  "convertFromStringValue_int lo hi val = assigned (fst (extractInt lo hi val))"

text \<open>\<^verbatim>\<open>getValue<T>\<close>: the value and \<^verbatim>\<open>succeeded\<close>.\<close>

definition getValue_int :: "int \<Rightarrow> int \<Rightarrow> string \<Rightarrow> (int \<times> bool) result" where
  "getValue_int lo hi val =
     (let (v, failed) = extractInt lo hi val in bind_r (assigned v) (\<lambda>i. Inr (i, \<not> failed)))"

section \<open>Line feeds and indentation\<close>

fun scanLF :: "string \<Rightarrow> nat \<Rightarrow> nat" where
  "scanLF s 0 = 0"
| "scanLF s (Suc pos) = (if s ! Suc pos = LF then scanLF s pos else Suc pos)"

text \<open>
  \<^verbatim>\<open>trimTrailingLFs\<close>: \<^verbatim>\<open>pos\<close> starts at \<^verbatim>\<open>len - 2\<close>, which is -1 for a single line feed; the loop stops at 0. The
  test \<^verbatim>\<open>len - pos > ...\<close> is true then, so the function returns the first \<^verbatim>\<open>pos + 1\<close> characters, one more with
  \<open>leaveOne\<close>.
\<close>

definition trimTrailingLFs :: "string \<Rightarrow> bool \<Rightarrow> string" where
  "trimTrailingLFs s leaveOne =
     (if 0 < length s \<and> s ! (length s - 1) = LF
      then let pos = (if length s = 1 then -1 else int (scanLF s (length s - 2)))
           in if (if leaveOne then 1 else 0) < int (length s) - pos
              then take (nat (pos + (if leaveOne then 2 else 1))) s else s
      else s)"

definition multiLineInsertLF :: "string \<Rightarrow> string" where
  "multiLineInsertLF s = (if 0 < length s \<and> LF \<in> set s then LF # s else s)"

text \<open>\<^verbatim>\<open>find("\n", pos)\<close>, and the loop of \<^verbatim>\<open>indent\<close> on the string built so far.\<close>

definition findLF :: "string \<Rightarrow> nat \<Rightarrow> nat option" where
  "findLF s pos = (if LF \<in> set (drop pos s) then Some (pos + length (takeWhile (\<lambda>c. c \<noteq> LF) (drop pos s))) else None)"

lemma findLF_bounds:
  assumes "findLF s pos = Some p"
  shows "pos \<le> p" "p < length s" "s ! p = LF"
proof -
  let ?d = "drop pos s" and ?n = "length (takeWhile (\<lambda>c. c \<noteq> LF) (drop pos s))"
  have m: "LF \<in> set ?d" and p: "p = pos + ?n" using assms by (auto simp: findLF_def split: if_splits)
  have n: "?n < length ?d"
    using m length_takeWhile_le [of "\<lambda>c. c \<noteq> LF" ?d] takeWhile_eq_take [of "\<lambda>c. c \<noteq> LF" ?d]
      takeWhile_eq_all_conv [of "\<lambda>c. c \<noteq> LF" ?d] by (metis (mono_tags, lifting) le_neq_implies_less take_all_iff order_refl)
  then have "?d ! ?n = LF" using nth_length_takeWhile [of "\<lambda>c. c \<noteq> LF" ?d] by simp
  with n p show "pos \<le> p" "p < length s" "s ! p = LF" by auto
qed

definition indentFirst :: "string \<Rightarrow> bool \<Rightarrow> string \<times> nat \<Rightarrow> string \<times> nat" where
  "indentFirst indentation first rp =
     (let (r, p) = rp in
      if first \<and> r ! 0 \<noteq> LF then (indentation @ r, p + length indentation) else (r, p))"

definition indentHere :: "string \<Rightarrow> string \<times> nat \<Rightarrow> string \<times> nat" where
  "indentHere indentation rp =
     (let (r, p) = rp in
      if r ! p \<noteq> LF then (take p r @ indentation @ drop p r, p + length indentation) else (r, p))"

lemma indent_rest:
  "length (fst (indentFirst ind f (r, p))) - snd (indentFirst ind f (r, p)) = length r - p"
  "p \<le> length r \<Longrightarrow> length (fst (indentHere ind (r, p))) - snd (indentHere ind (r, p)) = length r - p"
  "p \<le> length r \<Longrightarrow> snd (indentFirst ind f (r, p)) \<le> length (fst (indentFirst ind f (r, p)))"
  by (auto simp: indentFirst_def indentHere_def)

function indentLoop :: "string \<Rightarrow> bool \<Rightarrow> string \<Rightarrow> nat \<Rightarrow> string" where
  "indentLoop ind first r pos =
     (case findLF r pos of
        None \<Rightarrow> r
      | Some p \<Rightarrow>
          if Suc p = length r then r
          else let rp = indentHere ind (indentFirst ind first (r, Suc p))
               in indentLoop ind False (fst rp) (snd rp))"
  by pat_completeness auto
termination
proof (relation "measure (\<lambda>(ind, f, r, pos). length r - pos)")
  fix ind first r pos p rp
  assume a: "findLF r pos = Some p" "Suc p \<noteq> length r" "rp = indentHere ind (indentFirst ind first (r, Suc p))"
  let ?f = "indentFirst ind first (r, Suc p)"
  note b = findLF_bounds [OF a(1)]
  have "snd ?f \<le> length (fst ?f)" using b(2) by (intro indent_rest(3)) simp
  then have "length (fst rp) - snd rp = length (fst ?f) - snd ?f"
    using indent_rest(2) [of "snd ?f" "fst ?f" ind] a(3) by simp
  also have "\<dots> = length r - Suc p" by (rule indent_rest(1))
  also have "\<dots> < length r - pos" using b by simp
  finally show "((ind, False, fst rp, snd rp), (ind, first, r, pos)) \<in> measure (\<lambda>(ind, f, r, pos). length r - pos)"
    by (simp add: case_prod_beta)
qed simp

declare indentLoop.simps [simp del]

definition indent :: "string \<Rightarrow> string \<Rightarrow> bool \<Rightarrow> bool \<Rightarrow> string" where
  "indent s indentation indentFirstLine indentOnlyMultiLine =
     (if length s \<noteq> 0
      then if indentFirstLine \<and> \<not> indentOnlyMultiLine
           then let (r, pos) = indentFirst indentation True (s, 0) in indentLoop indentation False r pos
           else indentLoop indentation indentFirstLine s 0
      else s)"

section \<open>Parameter wrappers\<close>

text \<open>
  \<^verbatim>\<open>string_wrapper\<close> takes a string, or a C string or \<open>NULL\<close>; \<^verbatim>\<open>vector_wrapper\<close> takes a vector, a zero-terminated
  array or \<open>NULL\<close>, or an array with a length. An array is the list of the values that may be read through its
  pointer; reading past them is \<open>OutOfBounds\<close>.
\<close>

fun getLen :: "8 word list \<Rightarrow> nat result" where
  "getLen [] = Inl OutOfBounds"
| "getLen (v # vs) = (if v = 0 then Inr 0 else bind_r (getLen vs) (\<lambda>n. Inr (Suc n)))"

definition string_wrapper :: "string option \<Rightarrow> string" where
  "string_wrapper p = (case p of None \<Rightarrow> [] | Some buf \<Rightarrow> c_string buf 0)"

definition vector_wrapper :: "8 word list option \<Rightarrow> 8 word list result" where
  "vector_wrapper p = (case p of None \<Rightarrow> Inr [] | Some a \<Rightarrow> bind_r (getLen a) (\<lambda>n. Inr (take n a)))"

definition vector_wrapper_len :: "8 word list option \<Rightarrow> nat \<Rightarrow> 8 word list result" where
  "vector_wrapper_len p len =
     (case p of
        None \<Rightarrow> Inr []
      | Some a \<Rightarrow> if len = 0 then Inr [] else if len \<le> length a then Inr (take len a) else Inl OutOfBounds)"

end
