(* ===== verification/Result_Receiver.thy ===== *)
theory Result_Receiver
  imports Sample_Entries Data_Strings
begin

text \<open>
  The way back from a consumer to the producer of an entry: \<^verbatim>\<open>base/DataHolder.h\<close>, \<^verbatim>\<open>queue/ResultReceiver.h\<close>,
  \<^verbatim>\<open>queue/ResultReceiverHolder.h\<close>, the consumer of the sample program, \<^verbatim>\<open>sample/SampleQueueEntryConsumer.h\<close>, and the
  printed form of the entries.

  A receiver lives in the producer; entries refer to it by its address. The store maps addresses to receivers.
  A call that waits for the result is \<open>None\<close>.
\<close>

section \<open>Receivers\<close>

record 'a DataHolder =
  dh_value :: 'a

record 'a ResultReceiver = "'a DataHolder" +
  isPopulatedFlag :: bool

definition DataHolder_new :: "'a \<Rightarrow> 'a DataHolder" where
  "DataHolder_new v = \<lparr>dh_value = v\<rparr>"

text \<open>The virtual \<^verbatim>\<open>getValue(bool)\<close> of the base class does not block; that of \<^verbatim>\<open>ResultReceiver\<close> is \<open>getValue\<close> below.\<close>

definition DataHolder_getValue :: "bool \<Rightarrow> ('a, 'z) DataHolder_scheme \<Rightarrow> 'a" where
  "DataHolder_getValue block h = dh_value h"

definition ResultReceiver_new :: "'a \<Rightarrow> 'a ResultReceiver" where
  "ResultReceiver_new v = \<lparr>dh_value = v, isPopulatedFlag = False\<rparr>"

definition DataHolder_setValue :: "'a \<Rightarrow> ('a, 'z) DataHolder_scheme \<Rightarrow> ('a, 'z) DataHolder_scheme" where
  "DataHolder_setValue v h = h\<lparr>dh_value := v\<rparr>"

definition getCurrentValue :: "('a, 'z) DataHolder_scheme \<Rightarrow> 'a" where
  "getCurrentValue h = dh_value h"

definition setPopulated :: "'a ResultReceiver \<Rightarrow> 'a ResultReceiver" where
  "setPopulated r = r\<lparr>isPopulatedFlag := True\<rparr>"

definition getValue :: "bool \<Rightarrow> 'a ResultReceiver \<Rightarrow> 'a option" where
  "getValue block r = (if block \<and> \<not> isPopulatedFlag r then None else Some (getCurrentValue r))"

text \<open>\<^verbatim>\<open>getStringValue\<close>, with the conversion of the value type.\<close>

definition getStringValue :: "('a \<Rightarrow> string) \<Rightarrow> bool \<Rightarrow> 'a ResultReceiver \<Rightarrow> string option" where
  "getStringValue convert block r = map_option convert (getValue block r)"

section \<open>Holders\<close>

type_synonym 'a store = "receiver_id \<Rightarrow> 'a ResultReceiver"

definition isLinked :: "receiver_id option \<Rightarrow> bool" where
  "isLinked h \<longleftrightarrow> h \<noteq> None"

definition setEmpty :: "receiver_id option \<Rightarrow> 'a store \<Rightarrow> receiver_id option \<times> 'a store" where
  "setEmpty h st =
     (case h of None \<Rightarrow> (None, st) | Some r \<Rightarrow> (None, st(r := setPopulated (st r))))"

definition holder_setValue :: "'a \<Rightarrow> receiver_id option \<Rightarrow> 'a store \<Rightarrow> receiver_id option \<times> 'a store" where
  "holder_setValue v h st =
     (case h of None \<Rightarrow> (None, st) | Some r \<Rightarrow> (None, st(r := setPopulated (DataHolder_setValue v (st r)))))"

section \<open>The consumer of the sample program\<close>

definition setStatus1 :: "Status \<Rightarrow> QueueEntryData1 \<Rightarrow> Status store \<Rightarrow> QueueEntryData1 \<times> Status store" where
  "setStatus1 v d st = (let (h, st') = holder_setValue v (statusHolder d) st in (d\<lparr>statusHolder := h\<rparr>, st'))"

definition setStatus2 :: "Status \<Rightarrow> QueueEntryData2 \<Rightarrow> Status store \<Rightarrow> QueueEntryData2 \<times> Status store" where
  "setStatus2 v d st = (let (h, st') = holder_setValue v (statusValue d) st in (d\<lparr>statusValue := h\<rparr>, st'))"

record SampleQueueEntryConsumer =
  handledCount :: c_uint
  receivers :: "Status store"

fun SampleConsumer_handle ::
  "queue_entry \<Rightarrow> SampleQueueEntryConsumer \<Rightarrow> queue_entry \<times> SampleQueueEntryConsumer" where
  "SampleConsumer_handle (SampleQueueEntry1 d) c =
     (let (d', st) = setStatus1 \<lparr>status = STATUS_SUCCESS\<rparr> d (receivers c)
      in (SampleQueueEntry1 d', c\<lparr>handledCount := handledCount c + 1, receivers := st\<rparr>))"
| "SampleConsumer_handle (SampleQueueEntry2 d) c =
     (let (d', st) = setStatus2 \<lparr>status = STATUS_SUCCESS\<rparr> d (receivers c)
      in (SampleQueueEntry2 d', c\<lparr>handledCount := handledCount c + 1, receivers := st\<rparr>))"
| "SampleConsumer_handle NullBase c = (NullBase, c)"

fun linked_to :: "queue_entry \<Rightarrow> receiver_id option" where
  "linked_to (SampleQueueEntry1 d) = statusHolder d"
| "linked_to (SampleQueueEntry2 d) = statusValue d"
| "linked_to NullBase = None"

section \<open>Printed entries\<close>

text \<open>
  \<^verbatim>\<open>appendDataTo\<close> and \<^verbatim>\<open>appendTo\<close> of the two entry types. The textual form of a time stamp, \<^verbatim>\<open>strftime\<close> on the local
  time, is the parameter \<open>showTime\<close>. In \<^verbatim>\<open>SampleQueueEntry2::appendDataTo\<close> the parameter \<open>str\<close> hides the member of
  the same name, so the text built so far is appended to itself.
\<close>

definition Entry1_appendDataTo :: "(DateTime \<Rightarrow> string) \<Rightarrow> QueueEntryData1 \<Rightarrow> string \<Rightarrow> string" where
  "Entry1_appendDataTo showTime d str =
     str @ [CHR 0x09] @ ''identifier 1: '' @ convertToStringValue_int (uint (id1 d)) @
     [LF, CHR 0x09] @ ''string 1: '' @ string1 d @
     [LF, CHR 0x09] @ ''identifier 2: '' @ convertToStringValue_int (id2 d) @
     (if withTimeStamp1 d then [LF, CHR 0x09] @ ''time stamp: '' @ showTime (timeStamp1 d) else [])"

definition Entry1_appendTo :: "(DateTime \<Rightarrow> string) \<Rightarrow> QueueEntryData1 \<Rightarrow> string \<Rightarrow> string" where
  "Entry1_appendTo showTime d str = Entry1_appendDataTo showTime d (str @ ''Sentence Entry:'' @ [LF])"

definition Entry2_appendDataTo :: "(DateTime \<Rightarrow> string) \<Rightarrow> QueueEntryData2 \<Rightarrow> string \<Rightarrow> string" where
  "Entry2_appendDataTo showTime d str0 =
     (let s1 = str0 @ [CHR 0x09] @ ''string data: '' @ stringData d @ [LF];
          s2 = (if withTimeStamp2 d then s1 @ [LF, CHR 0x09] @ ''time stamp: '' @ showTime (timeStamp2 d) else s1);
          s3 = s2 @ [CHR 0x09] @ ''str: ''
      in s3 @ s3 @ [LF])"

definition Entry2_appendTo :: "(DateTime \<Rightarrow> string) \<Rightarrow> QueueEntryData2 \<Rightarrow> string \<Rightarrow> string" where
  "Entry2_appendTo showTime d str = Entry2_appendDataTo showTime d (str @ ''Queue Entry 2:'' @ [LF])"

text \<open>
  The virtual functions of \<^verbatim>\<open>QueueEntryBase\<close>, by the dynamic type of the entry: the base class itself appends nothing.
  \<^verbatim>\<open>getStringValue\<close> and \<^verbatim>\<open>operator <<\<close> go through \<^verbatim>\<open>appendTo\<close>.
\<close>

fun entry_appendDataTo :: "(DateTime \<Rightarrow> string) \<Rightarrow> queue_entry \<Rightarrow> string \<Rightarrow> string" where
  "entry_appendDataTo showTime NullBase str = str"
| "entry_appendDataTo showTime (SampleQueueEntry1 d) str = Entry1_appendDataTo showTime d str"
| "entry_appendDataTo showTime (SampleQueueEntry2 d) str = Entry2_appendDataTo showTime d str"

fun entry_appendTo :: "(DateTime \<Rightarrow> string) \<Rightarrow> queue_entry \<Rightarrow> string \<Rightarrow> string" where
  "entry_appendTo showTime NullBase str = entry_appendDataTo showTime NullBase str"
| "entry_appendTo showTime (SampleQueueEntry1 d) str = Entry1_appendTo showTime d str"
| "entry_appendTo showTime (SampleQueueEntry2 d) str = Entry2_appendTo showTime d str"

definition entry_getStringValue :: "(DateTime \<Rightarrow> string) \<Rightarrow> queue_entry \<Rightarrow> string" where
  "entry_getStringValue showTime e = entry_appendTo showTime e []"

definition entry_output :: "(DateTime \<Rightarrow> string) \<Rightarrow> string \<Rightarrow> queue_entry \<Rightarrow> string" where
  "entry_output showTime stream e = stream @ entry_appendTo showTime e []"

text \<open>
  An entry of the first type and the base class append their text to what is there; an entry of the second type repeats
  what is there, so that its output on a stream is not what \<^verbatim>\<open>appendTo\<close> makes of the text before it.
\<close>

lemma entry_appendTo_append:
  "entry_appendTo showTime e str = str @ entry_getStringValue showTime e \<longleftrightarrow>
     str = [] \<or> (\<forall>d. e \<noteq> SampleQueueEntry2 d)"
  by (cases e) (auto simp: entry_getStringValue_def Entry1_appendTo_def Entry1_appendDataTo_def Entry2_appendTo_def
      Entry2_appendDataTo_def Let_def)

text \<open>\<^verbatim>\<open>queue/ThreadInfo.h\<close>.\<close>

record ThreadInfo =
  processIdentifier :: int
  threadIdentifier :: int
  pThread :: nat
  inited :: bool

definition ThreadInfo_new :: ThreadInfo where
  "ThreadInfo_new = \<lparr>processIdentifier = 0, threadIdentifier = 0, pThread = 0, inited = False\<rparr>"

text \<open>\<open>pid\<close>, \<open>tid\<close> and \<open>self\<close> are what \<^verbatim>\<open>getpid\<close>, \<^verbatim>\<open>SYS_gettid\<close> and \<^verbatim>\<open>pthread_self\<close> answer.\<close>

definition initAsCurrentThread :: "int \<Rightarrow> int \<Rightarrow> nat \<Rightarrow> ThreadInfo \<Rightarrow> ThreadInfo" where
  "initAsCurrentThread pid tid self i =
     i\<lparr>inited := True, processIdentifier := pid, threadIdentifier := tid, pThread := self\<rparr>"

definition isInitialized :: "ThreadInfo \<Rightarrow> bool" where
  "isInitialized i = inited i"

definition getThreadId :: "ThreadInfo \<Rightarrow> int" where
  "getThreadId i = threadIdentifier i"

definition uninit :: "ThreadInfo \<Rightarrow> ThreadInfo" where
  "uninit i = i\<lparr>inited := False\<rparr>"

definition ThreadInfo_appendDataTo :: "ThreadInfo \<Rightarrow> string \<Rightarrow> string" where
  "ThreadInfo_appendDataTo i str =
     (if inited i then str @ ''pid_t: '' @ convertToStringValue_int (threadIdentifier i)
      else str @ ''identifier uninitialized'')"

definition ThreadInfo_appendTo :: "ThreadInfo \<Rightarrow> string \<Rightarrow> string" where
  "ThreadInfo_appendTo i str = ThreadInfo_appendDataTo i (str @ ''thread '')"

definition ThreadInfo_getStringValue :: "ThreadInfo \<Rightarrow> string" where
  "ThreadInfo_getStringValue i = ThreadInfo_appendTo i []"

definition ThreadInfo_output :: "string \<Rightarrow> ThreadInfo \<Rightarrow> string" where
  "ThreadInfo_output stream i = stream @ ThreadInfo_appendTo i []"

section \<open>Results are delivered\<close>

text \<open>
  C32. When the consumer has handled an entry, the producer's blocking read of the linked receiver returns at
  once with success; no other receiver changes; the entry is no longer linked, so handling it again delivers
  nothing; and before it was handled the blocking read of a new receiver waits.
\<close>

theorem result_delivered:
  assumes "e \<noteq> NullBase" and "SampleConsumer_handle e c = (e', c')"
  shows "handledCount c' = handledCount c + 1 \<and> linked_to e' = None \<and>
    receivers c' = (case linked_to e of
       None \<Rightarrow> receivers c
     | Some r \<Rightarrow> (receivers c)(r := \<lparr>dh_value = \<lparr>status = STATUS_SUCCESS\<rparr>, isPopulatedFlag = True\<rparr>)) \<and>
    (\<forall>r. linked_to e = Some r \<longrightarrow> getValue True (receivers c' r) = Some \<lparr>status = STATUS_SUCCESS\<rparr>) \<and>
    receivers (snd (SampleConsumer_handle e' c')) = receivers c' \<and> getValue True (ResultReceiver_new Status_default) = None"
proof (cases e)
  case (SampleQueueEntry1 d)
  then show ?thesis using assms(2)
    by (cases "receivers c (the (statusHolder d))")
      (auto simp: Let_def setStatus1_def holder_setValue_def setPopulated_def DataHolder_setValue_def getValue_def
        getCurrentValue_def ResultReceiver_new_def split: option.splits prod.splits)
next
  case (SampleQueueEntry2 d)
  then show ?thesis using assms(2)
    by (cases "receivers c (the (statusValue d))")
      (auto simp: Let_def setStatus2_def holder_setValue_def setPopulated_def DataHolder_setValue_def getValue_def
        getCurrentValue_def ResultReceiver_new_def split: option.splits prod.splits)
qed (use assms in simp)

theorem result_delivered_witness:
  "\<exists>c'. getValue True (receivers (c' :: SampleQueueEntryConsumer) 5) = Some \<lparr>status = STATUS_SUCCESS\<rparr>"
proof -
  let ?e = "SampleQueueEntry1 (QueueEntryData1_default\<lparr>statusHolder := Some 5\<rparr>)"
  let ?c = "\<lparr>handledCount = 0, receivers = (\<lambda>_. ResultReceiver_new Status_default)\<rparr>"
  obtain e' c' where h: "SampleConsumer_handle ?e ?c = (e', c')" by fastforce
  have "\<forall>r. linked_to ?e = Some r \<longrightarrow> getValue True (receivers c' r) = Some \<lparr>status = STATUS_SUCCESS\<rparr>"
    using result_delivered [OF _ h] by blast
  then show ?thesis by auto
qed

end
