(* ===== verification/Consumer_Worker.thy ===== *)
theory Consumer_Worker
  imports Sync_Properties Result_Receiver
begin

text \<open>
  The worker that consumes a queue: \<^verbatim>\<open>consumer/QueueConsumerWorker.h\<close> and \<^verbatim>\<open>consumer/QueueConsumerWorker.cpp\<close>. Its
  access to the shared queue, its counter of removed entries, and the four virtual functions it gives to
  \<^verbatim>\<open>Worker::run\<close>: \<^verbatim>\<open>init\<close>, \<^verbatim>\<open>finalize\<close>, \<^verbatim>\<open>doWork\<close> and \<^verbatim>\<open>isWork\<close>.

  A consumer (\<^verbatim>\<open>consumer/Consumer.h\<close>) is given a reference to an entry and may change the entry in place: \<open>handle\<close>
  takes the entry and the consumer's state and returns both. The locale \<open>consumer_class\<close> is what the queue relies on:
  an entry keeps its dynamic type. A consumer that throws ends its worker; this is a step of the worker machine.
\<close>

section \<open>Access to the queue\<close>

record QueueAccess =
  readerIndex :: rid
  accessCount :: c_uint

definition QueueAccess_new :: "rid \<Rightarrow> QueueAccess" where
  "QueueAccess_new x = \<lparr>readerIndex = x, accessCount = 0\<rparr>"

definition access_isEmpty :: "QueueAccess \<Rightarrow> ('e, 'm, 'z) SyncQueue_scheme \<Rightarrow> bool \<times> ('e, 'm, 'z) SyncQueue_scheme" where
  "access_isEmpty a s = SyncQueue_isEmpty (readerIndex a) s"

definition access_remove ::
  "QueueAccess \<Rightarrow> ('e, 'm, 'z) SyncQueue_scheme \<Rightarrow> ('m entry_ref \<times> ('e, 'm, 'z) SyncQueue_scheme) result" where
  "access_remove a s = SyncQueue_remove (readerIndex a) s"

definition access_incrementRemovedCount :: "QueueAccess \<Rightarrow> QueueAccess" where
  "access_incrementRemovedCount a = a\<lparr>accessCount := accessCount a + 1\<rparr>"

definition access_updateStats ::
  "QueueAccess \<Rightarrow> ('e, 'm, 'z) SyncQueue_scheme \<Rightarrow> QueueAccess \<times> ('e, 'm, 'z) SyncQueue_scheme" where
  "access_updateStats a s =
     (a\<lparr>accessCount := 0\<rparr>, s\<lparr>stats := incrementRemovedCountBy (accessCount a) (stats s)\<rparr>)"

definition access_startAccess :: "QueueAccess \<Rightarrow> ('e, 'm, 'z) SyncQueue_scheme \<Rightarrow> ('e, 'm, 'z) SyncQueue_scheme result" where
  "access_startAccess a s = startAccess (readerIndex a) s"

definition access_endAccess :: "QueueAccess \<Rightarrow> ('e, 'm, 'z) SyncQueue_scheme \<Rightarrow> ('e, 'm, 'z) SyncQueue_scheme result" where
  "access_endAccess a s = endAccess (readerIndex a) s"

section \<open>The worker's functions\<close>

definition worker_init :: "QueueAccess \<Rightarrow> ('e, 'm, 'z) SyncQueue_scheme \<Rightarrow> ('e, 'm, 'z) SyncQueue_scheme result" where
  "worker_init a s = access_startAccess a s"

definition worker_finalize ::
  "QueueAccess \<Rightarrow> ('e, 'm, 'z) SyncQueue_scheme \<Rightarrow> (QueueAccess \<times> ('e, 'm, 'z) SyncQueue_scheme) result" where
  "worker_finalize a s = bind_r (access_endAccess a s) (\<lambda>s1. Inr (access_updateStats a s1))"

definition doWork ::
  "('e, 'm) entry_ops \<Rightarrow> ('e \<Rightarrow> 'h \<Rightarrow> 'e \<times> 'h) \<Rightarrow> QueueAccess \<Rightarrow> 'h \<Rightarrow> ('e, 'm, 'z) SyncQueue_scheme \<Rightarrow>
   (bool \<times> QueueAccess \<times> 'h \<times> ('e, 'm, 'z) SyncQueue_scheme) result" where
  "doWork ops handle a h s =
     bind_r (access_remove a s) (\<lambda>(p, s1).
     bind_r (deref ops p (dataEntries s1)) (\<lambda>e.
       if \<not> isNull ops e
       then let a1 = access_incrementRemovedCount a; (e', h') = handle e h
            in bind_r (writeRef p e' (dataEntries s1)) (\<lambda>d. Inr (True, a1, h', s1\<lparr>dataEntries := d\<rparr>))
       else Inr (False, a, h, s1)))"

definition isWork :: "QueueAccess \<Rightarrow> ('e, 'm, 'z) SyncQueue_scheme \<Rightarrow> bool \<times> ('e, 'm, 'z) SyncQueue_scheme" where
  "isWork a s = (let (empty, s1) = access_isEmpty a s in (\<not> empty, s1))"

section \<open>Names and printed forms\<close>

text \<open>\<^verbatim>\<open>Worker::getName\<close>, the name of a worker, and \<^verbatim>\<open>ReaderIndex::appendTo\<close>, its cursor in the debug output.\<close>

definition Worker_getName :: "int \<Rightarrow> string option \<Rightarrow> string" where
  "Worker_getName identifier name =
     ''Consumer '' @ (case name of Some s \<Rightarrow> s | None \<Rightarrow> convertToStringValue_int (identifier + 1))"

definition ReaderIndex_appendTo :: "ReaderIndex \<Rightarrow> string \<Rightarrow> string" where
  "ReaderIndex_appendTo r str =
     str @ '' id: '' @ convertToStringValue_int (workerIdentifier r) @
     '' index: '' @ convertToStringValue_int (ri_index r) @
     '' isEmpty: '' @ convertToStringValue_bool (ri_isEmpty r) @
     '' isDone: '' @ convertToStringValue_bool (ri_isDone r) @
     '' inQueue: '' @ convertToStringValue_bool (ri_inQueue r)"

section \<open>Consumers\<close>

locale consumer_class = entry_class ops for ops :: "('e, 'm) entry_ops" +
  fixes handle :: "'e \<Rightarrow> 'h \<Rightarrow> 'e \<times> 'h"
  assumes handle_keeps: "same_type ops e (fst (handle e h))"
begin

text \<open>One call of \<^verbatim>\<open>doWork\<close> by a reader between calls.\<close>

lemma doWork_steps:
  assumes inv: "sq_inv ops c xs R pos D" and x: "listed c (readerIndex a)" "readerIndex a \<notin> moved c" "held c (readerIndex a) = None"
  shows "\<exists>b a' h' s' c'. doWork ops handle a h (sq c) = Inr (b, a', h', s') \<and> sq_reach ops c c' \<and> sq c' = s' \<and> held c' = held c \<and>
    (if b
     then \<exists>e p s. SyncQueue_remove (readerIndex a) (sq c) = Inr (p, s) \<and> deref ops p (dataEntries s) = Inr e \<and>
       delivered c' = delivered c @ [(readerIndex a, e)] \<and> h' = snd (handle e h) \<and>
       a' = access_incrementRemovedCount a \<and> deref ops p (dataEntries s') = Inr (fst (handle e h)) \<and>
       (\<forall>p'. p' \<noteq> p \<longrightarrow> deref ops p' (dataEntries s') = deref ops p' (dataEntries s))
     else delivered c' = delivered c \<and> h' = h \<and> a' = a)"
proof -
  let ?x = "readerIndex a"
  from remove_steps [OF inv x] obtain p s e c1 where r: "SyncQueue_remove ?x (sq c) = Inr (p, s)"
    "sq_reach ops c c1" "sq c1 = s" "deref ops p (dataEntries s) = Inr e" "isNull ops e \<longleftrightarrow> p = NullEntry"
    "delivered c1 = delivered c @ (if p = NullEntry then [] else [(?x, e)])"
    "held c1 = (if p = NullEntry then held c else (held c)(?x \<mapsto> (p, e)))" by blast
  show ?thesis
  proof (cases "p = NullEntry")
    case True
    then have "doWork ops handle a h (sq c) = Inr (False, a, h, s)"
      using r by (simp add: doWork_def access_remove_def)
    then show ?thesis using r True by auto
  next
    case False
    from sq_reach_keeps [OF r(2)] inv obtain xs' R' pos' D' where "sq_inv ops c1 xs' R' pos' D'" by blast
    then have "rwq_inv ops s" using r(3) ring_partD(1) by (auto simp: sq_inv_def)
    then obtain d where d: "writeRef p (fst (handle e h)) (dataEntries s) = Inr d"
      "p \<noteq> NullEntry \<longrightarrow> deref ops p d = Inr (fst (handle e h))"
      "\<forall>p'. p' \<noteq> p \<longrightarrow> deref ops p' d = deref ops p' (dataEntries s)"
      by (rule write_ring [OF _ r(4) handle_keeps [where h = h]])
    let ?s' = "s\<lparr>dataEntries := d\<rparr>"
    let ?c2 = "c1\<lparr>sq := (sq c1)\<lparr>dataEntries := d\<rparr>, held := (held c1)(?x \<mapsto> (p, fst (handle e h)))\<rparr>"
    let ?c3 = "?c2\<lparr>held := (held ?c2)(?x := None)\<rparr>"
    have "sq_step ops c1 ?c2"
      by (rule sq_step.Change [OF _ handle_keeps]) (use r(3,7) d(1) False in auto)
    then have "sq_reach ops c ?c3" using r(2) sq_step.Handled [of ops ?c2 ?x] by (meson sq_reach.Step)
    moreover have "held ?c3 = held c" using x(3) r(7) False by (auto simp: fun_eq_iff)
    moreover have "sq ?c3 = ?s'" "delivered ?c3 = delivered c @ [(?x, e)]" using r(3,6) False by simp_all
    moreover have "doWork ops handle a h (sq c) = Inr (True, access_incrementRemovedCount a, snd (handle e h), ?s')"
      using r d(1) False by (simp add: doWork_def access_remove_def case_prod_beta Let_def)
    moreover have "deref ops p (dataEntries ?s') = Inr (fst (handle e h))" using d(2) False by simp
    ultimately show ?thesis using r(1,4) d(3)
      by (intro exI [of _ True] exI [of _ "access_incrementRemovedCount a"] exI [of _ "snd (handle e h)"] exI [of _ ?s'] exI [of _ ?c3])
        (simp add: r(1) r(4) exI [of _ e])
  qed
qed

end

lemma SampleConsumer_keeps: "same_type (sample_ops sz) e (fst (SampleConsumer_handle e h))"
  by (cases e) (auto simp: same_type_def storable_sample Let_def split: prod.splits)

interpretation sample_consumer: consumer_class "sample_ops sz" SampleConsumer_handle for sz
  by unfold_locales (rule SampleConsumer_keeps)

section \<open>A call of doWork\<close>

text \<open>
  C17. In every reachable state of the queue, a call of \<^verbatim>\<open>doWork\<close> by a worker between calls returns without a fault,
  and is a run of the state machine that leaves the worker between calls again.
  If it returns true, one entry was delivered to this worker: exactly that entry was given to the consumer, its
  receiver has been told, the change the consumer made is in the slot and nowhere else, and the worker counted
  it. If it returns false, no entry was delivered and neither the consumer nor the counter was touched.
\<close>

theorem doWork_runs:
  assumes "sq_reach (sample_ops sz) (sq_init (sample_ops sz) n d sync ids) c" and "2 \<le> uint n" "uint n \<le> 1073741824"
    and "listed c (readerIndex a)" "readerIndex a \<notin> moved c" "held c (readerIndex a) = None"
  shows "\<exists>b a' h' s' c'. doWork (sample_ops sz) SampleConsumer_handle a h (sq c) = Inr (b, a', h', s') \<and>
    sq_reach (sample_ops sz) c c' \<and> sq c' = s' \<and> held c' = held c \<and>
    (if b
     then \<exists>e p s. SyncQueue_remove (readerIndex a) (sq c) = Inr (p, s) \<and> deref (sample_ops sz) p (dataEntries s) = Inr e \<and>
       delivered c' = delivered c @ [(readerIndex a, e)] \<and> h' = snd (SampleConsumer_handle e h) \<and>
       a' = access_incrementRemovedCount a \<and> deref (sample_ops sz) p (dataEntries s') = Inr (fst (SampleConsumer_handle e h)) \<and>
       (\<forall>p'. p' \<noteq> p \<longrightarrow> deref (sample_ops sz) p' (dataEntries s') = deref (sample_ops sz) p' (dataEntries s))
     else delivered c' = delivered c \<and> h' = h \<and> a' = a)"
  by (rule sample_reach_inv [OF assms(1-3)]) (rule sample_consumer.doWork_steps [OF _ assms(4-6)])

definition demo_consumer :: SampleQueueEntryConsumer where
  "demo_consumer = \<lparr>handledCount = 0, receivers = (\<lambda>_. ResultReceiver_new Status_default)\<rparr>"

theorem doWork_runs_witness:
  "\<exists>c b a' h' s' c'. sq_reach (sample_ops 256) demo_init c \<and>
    doWork (sample_ops 256) SampleConsumer_handle (QueueAccess_new 0) demo_consumer (sq c) = Inr (b, a', h', s') \<and>
    sq_reach (sample_ops 256) c c' \<and> sq c' = s'"
proof -
  obtain s where s: "sq_reach (sample_ops 256) demo_init (demo_init\<lparr>sq := s\<rparr>)" "ri_inQueue (readers s 0)"
    using demo_start by blast
  let ?c = "demo_init\<lparr>sq := s\<rparr>"
  have h: "listed ?c (readerIndex (QueueAccess_new 0))" "readerIndex (QueueAccess_new 0) \<notin> moved ?c"
    "held ?c (readerIndex (QueueAccess_new 0)) = None"
    using s(2) by (simp_all add: QueueAccess_new_def demo_init_def sq_init_def)
  obtain b a' h' s' c' where "doWork (sample_ops 256) SampleConsumer_handle (QueueAccess_new 0) demo_consumer (sq ?c) = Inr (b, a', h', s')"
    "sq_reach (sample_ops 256) ?c c'" "sq c' = s'"
    using doWork_runs [OF s(1) [unfolded demo_init_def] _ _ h [unfolded demo_init_def], of demo_consumer]
    unfolding demo_init_def [symmetric] by auto
  then show ?thesis using s(1) by blast
qed

section \<open>Statistics\<close>

text \<open>
  The counter of removed entries is written by its worker and collected by other threads, without a lock:
  \<^verbatim>\<open>removedCount++\<close> is a load and a store; \<^verbatim>\<open>updateStats\<close> is the swap with 0, the store of 0 that
  \<^verbatim>\<open>__sync_lock_release\<close> does, and the addition to the statistics of the queue.
\<close>

datatype stat_op = IncLoad | IncStore | Swap | Release | AddRemoved

record counter =
  removed_local :: c_uint
  inc_reg :: c_uint
  swapped :: c_uint
  removed_total :: c_uint
  handled :: nat

fun stat_step :: "stat_op \<Rightarrow> counter \<Rightarrow> counter" where
  "stat_step IncLoad c = c\<lparr>inc_reg := removed_local c\<rparr>"
| "stat_step IncStore c = c\<lparr>removed_local := inc_reg c + 1, handled := Suc (handled c)\<rparr>"
| "stat_step Swap c = c\<lparr>swapped := removed_local c, removed_local := 0\<rparr>"
| "stat_step Release c = c\<lparr>removed_local := 0\<rparr>"
| "stat_step AddRemoved c = c\<lparr>removed_total := removed_total c + swapped c\<rparr>"

datatype stat_call = CountRemoved | UpdateStats

fun call_ops :: "stat_call \<Rightarrow> stat_op list" where
  "call_ops CountRemoved = [IncLoad, IncStore]"
| "call_ops UpdateStats = [Swap, Release, AddRemoved]"

definition uncounted :: "counter \<Rightarrow> c_uint" where
  "uncounted c = of_nat (handled c) - removed_local c - removed_total c"

lemma call_uncounted: "uncounted (fold stat_step (call_ops k) c) = uncounted c"
  by (cases k) (simp_all add: uncounted_def)

lemma calls_uncounted: "uncounted (fold stat_step (concat (map call_ops ks)) c) = uncounted c"
  by (induction ks arbitrary: c) (simp_all add: call_uncounted del: call_ops.simps)

text \<open>
  C33. As long as the calls do not overlap, the statistics and the worker's counter together always account for
  every entry handled (modulo the width of the counters), and after a last \<^verbatim>\<open>updateStats\<close> the statistics alone do.
  When they overlap they need not: an entry counted between the swap and the release is never reported, and a
  swap between the load and the store of an increment reports everything counted so far a second time.
\<close>

theorem stats_accounting:
  "uncounted (fold stat_step (concat (map call_ops ks)) c) = uncounted c \<and>
   (uncounted c = 0 \<longrightarrow> removed_total (fold stat_step (concat (map call_ops (ks @ [UpdateStats]))) c) =
     of_nat (handled (fold stat_step (concat (map call_ops (ks @ [UpdateStats]))) c))) \<and>
   uncounted (fold stat_step [Swap, IncLoad, IncStore, Release, AddRemoved] c) = uncounted c + 1 \<and>
   uncounted (fold stat_step [IncLoad, Swap, Release, AddRemoved, IncStore] c) = uncounted c - removed_local c"
proof -
  have "removed_local (fold stat_step (call_ops UpdateStats) c') = 0" for c' by simp
  then have "removed_total c' = of_nat (handled c')"
    if "c' = fold stat_step (concat (map call_ops (ks @ [UpdateStats]))) c" "uncounted c' = 0" for c'
    using that unfolding uncounted_def by (simp add: algebra_simps)
  moreover have "uncounted (fold stat_step [Swap, IncLoad, IncStore, Release, AddRemoved] c) = uncounted c + 1"
    "uncounted (fold stat_step [IncLoad, Swap, Release, AddRemoved, IncStore] c) = uncounted c - removed_local c"
    by (simp_all add: uncounted_def algebra_simps)
  ultimately show ?thesis using calls_uncounted by metis
qed

theorem stats_accounting_witness:
  "uncounted \<lparr>removed_local = 0, inc_reg = 0, swapped = 0, removed_total = 0, handled = 0\<rparr> = 0 \<and>
   removed_total (fold stat_step (concat (map call_ops ([CountRemoved, CountRemoved] @ [UpdateStats])))
     \<lparr>removed_local = 0, inc_reg = 0, swapped = 0, removed_total = 0, handled = 0\<rparr>) = 2"
proof -
  let ?c = "\<lparr>removed_local = 0, inc_reg = 0, swapped = 0, removed_total = 0, handled = 0\<rparr>"
  have z: "uncounted ?c = 0" by (simp add: uncounted_def)
  have "removed_total (fold stat_step (concat (map call_ops ([CountRemoved, CountRemoved] @ [UpdateStats]))) ?c) =
     of_nat (handled (fold stat_step (concat (map call_ops ([CountRemoved, CountRemoved] @ [UpdateStats]))) ?c))"
    using stats_accounting [of "[CountRemoved, CountRemoved]" ?c] z by blast
  then show ?thesis using z by simp
qed

end
