(* ===== verification/Queue_Processor.thy ===== *)
theory Queue_Processor
  imports Worker_Calls Consumer_Worker
begin

text \<open>
  The processor that owns the workers of a queue: \<^verbatim>\<open>consumer/QueueProcessor.h\<close> and
  \<^verbatim>\<open>consumer/QueueProcessor.cpp\<close>. Its operations are loops over the workers; one step of the machine below is one
  call on one worker, the rest of such a call, a step of a worker thread, or the end of a loop, so worker threads
  run at any moment of an operation.

  The operations are called one after the other: \<^verbatim>\<open>startLock\<close> is held by \<^verbatim>\<open>start\<close>, \<^verbatim>\<open>stop\<close>, \<^verbatim>\<open>pause\<close> and \<^verbatim>\<open>resume\<close> and
  \<^verbatim>\<open>workerLock\<close> by every loop over the workers, so a second caller waits at the lock. \<^verbatim>\<open>terminate\<close> sets its flag before it takes a lock; it is modelled
  for a caller that finds the processor between operations.
\<close>

section \<open>State\<close>

record 'c WorkerCache =
  processingWorker :: "Worker option"
  consumer :: 'c
  wc_debug :: bool

text \<open>The loops of the operations, and where the caller is: in a loop, at worker \<open>i\<close>, with the call made or not.\<close>

datatype qp_loop = LStart | LNew | LSignal | LStop | LJoin | LPause bool | LIdle | LResume | LBroadcast

datatype qp_pc = Ready | Loop qp_loop nat bool

record 'c QueueProcessor =
  numWorkers :: c_uint
  qp_isRunningFlag :: bool
  qp_isPausedFlag :: bool
  qp_isTerminatedFlag :: bool
  workers :: "'c WorkerCache list"
  nestedPauseCounter :: c_uint
  queueSize :: c_uint
  qp_debug :: bool
  terminating :: bool
  quiesced :: bool
  qp_at :: qp_pc

text \<open>
  \<open>terminating\<close> says that \<^verbatim>\<open>stop\<close> was called by \<^verbatim>\<open>terminate\<close>; \<open>quiesced\<close> records that a \<^verbatim>\<open>pause(true)\<close> that paused
  the workers has returned and that the workers were not resumed or stopped since.
\<close>

definition WorkerCache_new :: "'c \<Rightarrow> 'c WorkerCache" where
  "WorkerCache_new c = \<lparr>processingWorker = None, consumer = c, wc_debug = False\<rparr>"

function fillWorkers :: "nat \<Rightarrow> 'c list \<Rightarrow> 'c WorkerCache list \<Rightarrow> 'c WorkerCache list" where
  "fillWorkers n cs ws =
     (if length ws < n then fillWorkers n cs (ws @ [WorkerCache_new (cs ! min (length cs - 1) (length ws))]) else ws)"
  by auto
termination by (relation "measure (\<lambda>(n, cs, ws). n - length ws)") auto

declare fillWorkers.simps [simp del]

definition QueueProcessor_new :: "c_uint \<Rightarrow> 'c list \<Rightarrow> c_uint \<Rightarrow> 'c QueueProcessor result" where
  "QueueProcessor_new n consumers qsize =
     (if 0 < n \<and> length consumers < 1 then Inl (LogicError ''no consumers provided'')
      else Inr \<lparr>numWorkers = n, qp_isRunningFlag = False, qp_isPausedFlag = False, qp_isTerminatedFlag = False,
        workers = fillWorkers (unat n) consumers [], nestedPauseCounter = 0, queueSize = qsize, qp_debug = False,
        terminating = False, quiesced = False, qp_at = Ready\<rparr>)"

abbreviation worker :: "'c QueueProcessor \<Rightarrow> nat \<Rightarrow> Worker option" where
  "worker p i \<equiv> processingWorker (workers p ! i)"

definition setWorker :: "nat \<Rightarrow> Worker option \<Rightarrow> 'c QueueProcessor \<Rightarrow> 'c QueueProcessor" where
  "setWorker i w p = p\<lparr>workers := (workers p)[i := (workers p ! i)\<lparr>processingWorker := w\<rparr>]\<rparr>"

definition newWorker :: "nat \<Rightarrow> 'c QueueProcessor \<Rightarrow> 'c QueueProcessor" where
  "newWorker i p = p\<lparr>workers := (workers p)[i := (workers p ! i)
     \<lparr>processingWorker := Some (Worker_start Worker_new), wc_debug := qp_debug p\<rparr>]\<rparr>"

lemma setWorker_simps [simp]:
  "qp_at (setWorker i w p) = qp_at p" "numWorkers (setWorker i w p) = numWorkers p"
  "length (workers (setWorker i w p)) = length (workers p)" "qp_isRunningFlag (setWorker i w p) = qp_isRunningFlag p"
  "qp_isPausedFlag (setWorker i w p) = qp_isPausedFlag p" "qp_isTerminatedFlag (setWorker i w p) = qp_isTerminatedFlag p"
  "quiesced (setWorker i w p) = quiesced p" "terminating (setWorker i w p) = terminating p"
  "nestedPauseCounter (setWorker i w p) = nestedPauseCounter p"
  "j < length (workers p) \<Longrightarrow> worker (setWorker i w p) j = (if i = j then w else worker p j)"
  by (simp_all add: setWorker_def)

lemma newWorker_simps [simp]:
  "qp_at (newWorker i p) = qp_at p" "numWorkers (newWorker i p) = numWorkers p"
  "length (workers (newWorker i p)) = length (workers p)" "qp_isRunningFlag (newWorker i p) = qp_isRunningFlag p"
  "qp_isPausedFlag (newWorker i p) = qp_isPausedFlag p" "qp_isTerminatedFlag (newWorker i p) = qp_isTerminatedFlag p"
  "quiesced (newWorker i p) = quiesced p" "terminating (newWorker i p) = terminating p"
  "nestedPauseCounter (newWorker i p) = nestedPauseCounter p"
  "j < length (workers p) \<Longrightarrow> worker (newWorker i p) j = (if i = j then Some (Worker_start Worker_new) else worker p j)"
  by (simp_all add: newWorker_def)

section \<open>Operations\<close>

text \<open>Each operation up to its first loop; a result at \<open>Ready\<close> has returned.\<close>

definition QueueProcessor_start :: "'c QueueProcessor \<Rightarrow> 'c QueueProcessor" where
  "QueueProcessor_start p =
     (if qp_isTerminatedFlag p then p
      else if qp_isRunningFlag p then p\<lparr>qp_at := Loop LStart 0 False\<rparr>
      else p\<lparr>qp_isRunningFlag := True, qp_at := Loop LNew 0 False\<rparr>)"

definition QueueProcessor_stop :: "'c QueueProcessor \<Rightarrow> 'c QueueProcessor" where
  "QueueProcessor_stop p =
     (if \<not> qp_isRunningFlag p then p else p\<lparr>quiesced := False, qp_at := Loop LSignal 0 False\<rparr>)"

definition QueueProcessor_terminate :: "'c QueueProcessor \<Rightarrow> 'c QueueProcessor" where
  "QueueProcessor_terminate p =
     (if qp_isTerminatedFlag p then p
      else let p1 = QueueProcessor_stop (p\<lparr>qp_isTerminatedFlag := True\<rparr>)
           in if qp_at p1 = Ready then p1\<lparr>workers := []\<rparr> else p1\<lparr>terminating := True\<rparr>)"

definition pause_end :: "'c QueueProcessor \<Rightarrow> 'c QueueProcessor" where
  "pause_end p = p\<lparr>qp_isPausedFlag := True, nestedPauseCounter := nestedPauseCounter p + 1, qp_at := Ready\<rparr>"

definition QueueProcessor_pause :: "bool \<Rightarrow> 'c QueueProcessor \<Rightarrow> 'c QueueProcessor" where
  "QueueProcessor_pause block p =
     (if qp_isTerminatedFlag p then p
      else if \<not> qp_isPausedFlag p
      then if qp_isRunningFlag p then p\<lparr>qp_at := Loop (LPause block) 0 False\<rparr> else pause_end p
      else p\<lparr>nestedPauseCounter := nestedPauseCounter p + 1\<rparr>)"

definition QueueProcessor_resume :: "'c QueueProcessor \<Rightarrow> 'c QueueProcessor" where
  "QueueProcessor_resume p =
     (if qp_isTerminatedFlag p \<or> \<not> qp_isPausedFlag p then p
      else let p1 = p\<lparr>nestedPauseCounter := nestedPauseCounter p - 1\<rparr>
           in if nestedPauseCounter p1 = 0
              then if qp_isRunningFlag p1 then p1\<lparr>quiesced := False, qp_at := Loop LResume 0 False\<rparr>
                   else p1\<lparr>qp_isPausedFlag := False\<rparr>
              else p1)"

definition QueueProcessor_broadcast :: "'c QueueProcessor \<Rightarrow> 'c QueueProcessor" where
  "QueueProcessor_broadcast p = p\<lparr>qp_at := Loop LBroadcast 0 False\<rparr>"

definition QueueProcessor_setDebug :: "bool \<Rightarrow> 'c QueueProcessor \<Rightarrow> 'c QueueProcessor" where
  "QueueProcessor_setDebug b p =
     p\<lparr>qp_debug := b, workers := map (\<lambda>wc. if processingWorker wc = None then wc else wc\<lparr>wc_debug := b\<rparr>) (workers p)\<rparr>"

text \<open>The bound of a loop, the call it makes on a worker, and what follows it.\<close>

definition loopEnd :: "qp_loop \<Rightarrow> 'c QueueProcessor \<Rightarrow> nat" where
  "loopEnd l p = (if l = LStart \<or> l = LNew then unat (numWorkers p) else length (workers p))"

fun worker_call :: "qp_loop \<Rightarrow> Worker \<Rightarrow> Worker" where
  "worker_call LStart w = Worker_start w"
| "worker_call LNew w = Worker_start w"
| "worker_call LSignal w = ctl_goto (Signalling True) w"
| "worker_call LStop w = Worker_stop w"
| "worker_call LJoin w = w"
| "worker_call (LPause b) w = (if isTerminatedFlag w then w else ctl_goto (Pausing False) w)"
| "worker_call LIdle w = (if isTerminatedFlag w then w else ctl_goto (Pausing True) w)"
| "worker_call LResume w = (Worker_resume w)\<lparr>quiet := False\<rparr>"
| "worker_call LBroadcast w = ctl_goto (Signalling False) w"

definition stop_end :: "'c QueueProcessor \<Rightarrow> 'c QueueProcessor" where
  "stop_end p =
     p\<lparr>qp_isRunningFlag := False, qp_isPausedFlag := False, workers := (if terminating p then [] else workers p),
       terminating := False, qp_at := Ready\<rparr>"

fun loop_done :: "qp_loop \<Rightarrow> 'c QueueProcessor \<Rightarrow> 'c QueueProcessor" where
  "loop_done LSignal p = p\<lparr>qp_at := Loop LStop 0 False\<rparr>"
| "loop_done LStop p = p\<lparr>qp_at := Loop LJoin 0 False\<rparr>"
| "loop_done LJoin p = stop_end p"
| "loop_done (LPause b) p = (if b then p\<lparr>qp_at := Loop LIdle 0 False\<rparr> else pause_end p)"
| "loop_done LIdle p = (pause_end p)\<lparr>quiesced := True\<rparr>"
| "loop_done LResume p = p\<lparr>qp_isPausedFlag := False, qp_at := Ready\<rparr>"
| "loop_done l p = p\<lparr>qp_at := Ready\<rparr>"

section \<open>Steps\<close>

inductive qp_step :: "'c QueueProcessor \<Rightarrow> 'c QueueProcessor \<Rightarrow> bool" where
  Run: "i < length (workers p) \<Longrightarrow> worker p i = Some w \<Longrightarrow> run_step w w' \<Longrightarrow> qp_step p (setWorker i (Some w') p)"
| Start: "qp_at p = Ready \<Longrightarrow> qp_step p (QueueProcessor_start p)"
| Stop: "qp_at p = Ready \<Longrightarrow> qp_step p (QueueProcessor_stop p)"
| Terminate: "qp_at p = Ready \<Longrightarrow> qp_step p (QueueProcessor_terminate p)"
| Pause: "qp_at p = Ready \<Longrightarrow> qp_step p (QueueProcessor_pause b p)"
| Resume: "qp_at p = Ready \<Longrightarrow> qp_step p (QueueProcessor_resume p)"
| Broadcast: "qp_at p = Ready \<Longrightarrow> qp_step p (QueueProcessor_broadcast p)"
| SetDebug: "qp_at p = Ready \<Longrightarrow> qp_step p (QueueProcessor_setDebug b p)"
| New: "qp_at p = Loop LNew i False \<Longrightarrow> i < loopEnd LNew p \<Longrightarrow>
    qp_step p ((newWorker i p)\<lparr>qp_at := Loop LNew i True\<rparr>)"
| Call: "qp_at p = Loop l i False \<Longrightarrow> i < loopEnd l p \<Longrightarrow> l \<noteq> LNew \<Longrightarrow> l \<noteq> LJoin \<Longrightarrow> worker p i = Some w \<Longrightarrow>
    qp_step p ((setWorker i (Some (worker_call l w)) p)\<lparr>qp_at := Loop l i True\<rparr>)"
| Skip: "qp_at p = Loop LBroadcast i False \<Longrightarrow> i < loopEnd LBroadcast p \<Longrightarrow> worker p i = None \<Longrightarrow>
    qp_step p (p\<lparr>qp_at := Loop LBroadcast (Suc i) False\<rparr>)"
| Join: "qp_at p = Loop LJoin i False \<Longrightarrow> i < loopEnd LJoin p \<Longrightarrow> worker p i = Some w \<Longrightarrow> Worker_join w \<Longrightarrow>
    qp_step p ((setWorker i None p)\<lparr>qp_at := Loop LJoin (Suc i) False\<rparr>)"
| Return: "qp_at p = Loop l i True \<Longrightarrow> worker p i = Some w \<Longrightarrow> ctl_at w = NoCall \<Longrightarrow>
    qp_step p (p\<lparr>qp_at := Loop l (Suc i) False\<rparr>)"
| Done: "qp_at p = Loop l i False \<Longrightarrow> loopEnd l p \<le> i \<Longrightarrow> qp_step p (loop_done l p)"

inductive qp_reach :: "'c QueueProcessor \<Rightarrow> 'c QueueProcessor \<Rightarrow> bool" where
  Refl: "qp_reach p p"
| Step: "qp_reach p p' \<Longrightarrow> qp_step p' p'' \<Longrightarrow> qp_reach p p''"

lemma qp_reach_trans: "qp_reach q r \<Longrightarrow> qp_reach p q \<Longrightarrow> qp_reach p r"
  by (induction rule: qp_reach.induct) (auto intro: qp_reach.intros)

text \<open>
  \<^verbatim>\<open>writeQueueStats\<close>: every worker that exists adds its count to the statistics of the queue, which are printed.
\<close>

fun updateWorkers ::
  "QueueAccess option list \<Rightarrow> ('e, 'm, 'z) SyncQueue_scheme \<Rightarrow> QueueAccess option list \<times> ('e, 'm, 'z) SyncQueue_scheme" where
  "updateWorkers [] s = ([], s)"
| "updateWorkers (None # as) s = (let (as', s') = updateWorkers as s in (None # as', s'))"
| "updateWorkers (Some a # as) s =
     (let (a', s1) = access_updateStats a s; (as', s') = updateWorkers as s1 in (Some a' # as', s'))"

definition writeQueueStats ::
  "QueueAccess option list \<Rightarrow> ('e, 'm, 'z) SyncQueue_scheme \<Rightarrow>
   QueueAccess option list \<times> ('e, 'm, 'z) SyncQueue_scheme \<times> (c_uint \<times> c_uint \<times> c_uint)" where
  "writeQueueStats as s = (let (as', s') = updateWorkers as s in (as', s', stats_print (stats s')))"

end
