(* ===== verification/Processor_Properties.thy ===== *)
theory Processor_Properties
  imports Queue_Processor
begin

text \<open>
  What the operations of the processor guarantee: the workers a loop calls exist, a blocking pause that has
  returned keeps every worker away from the queue, every call returns unless \<^verbatim>\<open>stop\<close> meets a paused worker.
\<close>

section \<open>Invariant\<close>

definition safe_worker :: "Worker \<Rightarrow> bool" where
  "safe_worker w \<longleftrightarrow> w_inv w \<and> signal_part w \<and> pause_part w"

definition resting :: "Worker \<Rightarrow> bool" where
  "resting w \<longleftrightarrow> quiet w \<or> isTerminatedFlag w"

definition idle_call :: "Worker \<Rightarrow> bool" where
  "idle_call w \<longleftrightarrow> ctl_at w \<in> {Pausing True, PauseSignal True, PauseIdle True, IdleSleep, IdleWoken} \<or>
     ctl_at w = NoCall \<and> resting w"

text \<open>Which workers exist, by the place of the caller.\<close>

fun exists_at :: "qp_pc \<Rightarrow> bool \<Rightarrow> nat \<Rightarrow> bool \<Rightarrow> bool" where
  "exists_at Ready running i e \<longleftrightarrow> e = running"
| "exists_at (Loop LBroadcast j b) running i e \<longleftrightarrow> e = running"
| "exists_at (Loop LNew j b) running i e \<longleftrightarrow> running \<and> e = (i < j \<or> i = j \<and> b)"
| "exists_at (Loop LJoin j b) running i e \<longleftrightarrow> running \<and> \<not> b \<and> e = (j \<le> i)"
| "exists_at (Loop l j b) running i e \<longleftrightarrow> running \<and> e"

definition exists_part :: "'c QueueProcessor \<Rightarrow> bool" where
  "exists_part p \<longleftrightarrow> (\<forall>i < length (workers p). exists_at (qp_at p) (qp_isRunningFlag p) i (worker p i \<noteq> None))"

definition size_part :: "'c QueueProcessor \<Rightarrow> bool" where
  "size_part p \<longleftrightarrow> (terminating p \<longrightarrow> qp_isTerminatedFlag p) \<and> (qp_isRunningFlag p \<or> \<not> qp_isTerminatedFlag p \<longrightarrow> length (workers p) = unat (numWorkers p)) \<and>
     (\<forall>l i b. qp_at p = Loop l i b \<longrightarrow> (l = LBroadcast \<or> qp_isRunningFlag p) \<and> i \<le> length (workers p) \<and> (b \<longrightarrow> i < length (workers p)))"

definition safe_part :: "'c QueueProcessor \<Rightarrow> bool" where
  "safe_part p \<longleftrightarrow> (\<forall>i < length (workers p). \<forall>w. worker p i = Some w \<longrightarrow> safe_worker w \<and>
     (ctl_at w = NoCall \<or> (\<exists>l. qp_at p = Loop l i True)))"

definition quiet_part :: "'c QueueProcessor \<Rightarrow> bool" where
  "quiet_part p \<longleftrightarrow>
     (quiesced p \<longrightarrow> qp_isRunningFlag p \<and> (\<forall>j b. qp_at p \<noteq> Loop LNew j b) \<and> (\<forall>l j b. qp_at p = Loop l j b \<longrightarrow> l \<notin> {LSignal, LStop, LJoin, LResume})) \<and>
     (\<forall>i < length (workers p). \<forall>w. worker p i = Some w \<longrightarrow>
        (quiesced p \<longrightarrow> resting w) \<and>
        (\<forall>j b. qp_at p = Loop LIdle j b \<longrightarrow> (i < j \<longrightarrow> resting w) \<and> (i = j \<and> b \<longrightarrow> idle_call w)))"

definition qp_inv :: "'c QueueProcessor \<Rightarrow> bool" where
  "qp_inv p \<longleftrightarrow> exists_part p \<and> size_part p \<and> safe_part p \<and> quiet_part p"

lemmas qp_ops = QueueProcessor_start_def QueueProcessor_stop_def QueueProcessor_terminate_def QueueProcessor_pause_def
  QueueProcessor_resume_def QueueProcessor_broadcast_def QueueProcessor_setDebug_def pause_end_def stop_end_def Let_def

subsection \<open>Workers\<close>

lemma run_step_safe: "run_step w w' \<Longrightarrow> safe_worker w \<Longrightarrow> safe_worker w'"
  using run_step_step w_step_inv signal_part_step pause_part_step unfolding safe_worker_def by blast

lemma call_is_step:
  assumes "ctl_at w = NoCall" and "l \<noteq> LJoin"
  shows "w_step False w (worker_call l w)"
  using w_step.CallStart [OF assms(1)] w_step.CallSignal [OF assms(1)] w_step.CallStop [OF assms(1)]
    w_step.CallPause [OF assms(1)] w_step.CallResume [OF assms(1)] assms(2)
  by (cases l) simp_all

lemma call_safe:
  assumes "ctl_at w = NoCall" and "l \<noteq> LJoin" and "safe_worker w"
  shows "safe_worker (worker_call l w)"
  using call_is_step [OF assms(1,2)] assms(3) w_step_inv signal_part_step pause_part_step unfolding safe_worker_def by blast

lemma new_safe: "safe_worker (Worker_start Worker_new)" "ctl_at (Worker_start Worker_new) = NoCall"
proof -
  have "safe_worker Worker_new"
    using w_inv_new by (simp add: safe_worker_def signal_part_def pause_part_def Worker_new_def)
  then show "safe_worker (Worker_start Worker_new)" using call_safe [of Worker_new LStart] by (simp add: Worker_new_def)
  show "ctl_at (Worker_start Worker_new) = NoCall" by (simp add: Worker_start_def Worker_new_def)
qed

lemma run_NoCall: "run_step w w' \<Longrightarrow> ctl_at w = NoCall \<Longrightarrow> ctl_at w' = NoCall"
proof (induction rule: run_step.induct)
  case (Thread w w')
  have "w_step l w w' \<Longrightarrow> l \<Longrightarrow> ctl_at w = NoCall \<Longrightarrow> ctl_at w' = NoCall" for l
    by (induction rule: w_step.induct) (simp_all add: worker_ops)
  with Thread show ?case by blast
qed simp_all

lemma run_step_keeps:
  assumes "run_step w w'" and "P w" and "\<And>l w w'. w_step l w w' \<Longrightarrow> l \<or> ctl_at w \<noteq> NoCall \<Longrightarrow> P w \<Longrightarrow> P w'"
    and "\<And>w q. P w \<Longrightarrow> P (run_goto q w)"
  shows "P w'"
  using assms(1,2) by (induction rule: run_step.induct) (blast intro: assms(3,4))+

lemma step_resting: "w_step l w w' \<Longrightarrow> l \<or> ctl_at w \<noteq> NoCall \<Longrightarrow> resting w \<Longrightarrow> resting w'"
  by (induction rule: w_step.induct) (auto simp: resting_def worker_ops)

lemma run_resting: "run_step w w' \<Longrightarrow> resting w \<Longrightarrow> resting w'"
  by (erule run_step_keeps, assumption, erule step_resting) (simp_all add: resting_def)

lemma step_idle_call: "w_step l w w' \<Longrightarrow> l \<or> ctl_at w \<noteq> NoCall \<Longrightarrow> idle_call w \<Longrightarrow> idle_call w'"
  by (induction rule: w_step.induct) (auto simp: idle_call_def resting_def worker_ops)

lemma run_idle_call: "run_step w w' \<Longrightarrow> idle_call w \<Longrightarrow> idle_call w'"
  by (erule run_step_keeps, assumption, erule step_idle_call) (simp_all add: idle_call_def resting_def)

lemma call_resting: "l \<notin> {LStop, LResume} \<Longrightarrow> resting w \<Longrightarrow> resting (worker_call l w)"
  by (cases l) (auto simp: resting_def Worker_start_def)

lemma call_idle: "idle_call (worker_call LIdle w) \<or> ctl_at w \<noteq> NoCall"
  by (simp add: idle_call_def resting_def)

subsection \<open>Steps\<close>

lemma setDebug_worker [simp]:
  "i < length (workers p) \<Longrightarrow> worker (QueueProcessor_setDebug b p) i = worker p i"
  by (simp add: QueueProcessor_setDebug_def)

lemma exists_step: "qp_step p p' \<Longrightarrow> exists_part p \<Longrightarrow> size_part p \<Longrightarrow> exists_part p'"
proof (induction rule: qp_step.induct)
  case (Call p l i w)
  then show ?case by (cases l) (auto simp: exists_part_def loopEnd_def)
next
  case (Return p l i w)
  then show ?case by (cases l) (auto simp: exists_part_def less_Suc_eq)
next
  case (Done p l i)
  then show ?case by (cases l) (auto simp: exists_part_def size_part_def qp_ops loopEnd_def)
qed (auto simp: exists_part_def size_part_def qp_ops loopEnd_def)

lemma size_step: "qp_step p p' \<Longrightarrow> exists_part p \<Longrightarrow> size_part p \<Longrightarrow> size_part p'"
proof (induction rule: qp_step.induct)
  case (Done p l i)
  then show ?case by (cases l) (auto simp: size_part_def qp_ops loopEnd_def)
qed (auto simp: exists_part_def size_part_def qp_ops loopEnd_def split: if_splits)

lemma safe_step: "qp_step p p' \<Longrightarrow> exists_part p \<Longrightarrow> size_part p \<Longrightarrow> safe_part p \<Longrightarrow> safe_part p'"
proof (induction rule: qp_step.induct)
  case (Run i p w w')
  then have "safe_worker w" "ctl_at w = NoCall \<or> (\<exists>l. qp_at p = Loop l i True)" by (auto simp: safe_part_def)
  then have "safe_worker w'" "ctl_at w' = NoCall \<or> (\<exists>l. qp_at p = Loop l i True)"
    using run_step_safe [OF Run(3)] run_NoCall [OF Run(3)] by auto
  then show ?case using Run by (simp add: safe_part_def)
next
  case (Call p l i w)
  have "i < length (workers p)" using Call by (auto simp: size_part_def loopEnd_def split: if_splits)
  then have w: "safe_worker w" "ctl_at w = NoCall" using Call by (auto simp: safe_part_def)
  then have "safe_worker (worker_call l w)" using call_safe [OF w(2) Call(4) w(1)] by simp
  then show ?case using Call by (auto simp: safe_part_def)
next
  case (Return p l i w)
  then show ?case by (fastforce simp: safe_part_def)
next
  case (Done p l i)
  then show ?case by (cases l) (auto simp: safe_part_def size_part_def qp_ops loopEnd_def)
qed (auto simp: safe_part_def qp_ops new_safe)

lemma quiet_step:
  "qp_step p p' \<Longrightarrow> exists_part p \<Longrightarrow> size_part p \<Longrightarrow> safe_part p \<Longrightarrow> quiet_part p \<Longrightarrow> quiet_part p'"
proof (induction rule: qp_step.induct)
  case (Run i p w w')
  then have "resting w \<longrightarrow> resting w'" "idle_call w \<longrightarrow> idle_call w'" using run_resting run_idle_call by blast+
  then show ?case using Run by (auto simp: quiet_part_def)
next
  case (Call p l i w)
  have i: "i < length (workers p)" using Call by (auto simp: size_part_def loopEnd_def split: if_splits)
  have "ctl_at w = NoCall" using Call i by (auto simp: safe_part_def)
  then have "l = LIdle \<longrightarrow> idle_call (worker_call l w)" "l \<notin> {LStop, LResume} \<longrightarrow> resting w \<longrightarrow> resting (worker_call l w)"
    using call_idle call_resting by blast+
  then show ?case using Call i by (auto simp: quiet_part_def simp del: worker_call.simps)
next
  case (Return p l i w)
  have "idle_call w \<longrightarrow> resting w" using Return(3) by (auto simp: idle_call_def)
  then show ?case using Return by (auto simp: quiet_part_def less_Suc_eq)
next
  case (Done p l i)
  then show ?case by (cases l) (auto simp: quiet_part_def size_part_def qp_ops loopEnd_def)
qed (auto simp: quiet_part_def qp_ops)

theorem qp_step_inv: "qp_step p p' \<Longrightarrow> qp_inv p \<Longrightarrow> qp_inv p'"
  using exists_step size_step safe_step quiet_step unfolding qp_inv_def by blast

theorem qp_reach_inv: "qp_reach p p' \<Longrightarrow> qp_inv p \<Longrightarrow> qp_inv p'"
  by (induction rule: qp_reach.induct) (auto intro: qp_step_inv)

subsection \<open>The new processor\<close>

lemma fillWorkers_eq:
  "length ws \<le> n \<Longrightarrow>
   fillWorkers n cs ws = ws @ map (\<lambda>i. WorkerCache_new (cs ! min (length cs - 1) i)) [length ws..<n]"
proof (induction n cs ws rule: fillWorkers.induct)
  case (1 n cs ws)
  then show ?case by (cases "length ws < n") (simp_all add: fillWorkers.simps [of n cs ws] upt_rec [of "length ws"])
qed

lemma new_workers:
  assumes "QueueProcessor_new n cs sz = Inr p"
  shows "length (workers p) = unat n" and "i < unat n \<Longrightarrow> workers p ! i = WorkerCache_new (cs ! min (length cs - 1) i)"
  using assms by (auto simp: QueueProcessor_new_def fillWorkers_eq split: if_splits)

lemma new_inv: "QueueProcessor_new n cs sz = Inr p \<Longrightarrow> qp_inv p"
  using new_workers [of n cs sz p]
  by (auto simp: QueueProcessor_new_def qp_inv_def exists_part_def size_part_def safe_part_def quiet_part_def
      WorkerCache_new_def split: if_splits)

section \<open>Loops end\<close>

definition same_flags :: "'c QueueProcessor \<Rightarrow> 'c QueueProcessor \<Rightarrow> bool" where
  "same_flags p q \<longleftrightarrow> numWorkers q = numWorkers p \<and> qp_isRunningFlag q = qp_isRunningFlag p \<and>
     qp_isPausedFlag q = qp_isPausedFlag p \<and> qp_isTerminatedFlag q = qp_isTerminatedFlag p \<and>
     nestedPauseCounter q = nestedPauseCounter p \<and> terminating q = terminating p \<and> quiesced q = quiesced p \<and>
     length (workers q) = length (workers p)"

lemma same_flags_trans: "same_flags p q \<Longrightarrow> same_flags q r \<Longrightarrow> same_flags p r"
  by (simp add: same_flags_def)

text \<open>Each worker is visited in turn; \<open>P\<close> is what a visit needs of the worker, \<open>Q\<close> what it leaves.\<close>

definition visited :: "qp_loop \<Rightarrow> (Worker \<Rightarrow> bool) \<Rightarrow> nat \<Rightarrow> 'c QueueProcessor \<Rightarrow> 'c QueueProcessor \<Rightarrow> bool" where
  "visited l Q i p q \<longleftrightarrow> qp_reach p q \<and> qp_at q = Loop l (Suc i) False \<and> same_flags p q \<and>
     (\<forall>j < length (workers p). j \<noteq> i \<longrightarrow> worker q j = worker p j) \<and> (\<forall>w. worker q i = Some w \<longrightarrow> Q w)"

lemma loop_run:
  fixes p :: "'c QueueProcessor"
  assumes visit: "\<And>i (p :: 'c QueueProcessor). qp_inv p \<Longrightarrow> qp_at p = Loop l i False \<Longrightarrow> i < length (workers p) \<Longrightarrow>
      (\<And>w. worker p i = Some w \<Longrightarrow> P w) \<Longrightarrow> \<exists>q. visited l Q i p q"
  shows "qp_inv p \<Longrightarrow> qp_at p = Loop l i False \<Longrightarrow>
    (\<And>j w. i \<le> j \<Longrightarrow> j < length (workers p) \<Longrightarrow> worker p j = Some w \<Longrightarrow> P w) \<Longrightarrow>
    (\<And>j w. j < i \<Longrightarrow> worker p j = Some w \<Longrightarrow> Q w) \<Longrightarrow>
    \<exists>q. qp_reach p q \<and> qp_inv q \<and> qp_at q = Loop l (length (workers q)) False \<and> same_flags p q \<and>
      (\<forall>j < length (workers q). \<forall>w. worker q j = Some w \<longrightarrow> Q w)"
proof (induction "length (workers p) - i" arbitrary: i p)
  case 0
  then have "i = length (workers p)" by (auto simp: qp_inv_def size_part_def)
  then show ?case using 0 by (intro exI [of _ p]) (auto simp: same_flags_def intro: qp_reach.Refl)
next
  case (Suc n)
  then have i: "i < length (workers p)" by simp
  from visit [OF Suc.prems(1,2) i] Suc.prems(3) i obtain r where v: "visited l Q i p r" by blast
  then have r: "qp_reach p r" "qp_at r = Loop l (Suc i) False" "same_flags p r" "length (workers r) = length (workers p)"
    "\<And>j. j < length (workers p) \<Longrightarrow> j \<noteq> i \<Longrightarrow> worker r j = worker p j" "\<And>w. worker r i = Some w \<Longrightarrow> Q w"
    by (auto simp: visited_def same_flags_def)
  have "\<exists>q. qp_reach r q \<and> qp_inv q \<and> qp_at q = Loop l (length (workers q)) False \<and> same_flags r q \<and>
      (\<forall>j < length (workers q). \<forall>w. worker q j = Some w \<longrightarrow> Q w)"
  proof (rule Suc.hyps(1))
    show "n = length (workers r) - Suc i" using Suc.hyps(2) r(4) by simp
    show "qp_inv r" by (rule qp_reach_inv [OF r(1) Suc.prems(1)])
    show "P w" if "Suc i \<le> j" "j < length (workers r)" "worker r j = Some w" for j w
      using Suc.prems(3) [of j w] r(4) r(5) [of j] that by auto
    show "Q w" if "j < Suc i" "worker r j = Some w" for j w
      using that r(5) [of j] r(6) [of w] Suc.prems(4) [of j w] i by (cases "j = i") auto
  qed (rule r(2))
  then show ?case using qp_reach_trans [OF _ r(1)] same_flags_trans [OF r(3)] by blast
qed

lemma run_many:
  "run_reach w w' \<Longrightarrow> i < length (workers p) \<Longrightarrow> worker p i = Some w \<Longrightarrow> qp_reach p (setWorker i (Some w') p)"
proof (induction arbitrary: p rule: run_reach.induct)
  case (Refl w)
  then have "setWorker i (Some w) p = p" by (simp add: setWorker_def list_update_same_conv)
  then show ?case by (simp add: qp_reach.Refl)
next
  case (Step w w' w'')
  let ?q = "setWorker i (Some w') p"
  have "qp_reach ?q (setWorker i (Some w'') ?q)" using Step by simp
  moreover have "setWorker i (Some w'') ?q = setWorker i (Some w'') p" using Step(4) by (simp add: setWorker_def)
  ultimately show ?case
    using qp_reach_trans qp_reach.Step [OF qp_reach.Refl qp_step.Run [OF Step(4,5,1)]] by metis
qed

lemma inv_NoCall:
  assumes "qp_inv p" and "i < length (workers p)" and "worker p i = Some w" and "\<And>l. qp_at p \<noteq> Loop l i True"
  shows "ctl_at w = NoCall" and "safe_worker w"
  using assms by (auto simp: qp_inv_def safe_part_def)

lemma loopEnd_inv: "qp_inv p \<Longrightarrow> qp_at p = Loop l i b \<Longrightarrow> loopEnd l p = length (workers p)"
  by (auto simp: qp_inv_def size_part_def loopEnd_def)

text \<open>A visit that makes a call: the call returns.\<close>

lemma call_visit:
  assumes inv: "qp_inv p" and a: "qp_at p = Loop l i False" and i: "i < length (workers p)" and l: "l \<noteq> LNew" "l \<noteq> LJoin"
    and w: "worker p i = Some w" and r: "run_reach (worker_call l w) w'" "ctl_at w' = NoCall" "Q w'"
  shows "\<exists>q. visited l Q i p q"
proof -
  let ?p1 = "(setWorker i (Some (worker_call l w)) p)\<lparr>qp_at := Loop l i True\<rparr>"
  let ?p2 = "setWorker i (Some w') ?p1"
  let ?p3 = "?p2\<lparr>qp_at := Loop l (Suc i) False\<rparr>"
  have w1: "i < length (workers ?p1)" "worker ?p1 i = Some (worker_call l w)"
    using i by (simp_all add: setWorker_def)
  have w2: "worker ?p2 i = Some w'" "qp_at ?p2 = Loop l i True" using i by (simp_all add: setWorker_def)
  have "qp_step p ?p1" using qp_step.Call [OF a _ l w] i loopEnd_inv [OF inv a] by simp
  moreover have "qp_reach ?p1 ?p2" by (rule run_many [OF r(1) w1])
  moreover have "qp_step ?p2 ?p3" by (rule qp_step.Return [OF w2(2,1) r(2)])
  ultimately have "qp_reach p ?p3" by (meson qp_reach.Refl qp_reach.Step qp_reach_trans)
  moreover have "same_flags p ?p3" by (simp add: same_flags_def setWorker_def)
  moreover have "worker ?p3 j = worker p j" if "j \<noteq> i" for j using that by (simp add: setWorker_def)
  moreover have "worker ?p3 i = Some w'" using i by (simp add: setWorker_def)
  ultimately show ?thesis using r(3) unfolding visited_def by (intro exI [of _ ?p3]) auto
qed

lemma skip_visit:
  assumes inv: "qp_inv p" and a: "qp_at p = Loop LBroadcast i False" and i: "i < length (workers p)" and w: "worker p i = None"
  shows "\<exists>q. visited LBroadcast Q i p q"
proof -
  let ?q = "p\<lparr>qp_at := Loop LBroadcast (Suc i) False\<rparr>"
  have "qp_reach p ?q" using qp_step.Skip [OF a _ w] i loopEnd_inv [OF inv a] by (simp add: qp_reach.Step [OF qp_reach.Refl])
  then show ?thesis using w unfolding visited_def by (intro exI [of _ ?q]) (auto simp: same_flags_def)
qed

lemma worker_call_returns:
  assumes "safe_worker w" and "ctl_at w = NoCall" and "l \<noteq> LJoin" and "l = LSignal \<Longrightarrow> \<not> isPausedFlag w"
  shows "\<exists>w'. run_reach (worker_call l w) w' \<and> ctl_at w' = NoCall"
proof -
  have "unblocked (worker_call l w)"
    using assms(2-4) by (cases l) (auto simp: unblocked_def worker_ops)
  then have "call_ok (worker_call l w)"
    using call_safe [OF assms(2,3,1)] by (simp add: call_ok_def safe_worker_def)
  then show ?thesis using call_returns by blast
qed

definition stop_call :: "Worker \<Rightarrow> bool" where
  "stop_call w \<longleftrightarrow> ctl_at w \<in> {StopResume, StopSignal, StopIdle, StopUnstarted, StopDead} \<and> isTerminatedFlag w \<or>
     ctl_at w = NoCall \<and> stopped w"

lemma step_stop_call: "w_step l w w' \<Longrightarrow> l \<or> ctl_at w \<noteq> NoCall \<Longrightarrow> stop_call w \<Longrightarrow> stop_call w'"
  by (induction rule: w_step.induct) (auto simp: stop_call_def worker_ops)

lemma run_stop_call: "run_reach w w' \<Longrightarrow> stop_call w \<Longrightarrow> stop_call w'"
proof (induction rule: run_reach.induct)
  case (Step w w' w'')
  have "stop_call w'"
    by (rule run_step_keeps [where P = stop_call, OF Step(1,4)], erule step_stop_call) (simp_all add: stop_call_def)
  then show ?case by (rule Step.IH)
qed

section \<open>Operations return\<close>

text \<open>A loop that makes calls ends; in the loop of \<^verbatim>\<open>signal(true)\<close>, if no worker is paused.\<close>

lemma calls_run:
  assumes inv: "qp_inv p" and a: "qp_at p = Loop l 0 False" and l: "l \<noteq> LNew" "l \<noteq> LJoin"
    and un: "\<And>j w. l = LSignal \<Longrightarrow> j < length (workers p) \<Longrightarrow> worker p j = Some w \<Longrightarrow> \<not> isPausedFlag w"
  shows "\<exists>q. qp_reach p q \<and> qp_inv q \<and> qp_at q = Loop l (length (workers q)) False \<and> same_flags p q \<and>
    (\<forall>j < length (workers q). \<forall>w. worker q j = Some w \<longrightarrow> l = LStop \<longrightarrow> stopped w)"
proof (rule loop_run [where P = "\<lambda>w. l = LSignal \<longrightarrow> \<not> isPausedFlag w", OF _ inv a])
  fix i and p :: "'a QueueProcessor"
  assume inv: "qp_inv p" and a: "qp_at p = Loop l i False" and i: "i < length (workers p)"
    and un: "\<And>w. worker p i = Some w \<Longrightarrow> l = LSignal \<longrightarrow> \<not> isPausedFlag w"
  show "\<exists>q. visited l (\<lambda>w. l = LStop \<longrightarrow> stopped w) i p q"
  proof (cases "worker p i")
    case None
    have "l = LBroadcast" using inv a i None l by (cases l) (auto simp: qp_inv_def exists_part_def)
    then show ?thesis using skip_visit [OF inv _ i None] a by blast
  next
    case (Some w)
    have w: "ctl_at w = NoCall" "safe_worker w" using inv_NoCall [OF inv i Some] a by auto
    obtain w' where r: "run_reach (worker_call l w) w'" "ctl_at w' = NoCall"
      using worker_call_returns [OF w(2,1) l(2) un [OF Some, rule_format]] by blast
    have "stop_call (worker_call l w)" if "l = LStop" using that by (simp add: stop_call_def Worker_stop_def)
    then have "l = LStop \<longrightarrow> stopped w'" using run_stop_call [OF r(1)] r(2) by (simp add: stop_call_def)
    then show ?thesis by (rule call_visit [where Q = "\<lambda>w. l = LStop \<longrightarrow> stopped w", OF inv a i l Some r])
  qed
qed (use un in auto)

lemma new_run:
  assumes inv: "qp_inv p" and a: "qp_at p = Loop LNew 0 False"
  shows "\<exists>q. qp_reach p q \<and> qp_inv q \<and> qp_at q = Loop LNew (length (workers q)) False \<and> same_flags p q \<and>
    (\<forall>j < length (workers q). \<forall>w. worker q j = Some w \<longrightarrow> w = Worker_start Worker_new)"
proof (rule loop_run [where P = "\<lambda>w. True", OF _ inv a])
  fix i and p :: "'a QueueProcessor"
  assume inv: "qp_inv p" and a: "qp_at p = Loop LNew i False" and i: "i < length (workers p)"
  let ?p1 = "(newWorker i p)\<lparr>qp_at := Loop LNew i True\<rparr>"
  let ?p2 = "?p1\<lparr>qp_at := Loop LNew (Suc i) False\<rparr>"
  have "qp_step p ?p1" using qp_step.New [OF a] i loopEnd_inv [OF inv a] by simp
  moreover have "qp_step ?p1 ?p2"
    by (rule qp_step.Return [of _ _ _ "Worker_start Worker_new"]) (use i new_safe in \<open>simp_all add: newWorker_def\<close>)
  ultimately have "qp_reach p ?p2" by (meson qp_reach.Refl qp_reach.Step)
  then show "\<exists>q. visited LNew (\<lambda>w. w = Worker_start Worker_new) i p q"
    using i unfolding visited_def by (intro exI [of _ ?p2]) (auto simp: same_flags_def newWorker_def)
qed auto

lemma join_run:
  assumes inv: "qp_inv p" and a: "qp_at p = Loop LJoin 0 False"
    and st: "\<And>j w. j < length (workers p) \<Longrightarrow> worker p j = Some w \<Longrightarrow> stopped w"
  shows "\<exists>q. qp_reach p q \<and> qp_inv q \<and> qp_at q = Loop LJoin (length (workers q)) False \<and> same_flags p q \<and>
    (\<forall>j < length (workers q). \<forall>w. worker q j = Some w \<longrightarrow> False)"
proof (rule loop_run [where P = stopped, OF _ inv a])
  fix i and p :: "'a QueueProcessor"
  assume inv: "qp_inv p" and a: "qp_at p = Loop LJoin i False" and i: "i < length (workers p)"
    and st: "\<And>w. worker p i = Some w \<Longrightarrow> stopped w"
  obtain w where w: "worker p i = Some w" using inv a i by (auto simp: qp_inv_def exists_part_def)
  have "ctl_at w = NoCall" "safe_worker w" using inv_NoCall [OF inv i w] a by auto
  then obtain w' where r: "run_reach w w'" "isDeadFlag w'"
    using stopped_dies [of w] st [OF w] by (auto simp: safe_worker_def)
  let ?p1 = "setWorker i (Some w') p"
  let ?p2 = "(setWorker i None ?p1)\<lparr>qp_at := Loop LJoin (Suc i) False\<rparr>"
  have "qp_reach p ?p1" by (rule run_many [OF r(1) i w])
  moreover have "qp_step ?p1 ?p2"
    by (rule qp_step.Join [of _ _ w']) (use i a r(2) loopEnd_inv [OF inv a] in \<open>simp_all add: Worker_join_def loopEnd_def\<close>)
  ultimately have "qp_reach p ?p2" by (rule qp_reach.Step)
  then show "\<exists>q. visited LJoin (\<lambda>w. False) i p q"
    using i unfolding visited_def by (intro exI [of _ ?p2]) (auto simp: same_flags_def setWorker_def)
qed (use st in auto)

lemma loop_finish:
  assumes "qp_inv q" and "qp_at q = Loop l (length (workers q)) False"
  shows "qp_step q (loop_done l q)"
  using qp_step.Done [OF assms(2)] loopEnd_inv [OF assms] by simp

lemma stop_run:
  assumes inv: "qp_inv p" and a: "qp_at p = Loop LSignal 0 False"
    and un: "\<And>j w. j < length (workers p) \<Longrightarrow> worker p j = Some w \<Longrightarrow> \<not> isPausedFlag w"
  shows "\<exists>q. qp_reach p q \<and> qp_inv q \<and> qp_at q = Ready \<and> \<not> qp_isRunningFlag q \<and> \<not> qp_isPausedFlag q \<and>
    qp_isTerminatedFlag q = qp_isTerminatedFlag p \<and> nestedPauseCounter q = nestedPauseCounter p \<and> numWorkers q = numWorkers p"
proof -
  obtain p1 where p1: "qp_reach p p1" "qp_inv p1" "qp_at p1 = Loop LSignal (length (workers p1)) False" "same_flags p p1"
    using calls_run [OF inv a] un by auto
  let ?p2 = "p1\<lparr>qp_at := Loop LStop 0 False\<rparr>"
  have s1: "qp_step p1 ?p2" using loop_finish [OF p1(2,3)] by simp
  obtain p3 where p3: "qp_reach ?p2 p3" "qp_inv p3" "qp_at p3 = Loop LStop (length (workers p3)) False" "same_flags ?p2 p3"
    "\<And>j w. j < length (workers p3) \<Longrightarrow> worker p3 j = Some w \<Longrightarrow> stopped w"
    using calls_run [OF qp_step_inv [OF s1 p1(2)], of LStop] by auto
  let ?p4 = "p3\<lparr>qp_at := Loop LJoin 0 False\<rparr>"
  have s3: "qp_step p3 ?p4" using loop_finish [OF p3(2,3)] by simp
  obtain p5 where p5: "qp_reach ?p4 p5" "qp_inv p5" "qp_at p5 = Loop LJoin (length (workers p5)) False" "same_flags ?p4 p5"
    using join_run [OF qp_step_inv [OF s3 p3(2)]] p3(5) by auto
  have s5: "qp_step p5 (stop_end p5)" using loop_finish [OF p5(2,3)] by simp
  have "qp_reach p (stop_end p5)"
    by (meson p1(1) s1 p3(1) s3 p5(1) s5 qp_reach.Step qp_reach_trans)
  moreover have "qp_inv (stop_end p5)" by (rule qp_step_inv [OF s5 p5(2)])
  ultimately show ?thesis
    using p1(4) p3(4) p5(4) by (intro exI [of _ "stop_end p5"]) (simp add: stop_end_def same_flags_def)
qed

lemma start_returns:
  assumes inv: "qp_inv p" and a: "qp_at p = Ready"
  shows "\<exists>q. qp_reach (QueueProcessor_start p) q \<and> qp_inv q \<and> qp_at q = Ready \<and> qp_isPausedFlag q = qp_isPausedFlag p \<and>
    qp_isTerminatedFlag q = qp_isTerminatedFlag p \<and> nestedPauseCounter q = nestedPauseCounter p \<and>
    length (workers q) = length (workers p) \<and> (\<not> qp_isTerminatedFlag p \<longrightarrow> qp_isRunningFlag q) \<and>
    (\<not> qp_isTerminatedFlag p \<and> \<not> qp_isRunningFlag p \<longrightarrow>
      (\<forall>j < length (workers q). worker q j = Some (Worker_start Worker_new)))"
proof (cases "qp_isTerminatedFlag p")
  case True
  then have "QueueProcessor_start p = p" by (simp add: QueueProcessor_start_def)
  then show ?thesis using True inv a qp_reach.Refl by auto
next
  case False
  note inv' = qp_step_inv [OF qp_step.Start [OF a] inv]
  show ?thesis
  proof (cases "qp_isRunningFlag p")
    case True
    then have s: "QueueProcessor_start p = p\<lparr>qp_at := Loop LStart 0 False\<rparr>" using False by (simp add: QueueProcessor_start_def)
    obtain q where q: "qp_reach (QueueProcessor_start p) q" "qp_inv q" "qp_at q = Loop LStart (length (workers q)) False"
      "same_flags (QueueProcessor_start p) q" using calls_run [OF inv', of LStart] s by auto
    have d: "qp_step q (q\<lparr>qp_at := Ready\<rparr>)" using loop_finish [OF q(2,3)] by simp
    show ?thesis
      using qp_reach.Step [OF q(1) d] qp_step_inv [OF d q(2)] q(4) s True False
      by (intro exI [of _ "q\<lparr>qp_at := Ready\<rparr>"]) (simp add: same_flags_def)
  next
    case nr: False
    then have s: "QueueProcessor_start p = p\<lparr>qp_isRunningFlag := True, qp_at := Loop LNew 0 False\<rparr>"
      using False by (simp add: QueueProcessor_start_def)
    obtain q where q: "qp_reach (QueueProcessor_start p) q" "qp_inv q" "qp_at q = Loop LNew (length (workers q)) False"
      "same_flags (QueueProcessor_start p) q" "\<And>j w. j < length (workers q) \<Longrightarrow> worker q j = Some w \<Longrightarrow> w = Worker_start Worker_new"
      using new_run [OF inv'] s by auto
    have d: "qp_step q (q\<lparr>qp_at := Ready\<rparr>)" using loop_finish [OF q(2,3)] by simp
    have "worker q j = Some (Worker_start Worker_new)" if "j < length (workers q)" for j
      using that q(2,3,5) by (auto simp: qp_inv_def exists_part_def)
    then show ?thesis
      using qp_reach.Step [OF q(1) d] qp_step_inv [OF d q(2)] q(4) s False
      by (intro exI [of _ "q\<lparr>qp_at := Ready\<rparr>"]) (simp add: same_flags_def)
  qed
qed

lemma pause_returns:
  assumes inv: "qp_inv p" and a: "qp_at p = Ready"
  shows "\<exists>q. qp_reach (QueueProcessor_pause b p) q \<and> qp_inv q \<and> qp_at q = Ready \<and>
    (\<not> qp_isTerminatedFlag p \<longrightarrow> qp_isPausedFlag q \<and> \<not> qp_isTerminatedFlag q \<and> qp_isRunningFlag q = qp_isRunningFlag p \<and>
      nestedPauseCounter q = nestedPauseCounter p + 1 \<and>
      (b \<and> qp_isRunningFlag p \<and> \<not> qp_isPausedFlag p \<longrightarrow> quiesced q))"
proof (cases "qp_isTerminatedFlag p \<or> qp_isPausedFlag p \<or> \<not> qp_isRunningFlag p")
  case True
  then have "qp_at (QueueProcessor_pause b p) = Ready" using a by (auto simp: QueueProcessor_pause_def pause_end_def)
  then show ?thesis
    using True qp_step_inv [OF qp_step.Pause [OF a] inv] qp_reach.Refl
    by (intro exI [of _ "QueueProcessor_pause b p"]) (auto simp: QueueProcessor_pause_def pause_end_def)
next
  case False
  then have s: "QueueProcessor_pause b p = p\<lparr>qp_at := Loop (LPause b) 0 False\<rparr>" by (simp add: QueueProcessor_pause_def)
  obtain p1 where p1: "qp_reach (QueueProcessor_pause b p) p1" "qp_inv p1" "qp_at p1 = Loop (LPause b) (length (workers p1)) False"
    "same_flags (QueueProcessor_pause b p) p1"
    using calls_run [OF qp_step_inv [OF qp_step.Pause [OF a] inv], of b "LPause b"] s by auto
  have s1: "qp_step p1 (loop_done (LPause b) p1)" by (rule loop_finish [OF p1(2,3)])
  show ?thesis
  proof (cases b)
    case nb: False
    then show ?thesis
      using qp_reach.Step [OF p1(1) s1] qp_step_inv [OF s1 p1(2)] p1(4) s False
      by (intro exI [of _ "loop_done (LPause b) p1"]) (simp add: same_flags_def pause_end_def)
  next
    case b: True
    let ?p2 = "p1\<lparr>qp_at := Loop LIdle 0 False\<rparr>"
    have s2: "qp_step p1 ?p2" using s1 b by simp
    obtain p3 where p3: "qp_reach ?p2 p3" "qp_inv p3" "qp_at p3 = Loop LIdle (length (workers p3)) False" "same_flags ?p2 p3"
      using calls_run [OF qp_step_inv [OF s2 p1(2)], of LIdle] by auto
    have s3: "qp_step p3 (loop_done LIdle p3)" by (rule loop_finish [OF p3(2,3)])
    have "qp_reach (QueueProcessor_pause b p) (loop_done LIdle p3)"
      by (meson p1(1) s2 p3(1) s3 qp_reach.Step qp_reach_trans)
    then show ?thesis
      using qp_step_inv [OF s3 p3(2)] p1(4) p3(4) s False
      by (intro exI [of _ "loop_done LIdle p3"]) (simp add: same_flags_def pause_end_def)
  qed
qed

lemma resume_returns:
  assumes inv: "qp_inv p" and a: "qp_at p = Ready"
  shows "\<exists>q. qp_reach (QueueProcessor_resume p) q \<and> qp_inv q \<and> qp_at q = Ready"
proof (cases "qp_at (QueueProcessor_resume p) = Ready")
  case True
  then show ?thesis using qp_step_inv [OF qp_step.Resume [OF a] inv] qp_reach.Refl by blast
next
  case False
  then have "qp_at (QueueProcessor_resume p) = Loop LResume 0 False"
    using a by (auto simp: QueueProcessor_resume_def Let_def split: if_splits)
  then obtain q where q: "qp_reach (QueueProcessor_resume p) q" "qp_inv q" "qp_at q = Loop LResume (length (workers q)) False"
    using calls_run [OF qp_step_inv [OF qp_step.Resume [OF a] inv], of LResume] by auto
  have d: "qp_step q (loop_done LResume q)" by (rule loop_finish [OF q(2,3)])
  then show ?thesis using qp_reach.Step [OF q(1) d] qp_step_inv [OF d q(2)] by fastforce
qed

lemma broadcast_returns:
  assumes inv: "qp_inv p" and a: "qp_at p = Ready"
  shows "\<exists>q. qp_reach (QueueProcessor_broadcast p) q \<and> qp_inv q \<and> qp_at q = Ready"
proof -
  obtain q where q: "qp_reach (QueueProcessor_broadcast p) q" "qp_inv q" "qp_at q = Loop LBroadcast (length (workers q)) False"
    using calls_run [OF qp_step_inv [OF qp_step.Broadcast [OF a] inv], of LBroadcast]
    by (auto simp: QueueProcessor_broadcast_def)
  have d: "qp_step q (loop_done LBroadcast q)" by (rule loop_finish [OF q(2,3)])
  then show ?thesis using qp_reach.Step [OF q(1) d] qp_step_inv [OF d q(2)] by fastforce
qed

lemma stop_returns:
  assumes inv: "qp_inv p" and a: "qp_at p = Ready"
    and un: "\<And>j w. j < length (workers p) \<Longrightarrow> worker p j = Some w \<Longrightarrow> \<not> isPausedFlag w"
  shows "\<exists>q. qp_reach (QueueProcessor_stop p) q \<and> qp_inv q \<and> qp_at q = Ready \<and> \<not> qp_isRunningFlag q \<and>
    qp_isTerminatedFlag q = qp_isTerminatedFlag p \<and> nestedPauseCounter q = nestedPauseCounter p \<and>
    (qp_isRunningFlag p \<longrightarrow> \<not> qp_isPausedFlag q)"
proof (cases "qp_isRunningFlag p")
  case True
  then have s: "QueueProcessor_stop p = p\<lparr>quiesced := False, qp_at := Loop LSignal 0 False\<rparr>" by (simp add: QueueProcessor_stop_def)
  from stop_run [OF qp_step_inv [OF qp_step.Stop [OF a] inv]] un s show ?thesis by auto
next
  case False
  then have "QueueProcessor_stop p = p" by (simp add: QueueProcessor_stop_def)
  then show ?thesis using inv a False qp_reach.Refl by auto
qed

lemma terminate_returns:
  assumes inv: "qp_inv p" and a: "qp_at p = Ready"
    and un: "\<And>j w. j < length (workers p) \<Longrightarrow> worker p j = Some w \<Longrightarrow> \<not> isPausedFlag w"
  shows "\<exists>q. qp_reach (QueueProcessor_terminate p) q \<and> qp_inv q \<and> qp_at q = Ready \<and> qp_isTerminatedFlag q"
proof (cases "qp_at (QueueProcessor_terminate p) = Ready")
  case True
  then have "qp_isTerminatedFlag (QueueProcessor_terminate p)"
    by (auto simp: QueueProcessor_terminate_def QueueProcessor_stop_def Let_def)
  then show ?thesis using True qp_step_inv [OF qp_step.Terminate [OF a] inv] qp_reach.Refl by blast
next
  case False
  then have s: "qp_at (QueueProcessor_terminate p) = Loop LSignal 0 False" "qp_isTerminatedFlag (QueueProcessor_terminate p)"
    "workers (QueueProcessor_terminate p) = workers p"
    using a by (auto simp: QueueProcessor_terminate_def QueueProcessor_stop_def Let_def split: if_splits)
  from stop_run [OF qp_step_inv [OF qp_step.Terminate [OF a] inv] s(1)] un s show ?thesis by auto
qed

end
