(* ===== verification/Processor_Claims.thy ===== *)
theory Processor_Claims
  imports Processor_Properties
begin

text \<open>
  The properties of the processor, stated for processors as the constructor makes them, with the two runs in
  which the flags of the processor and the state of its workers part.
\<close>

section \<open>Lemmas\<close>

text \<open>A paused worker that \<^verbatim>\<open>stop\<close> signals: the loop does not get past it.\<close>

definition paused_worker :: "Worker \<Rightarrow> bool" where
  "paused_worker w \<longleftrightarrow> isPausedFlag w \<and> \<not> isTerminatedFlag w \<and> isStartedFlag w \<and> away (run_at w)"

definition blocked_at :: "nat \<Rightarrow> 'c QueueProcessor \<Rightarrow> bool" where
  "blocked_at i p \<longleftrightarrow> (\<exists>j b w. qp_at p = Loop LSignal j b \<and> j \<le> i \<and> i < length (workers p) \<and> worker p i = Some w \<and>
     paused_worker w \<and> (if j = i \<and> b then ctl_at w = Signalling True \<or> ctl_at w = SignalSleep else ctl_at w = NoCall))"

lemma paused_worker_step:
  "w_step l w w' \<Longrightarrow> ctl_at w = NoCall \<and> l \<or> ctl_at w = Signalling True \<or> ctl_at w = SignalSleep \<Longrightarrow> paused_worker w \<Longrightarrow>
   paused_worker w' \<and> (ctl_at w' = ctl_at w \<or> ctl_at w' = SignalSleep)"
  by (induction rule: w_step.induct) (auto simp: paused_worker_def away_def worker_ops)

lemma paused_worker_run:
  assumes "run_step w w'" and "ctl_at w = NoCall \<or> ctl_at w = Signalling True \<or> ctl_at w = SignalSleep" and "paused_worker w"
  shows "paused_worker w' \<and> (ctl_at w' = ctl_at w \<or> ctl_at w \<noteq> NoCall \<and> ctl_at w' = SignalSleep)"
  using assms
proof (induction rule: run_step.induct)
  case (Thread w w')
  have "ctl_at w = NoCall \<Longrightarrow> ctl_at w' = NoCall" using run_NoCall [OF run_step.Thread [OF Thread(1)]] by simp
  then show ?case using paused_worker_step [OF Thread(1)] Thread(2,3) by auto
next
  case (Continue w w')
  then show ?case using paused_worker_step [OF Continue(2)] by auto
qed (auto simp: paused_worker_def away_def)

lemma blocked_atE:
  assumes "blocked_at i p"
  obtains j b v where "qp_at p = Loop LSignal j b" "j \<le> i" "i < length (workers p)" "worker p i = Some v"
    "paused_worker v" "if j = i \<and> b then ctl_at v = Signalling True \<or> ctl_at v = SignalSleep else ctl_at v = NoCall"
  using assms unfolding blocked_at_def by blast

lemma blocked_step: "qp_step p p' \<Longrightarrow> blocked_at i p \<Longrightarrow> blocked_at i p'"
proof (induction rule: qp_step.induct)
  case (Run k p w w')
  from Run(4) obtain j b v where v: "qp_at p = Loop LSignal j b" "j \<le> i" "i < length (workers p)" "worker p i = Some v"
    "paused_worker v" "if j = i \<and> b then ctl_at v = Signalling True \<or> ctl_at v = SignalSleep else ctl_at v = NoCall"
    by (rule blocked_atE)
  show ?case
  proof (cases "k = i")
    case True
    then have "w = v" using Run(2) v(4) by simp
    with paused_worker_run [OF Run(3)] v(5,6) have "paused_worker w'"
      "if j = i \<and> b then ctl_at w' = Signalling True \<or> ctl_at w' = SignalSleep else ctl_at w' = NoCall"
      by (auto split: if_splits)
    then show ?thesis using v True unfolding blocked_at_def by auto
  next
    case False
    then show ?thesis using v unfolding blocked_at_def by auto
  qed
next
  case (Call p l k w)
  from Call(6) obtain j b v where v: "qp_at p = Loop LSignal j b" "j \<le> i" "i < length (workers p)" "worker p i = Some v"
    "paused_worker v" "if j = i \<and> b then ctl_at v = Signalling True \<or> ctl_at v = SignalSleep else ctl_at v = NoCall"
    by (rule blocked_atE)
  then have l: "l = LSignal" "k \<le> i" "ctl_at v = NoCall" "k = i \<Longrightarrow> w = v" using Call(1,5) by auto
  have "paused_worker (ctl_goto (Signalling True) v)" using v(5) by (simp add: paused_worker_def)
  then show ?case using v(3-5) l
    unfolding blocked_at_def by (intro exI [of _ k] exI [of _ True] exI [of _ "if k = i then ctl_goto (Signalling True) v else v"]) auto
next
  case (Return p l k w)
  from Return(4) obtain j b v where v: "qp_at p = Loop LSignal j b" "j \<le> i" "i < length (workers p)" "worker p i = Some v"
    "paused_worker v" "if j = i \<and> b then ctl_at v = Signalling True \<or> ctl_at v = SignalSleep else ctl_at v = NoCall"
    by (rule blocked_atE)
  then have "k \<noteq> i" "l = LSignal" "k \<le> i" "ctl_at v = NoCall" using Return(1-3) by (auto split: if_splits)
  then show ?case using v(3-5)
    unfolding blocked_at_def by (intro exI [of _ "Suc k"] exI [of _ False] exI [of _ v]) auto
qed (auto simp: blocked_at_def loopEnd_def)

lemma blocked_reach: "qp_reach p p' \<Longrightarrow> blocked_at i p \<Longrightarrow> blocked_at i p'"
  by (induction rule: qp_reach.induct) (auto intro: blocked_step)

lemma ready_workers:
  assumes "QueueProcessor_new n cs sz = Inr p0" and "qp_reach p0 p"
  shows "qp_inv p"
  by (rule qp_reach_inv [OF assms(2) new_inv [OF assms(1)]])

lemma step_numWorkers: "qp_step p q \<Longrightarrow> numWorkers q = numWorkers p"
proof (induction rule: qp_step.induct)
  case (Done p l i)
  then show ?case by (cases l) (simp_all add: qp_ops)
qed (simp_all add: qp_ops)

lemma reach_numWorkers: "qp_reach p q \<Longrightarrow> numWorkers q = numWorkers p"
  by (induction rule: qp_reach.induct) (simp_all add: step_numWorkers)

lemma resting_away:
  assumes "w_inv w" and "resting w" and "\<not> isTerminatedFlag w"
  shows "isPausedFlag w" "away (run_at w)" "run_at w \<noteq> Working"
proof -
  have "quiet w" "pausing_part w" using assms by (simp_all add: resting_def w_inv_def)
  then show "isPausedFlag w" and a: "away (run_at w)" using assms(3) unfolding pausing_part_def by blast+
  show "run_at w \<noteq> Working" using a by (auto simp: away_def)
qed

text \<open>A processor with one worker, started, and paused with a blocking call that has returned.\<close>

definition demo_processor :: "unit QueueProcessor" where
  "demo_processor = (case QueueProcessor_new 1 [()] 16 of Inr p \<Rightarrow> p)"

lemma demo_new: "QueueProcessor_new 1 [()] 16 = Inr demo_processor"
  by (simp add: demo_processor_def QueueProcessor_new_def)

lemma demo_ready:
  "qp_at demo_processor = Ready" "length (workers demo_processor) = 1" "\<not> qp_isTerminatedFlag demo_processor"
  "\<not> qp_isRunningFlag demo_processor" "\<not> qp_isPausedFlag demo_processor"
  using new_workers(1) [OF demo_new] by (simp_all add: demo_processor_def QueueProcessor_new_def)

lemma demo_started:
  "\<exists>p. qp_reach demo_processor p \<and> qp_at p = Ready \<and> qp_isRunningFlag p \<and> \<not> qp_isPausedFlag p \<and>
    \<not> qp_isTerminatedFlag p \<and> length (workers p) = 1 \<and> worker p 0 = Some (Worker_start Worker_new)"
proof -
  obtain p where p: "qp_reach (QueueProcessor_start demo_processor) p" "qp_at p = Ready" "qp_isRunningFlag p"
    "\<not> qp_isPausedFlag p" "\<not> qp_isTerminatedFlag p" "length (workers p) = 1" "worker p 0 = Some (Worker_start Worker_new)"
    using start_returns [OF new_inv [OF demo_new] demo_ready(1)] demo_ready by auto
  have "qp_reach demo_processor p"
    using qp_reach_trans [OF p(1)] qp_reach.Step [OF qp_reach.Refl qp_step.Start [OF demo_ready(1)]] by blast
  then show ?thesis using p by blast
qed

lemma demo_quiesced: "\<exists>p. qp_reach demo_processor p \<and> qp_at p = Ready \<and> qp_isRunningFlag p \<and> quiesced p"
proof -
  obtain p where p: "qp_reach demo_processor p" "qp_at p = Ready" "qp_isRunningFlag p" "\<not> qp_isPausedFlag p"
    "\<not> qp_isTerminatedFlag p" using demo_started by blast
  obtain q where q: "qp_reach (QueueProcessor_pause True p) q" "qp_at q = Ready" "qp_isRunningFlag q" "quiesced q"
    using pause_returns [OF ready_workers [OF demo_new p(1)] p(2), of True] p by auto
  have "qp_reach p q" using qp_reach_trans [OF q(1)] qp_reach.Step [OF qp_reach.Refl qp_step.Pause [OF p(2)]] by blast
  then show ?thesis using q p(1) qp_reach_trans by blast
qed

text \<open>The calls of \<^verbatim>\<open>pause(true)\<close> on that worker, step by step.\<close>

definition demo_pausing :: Worker where
  "demo_pausing = (Worker_start Worker_new)\<lparr>isPausedFlag := True\<rparr>"

lemma demo_pausing_run: "run_reach (worker_call (LPause True) (Worker_start Worker_new)) demo_pausing"
proof -
  let ?b = "ctl_goto (Pausing False) (Worker_start Worker_new)"
  let ?c = "Worker_pause_enter False ?b"
  let ?d = "Worker_signal False (PauseIdle False) ?c"
  let ?e = "Worker_pause_idle False ?d"
  note d = Worker_new_def worker_ops
  have "run_step ?b ?c" by (rule run_step.Continue [OF _ w_step.Pause]) simp_all
  moreover have "run_step ?c ?d" by (rule run_step.Continue [OF _ w_step.PauseSignal]) (simp_all add: d)
  moreover have "run_step ?d ?e" by (rule run_step.Continue [OF _ w_step.PauseIdle]) (simp_all add: d)
  ultimately have "run_reach ?b ?e" by (meson run_reach.Refl run_reach.Step)
  then show ?thesis by (simp add: d demo_pausing_def)
qed

lemma demo_paused_run: "run_reach (worker_call LIdle demo_pausing) demo_paused"
proof -
  let ?b = "ctl_goto (Pausing True) demo_pausing"
  let ?c = "Worker_pause_enter True ?b"
  let ?d = "Worker_pause_idle True ?c"
  let ?e = "run_goto Top ?d"
  let ?f = "run_goto PauseSection ?e"
  let ?g = "run_pause ?f"
  let ?h = "?g\<lparr>ctl_at := NoCall, quiet := True\<rparr>"
  note d = Worker_new_def demo_pausing_def worker_ops
  have "run_step ?b ?c" by (rule run_step.Continue [OF _ w_step.Pause]) simp_all
  moreover have "run_step ?c ?d" by (rule run_step.Continue [OF _ w_step.PauseIdle]) (simp_all add: d)
  moreover have "run_step ?d ?e" by (rule run_step.Thread [OF w_step.Init]) (simp add: d)
  moreover have "run_step ?e ?f" using run_step.Thread [OF w_step.Top [of ?e]] by (simp add: d)
  moreover have "run_step ?f ?g" by (rule run_step.Thread [OF w_step.PauseSection]) (simp_all add: d)
  moreover have "run_step ?g ?h" by (rule run_step.Continue [OF _ w_step.IdleWoken]) (simp_all add: d)
  ultimately have "run_reach ?b ?h" by (meson run_reach.Refl run_reach.Step)
  moreover have "?h = demo_paused" by (simp add: d demo_paused_def)
  ultimately show ?thesis by (simp add: demo_pausing_def Worker_new_def Worker_start_def)
qed

lemma demo_stopped_paused:
  "\<exists>p. qp_reach demo_processor p \<and> qp_at p = Ready \<and> quiesced p \<and> length (workers p) = 1 \<and> worker p 0 = Some demo_paused"
proof -
  obtain p where p: "qp_reach demo_processor p" "qp_at p = Ready" "qp_isRunningFlag p" "\<not> qp_isPausedFlag p"
    "\<not> qp_isTerminatedFlag p" "length (workers p) = 1" "worker p 0 = Some (Worker_start Worker_new)" using demo_started by blast
  let ?p1 = "QueueProcessor_pause True p"
  have a1: "qp_at ?p1 = Loop (LPause True) 0 False" "length (workers ?p1) = 1" "worker ?p1 0 = Some (Worker_start Worker_new)"
    using p by (simp_all add: QueueProcessor_pause_def)
  have r1: "qp_reach demo_processor ?p1" by (rule qp_reach.Step [OF p(1) qp_step.Pause [OF p(2)]])
  have "\<exists>q. visited (LPause True) (\<lambda>w. w = demo_pausing) 0 ?p1 q"
    by (rule call_visit [OF ready_workers [OF demo_new r1] a1(1) _ _ _ a1(3) demo_pausing_run])
      (use a1 in \<open>simp_all add: demo_pausing_def Worker_start_def Worker_new_def\<close>)
  then obtain p2 where p2: "qp_reach ?p1 p2" "qp_at p2 = Loop (LPause True) 1 False" "length (workers p2) = 1"
    "\<And>w. worker p2 0 = Some w \<Longrightarrow> w = demo_pausing" "qp_isRunningFlag p2"
    using a1(2) p(3-5) by (auto simp: visited_def same_flags_def QueueProcessor_pause_def)
  have r2: "qp_reach demo_processor p2" by (rule qp_reach_trans [OF p2(1) r1])
  have inv2: "qp_inv p2" by (rule ready_workers [OF demo_new r2])
  let ?p3 = "p2\<lparr>qp_at := Loop LIdle 0 False\<rparr>"
  have s2: "qp_step p2 ?p3" using loop_finish [OF inv2, of "LPause True"] p2(2,3) by simp
  have r3: "qp_reach demo_processor ?p3" by (rule qp_reach.Step [OF r2 s2])
  have w3: "worker ?p3 0 = Some demo_pausing"
    using inv2 p2(2-4) by (auto simp: qp_inv_def exists_part_def)
  have "\<exists>q. visited LIdle (\<lambda>w. w = demo_paused) 0 ?p3 q"
    by (rule call_visit [OF ready_workers [OF demo_new r3] _ _ _ _ w3 demo_paused_run])
      (use p2 in \<open>simp_all add: demo_paused_def Worker_new_def\<close>)
  then obtain p4 where p4: "qp_reach ?p3 p4" "qp_at p4 = Loop LIdle 1 False" "length (workers p4) = 1"
    "\<And>w. worker p4 0 = Some w \<Longrightarrow> w = demo_paused"
    using p2(3) by (auto simp: visited_def same_flags_def)
  have r4: "qp_reach demo_processor p4" by (rule qp_reach_trans [OF p4(1) r3])
  have inv4: "qp_inv p4" by (rule ready_workers [OF demo_new r4])
  have "worker p4 0 = Some demo_paused" using inv4 p4(2-4) by (auto simp: qp_inv_def exists_part_def)
  moreover have "qp_step p4 (loop_done LIdle p4)" using loop_finish [OF inv4, of LIdle] p4(2,3) by simp
  ultimately show ?thesis
    using qp_reach.Step [OF r4] p4(3) by (intro exI [of _ "loop_done LIdle p4"]) (auto simp: pause_end_def)
qed

section \<open>Properties\<close>

text \<open>
  The constructor refuses workers without consumers; otherwise worker \<open>i\<close> gets consumer \<open>i\<close>, and the last
  consumer serves all workers beyond their number.
\<close>

theorem processor_new:
  "if 0 < n \<and> cs = [] then QueueProcessor_new n cs sz = Inl (LogicError ''no consumers provided'')
   else \<exists>p. QueueProcessor_new n cs sz = Inr p \<and> qp_inv p \<and>
     map consumer (workers p) = map (\<lambda>i. cs ! min (length cs - 1) i) [0..<unat n]"
proof (cases "0 < n \<and> cs = []")
  case True
  then show ?thesis by (simp add: QueueProcessor_new_def)
next
  case False
  then obtain p where p: "QueueProcessor_new n cs sz = Inr p" by (auto simp: QueueProcessor_new_def Suc_le_eq)
  have "map consumer (workers p) = map (\<lambda>i. cs ! min (length cs - 1) i) [0..<unat n]"
    using new_workers [OF p] by (intro nth_equalityI) (simp_all add: WorkerCache_new_def)
  then show ?thesis using p new_inv [OF p] False by auto
qed



text \<open>
  The loops of the processor never call through a null worker and never past the end of the vector of workers:
  where a loop is about to make a call, the worker is there, and no other call on it is under way.
\<close>

theorem processor_no_null:
  assumes "QueueProcessor_new n cs sz = Inr p0" and "qp_reach p0 p"
    and "qp_at p = Loop l i False" and "i < loopEnd l p" and "l \<noteq> LNew" and "l \<noteq> LBroadcast"
  shows "i < length (workers p) \<and> (\<exists>w. worker p i = Some w \<and> ctl_at w = NoCall \<and> w_inv w)"
proof -
  have inv: "qp_inv p" by (rule ready_workers [OF assms(1,2)])
  have i: "i < length (workers p)" using loopEnd_inv [OF inv assms(3)] assms(4) by simp
  have "worker p i \<noteq> None"
    using inv i assms(3,5,6) by (cases l) (auto simp: qp_inv_def exists_part_def)
  then obtain w where w: "worker p i = Some w" by auto
  from inv_NoCall [OF inv i w] assms(3) i w show ?thesis by (auto simp: safe_worker_def)
qed

theorem processor_no_null_witness:
  "\<exists>p w. qp_reach demo_processor p \<and> qp_at p = Loop (LPause True) 0 False \<and> worker p 0 = Some w \<and> ctl_at w = NoCall"
proof -
  obtain p where p: "qp_reach demo_processor p" "qp_at p = Ready" "qp_isRunningFlag p" "\<not> qp_isPausedFlag p"
    "\<not> qp_isTerminatedFlag p" "length (workers p) = 1" using demo_started by blast
  let ?p = "QueueProcessor_pause True p"
  have r: "qp_reach demo_processor ?p" by (rule qp_reach.Step [OF p(1) qp_step.Pause [OF p(2)]])
  have a: "qp_at ?p = Loop (LPause True) 0 False" "0 < loopEnd (LPause True) ?p"
    using p by (simp_all add: QueueProcessor_pause_def loopEnd_def)
  from processor_no_null [OF demo_new r a] show ?thesis using r a(1) by auto
qed

text \<open>
  C21. Every operation of the processor can return from every reachable state: the loops end, and no call on a
  worker waits for something that cannot happen. \<^verbatim>\<open>start\<close>, \<^verbatim>\<open>pause\<close>, \<^verbatim>\<open>resume\<close> and \<^verbatim>\<open>broadcast\<close> always can; \<^verbatim>\<open>stop\<close> and
  \<^verbatim>\<open>terminate\<close> if no worker is paused.
\<close>

theorem processor_calls_return:
  assumes "QueueProcessor_new n cs sz = Inr p0" and "qp_reach p0 p" and "qp_at p = Ready"
    and "op \<in> {QueueProcessor_start, QueueProcessor_pause True, QueueProcessor_pause False, QueueProcessor_resume,
      QueueProcessor_broadcast, QueueProcessor_stop, QueueProcessor_terminate}"
    and "op = QueueProcessor_stop \<or> op = QueueProcessor_terminate \<Longrightarrow>
      (\<forall>i < length (workers p). \<forall>w. worker p i = Some w \<longrightarrow> \<not> isPausedFlag w)"
  shows "\<exists>q. qp_reach (op p) q \<and> qp_at q = Ready"
proof -
  have inv: "qp_inv p" by (rule ready_workers [OF assms(1,2)])
  from assms(4) consider "op = QueueProcessor_start" | b where "op = QueueProcessor_pause b" | "op = QueueProcessor_resume"
    | "op = QueueProcessor_broadcast" | "op = QueueProcessor_stop" | "op = QueueProcessor_terminate" by blast
  then show ?thesis
  proof cases
    case 1
    then show ?thesis using start_returns [OF inv assms(3)] by blast
  next
    case (2 b)
    then show ?thesis using pause_returns [OF inv assms(3)] by blast
  next
    case 3
    then show ?thesis using resume_returns [OF inv assms(3)] by blast
  next
    case 4
    then show ?thesis using broadcast_returns [OF inv assms(3)] by blast
  next
    case 5
    then show ?thesis using stop_returns [OF inv assms(3)] assms(5) by blast
  next
    case 6
    then show ?thesis using terminate_returns [OF inv assms(3)] assms(5) by blast
  qed
qed

theorem processor_calls_return_witness:
  "\<exists>p q. qp_isRunningFlag p \<and> length (workers (p :: unit QueueProcessor)) = 1 \<and> qp_reach (QueueProcessor_stop p) q \<and> qp_at q = Ready"
proof -
  obtain p where p: "qp_reach demo_processor p" "qp_at p = Ready" "qp_isRunningFlag p" "length (workers p) = 1"
    "worker p 0 = Some (Worker_start Worker_new)" using demo_started by blast
  have "\<forall>i < length (workers p). \<forall>w. worker p i = Some w \<longrightarrow> \<not> isPausedFlag w"
    using p(4,5) by (simp add: Worker_start_def Worker_new_def)
  from processor_calls_return [OF demo_new p(1,2) _ this, of QueueProcessor_stop] show ?thesis using p(3,4) by blast
qed

text \<open>
  C22. \<^verbatim>\<open>stop\<close>, and with it \<^verbatim>\<open>terminate\<close> and the destructor, never returns once it is called on a processor that a
  blocking pause has paused, if a worker is still alive: it waits for the worker while it holds the lock that
  \<^verbatim>\<open>resume\<close> needs.
\<close>

theorem stop_paused_blocks:
  assumes "QueueProcessor_new n cs sz = Inr p0" and "qp_reach p0 p" and "qp_at p = Ready" and "quiesced p"
    and "i < length (workers p)" and "worker p i = Some w" and "isStartedFlag w" and "\<not> isTerminatedFlag w"
    and "qp_reach (QueueProcessor_stop p) q"
  shows "qp_at q \<noteq> Ready"
proof -
  have inv: "qp_inv p" by (rule ready_workers [OF assms(1,2)])
  have w: "resting w" "w_inv w" "ctl_at w = NoCall" "qp_isRunningFlag p"
    using inv assms(3-6) by (auto simp: qp_inv_def quiet_part_def safe_part_def safe_worker_def)
  have "paused_worker w" using resting_away [OF w(2,1) assms(8)] assms(7,8) by (simp add: paused_worker_def)
  then have "blocked_at i (QueueProcessor_stop p)"
    using w(3,4) assms(5,6) unfolding blocked_at_def
    by (intro exI [of _ 0] exI [of _ False] exI [of _ w]) (simp add: QueueProcessor_stop_def)
  from blocked_reach [OF assms(9) this] show ?thesis by (auto simp: blocked_at_def)
qed

theorem stop_paused_blocks_witness:
  "\<exists>p. qp_reach demo_processor p \<and> qp_at p = Ready \<and> qp_at (QueueProcessor_stop p) \<noteq> Ready \<and>
    (\<forall>q. qp_reach (QueueProcessor_stop p) q \<longrightarrow> qp_at q \<noteq> Ready)"
proof -
  obtain p where p: "qp_reach demo_processor p" "qp_at p = Ready" "quiesced p" "length (workers p) = 1" "worker p 0 = Some demo_paused"
    using demo_stopped_paused by blast
  have "0 < length (workers p)" "isStartedFlag demo_paused" "\<not> isTerminatedFlag demo_paused"
    using p(4) by (simp_all add: demo_paused_def Worker_new_def)
  from stop_paused_blocks [OF demo_new p(1,2,3) this(1) p(5) this(2,3)]
  have "\<forall>q. qp_reach (QueueProcessor_stop p) q \<longrightarrow> qp_at q \<noteq> Ready" by blast
  then show ?thesis using p(1,2) qp_reach.Refl by blast
qed

section \<open>Where flags and workers part\<close>

text \<open>
  A pause before the start is not a pause: \<^verbatim>\<open>pause(true)\<close> on a processor that is not running sets the flag and
  counts, \<^verbatim>\<open>start\<close> then starts the workers without pausing them, so the processor reports that it is paused while
  a worker is inside \<^verbatim>\<open>doWork\<close>.
\<close>

theorem pause_before_start:
  assumes "QueueProcessor_new n cs sz = Inr p0" and "0 < n"
  shows "\<exists>q w. qp_reach (QueueProcessor_start (QueueProcessor_pause True p0)) q \<and> qp_at q = Ready \<and>
    qp_isPausedFlag q \<and> nestedPauseCounter q = 1 \<and> worker q 0 = Some w \<and> run_at w = Working"
proof -
  let ?p1 = "QueueProcessor_pause True p0"
  have new: "qp_at p0 = Ready" "\<not> qp_isTerminatedFlag p0" "\<not> qp_isRunningFlag p0" "\<not> qp_isPausedFlag p0" "nestedPauseCounter p0 = 0"
    using assms(1) by (auto simp: QueueProcessor_new_def split: if_splits)
  have p1: "qp_at ?p1 = Ready" "qp_isPausedFlag ?p1" "\<not> qp_isTerminatedFlag ?p1" "\<not> qp_isRunningFlag ?p1"
    "nestedPauseCounter ?p1 = 1" "workers ?p1 = workers p0"
    using new by (simp_all add: QueueProcessor_pause_def pause_end_def)
  have inv: "qp_inv ?p1" by (rule qp_step_inv [OF qp_step.Pause [OF new(1)] new_inv [OF assms(1)]])
  have "0 < length (workers p0)" using new_workers(1) [OF assms(1)] assms(2) by (simp add: unat_gt_0 word_neq_0_conv)
  then obtain q where q: "qp_reach (QueueProcessor_start ?p1) q" "qp_at q = Ready" "qp_isPausedFlag q" "nestedPauseCounter q = 1"
    "0 < length (workers q)" "worker q 0 = Some (Worker_start Worker_new)"
    using start_returns [OF inv p1(1)] p1 by metis
  let ?a = "Worker_start Worker_new" and ?b = "run_goto Top (Worker_start Worker_new)" and ?c = "run_goto Working (Worker_start Worker_new)"
  have "run_step ?a ?b" by (rule run_step.Thread [OF w_step.Init]) (simp add: Worker_start_def Worker_new_def)
  moreover have "run_step ?b ?c"
    using run_step.Thread [OF w_step.Top [of ?b]] by (simp add: Worker_start_def Worker_new_def)
  ultimately have "run_reach ?a ?c" by (meson run_reach.Refl run_reach.Step)
  from run_many [OF this q(5,6)] have "qp_reach (QueueProcessor_start ?p1) (setWorker 0 (Some ?c) q)"
    by (rule qp_reach_trans [OF _ q(1)])
  then show ?thesis using q(2-5) by (intro exI [of _ "setWorker 0 (Some ?c) q"] exI [of _ ?c]) simp
qed

theorem pause_before_start_witness:
  "\<exists>q w. qp_reach (QueueProcessor_start (QueueProcessor_pause True demo_processor)) q \<and> qp_isPausedFlag q \<and>
    worker q 0 = Some w \<and> run_at w = Working"
proof -
  have "0 < (1 :: c_uint)" by simp
  from pause_before_start [OF demo_new this] show ?thesis by blast
qed

text \<open>
  \<^verbatim>\<open>stop\<close> clears the pause flag but not the count of nested pauses: a processor that was paused before it was
  started, stopped and started again is running and not paused with a count of one, and from there a \<^verbatim>\<open>pause\<close> and
  its \<^verbatim>\<open>resume\<close> leave it paused, without touching a worker in the \<^verbatim>\<open>resume\<close>.
\<close>

theorem stop_keeps_nesting:
  assumes "QueueProcessor_new n cs sz = Inr p0"
  shows "\<exists>p q. qp_reach p0 p \<and> qp_at p = Ready \<and> qp_isRunningFlag p \<and> \<not> qp_isPausedFlag p \<and> nestedPauseCounter p = 1 \<and>
    qp_reach (QueueProcessor_pause True p) q \<and> qp_at q = Ready \<and> quiesced q \<and>
    QueueProcessor_resume q = q\<lparr>nestedPauseCounter := 1\<rparr> \<and> qp_isPausedFlag (QueueProcessor_resume q)"
proof -
  let ?p1 = "QueueProcessor_pause True p0"
  have new: "qp_at p0 = Ready" "\<not> qp_isTerminatedFlag p0" "\<not> qp_isRunningFlag p0" "\<not> qp_isPausedFlag p0" "nestedPauseCounter p0 = 0"
    using assms(1) by (auto simp: QueueProcessor_new_def split: if_splits)
  have p1: "qp_at ?p1 = Ready" "qp_isPausedFlag ?p1" "\<not> qp_isTerminatedFlag ?p1" "\<not> qp_isRunningFlag ?p1" "nestedPauseCounter ?p1 = 1"
    using new by (simp_all add: QueueProcessor_pause_def pause_end_def)
  have s0: "qp_step p0 ?p1" by (rule qp_step.Pause [OF new(1)])
  have i1: "qp_inv ?p1" by (rule qp_step_inv [OF s0 new_inv [OF assms]])
  obtain p2 where p2: "qp_reach (QueueProcessor_start ?p1) p2" "qp_inv p2" "qp_at p2 = Ready" "\<not> qp_isTerminatedFlag p2"
    "nestedPauseCounter p2 = 1" "qp_isRunningFlag p2" "\<And>j. j < length (workers p2) \<Longrightarrow> worker p2 j = Some (Worker_start Worker_new)"
    using start_returns [OF i1 p1(1)] p1 by auto
  have un: "\<And>j w. j < length (workers p2) \<Longrightarrow> worker p2 j = Some w \<Longrightarrow> \<not> isPausedFlag w"
    using p2(7) by (auto simp: Worker_start_def Worker_new_def)
  obtain p3 where p3: "qp_reach (QueueProcessor_stop p2) p3" "qp_inv p3" "qp_at p3 = Ready" "\<not> qp_isTerminatedFlag p3"
    "nestedPauseCounter p3 = 1" "\<not> qp_isRunningFlag p3" "\<not> qp_isPausedFlag p3"
    using stop_returns [OF p2(2,3)] un p2(4-6) by metis
  obtain p4 where p4: "qp_reach (QueueProcessor_start p3) p4" "qp_inv p4" "qp_at p4 = Ready" "\<not> qp_isTerminatedFlag p4"
    "nestedPauseCounter p4 = 1" "qp_isRunningFlag p4" "\<not> qp_isPausedFlag p4"
    using start_returns [OF p3(2,3)] p3(4-7) by auto
  obtain q where q: "qp_reach (QueueProcessor_pause True p4) q" "qp_at q = Ready" "quiesced q" "nestedPauseCounter q = 2"
    "qp_isPausedFlag q" "\<not> qp_isTerminatedFlag q"
    using pause_returns [OF p4(2,3), of True] p4(4-7) by auto
  have "qp_reach p0 p4"
    by (meson s0 qp_step.Start [OF p1(1)] p2(1) qp_step.Stop [OF p2(3)] p3(1) qp_step.Start [OF p3(3)] p4(1)
        qp_reach.Refl qp_reach.Step qp_reach_trans)
  moreover have "QueueProcessor_resume q = q\<lparr>nestedPauseCounter := 1\<rparr>" "qp_isPausedFlag (QueueProcessor_resume q)"
    using q(4-6) by (simp_all add: QueueProcessor_resume_def)
  ultimately show ?thesis using p4(3,5-7) q(1-3) by blast
qed

theorem stop_keeps_nesting_witness:
  "\<exists>p q. qp_reach demo_processor p \<and> nestedPauseCounter p = 1 \<and> \<not> qp_isPausedFlag p \<and>
    qp_reach (QueueProcessor_pause True p) q \<and> qp_isPausedFlag (QueueProcessor_resume q)"
  using stop_keeps_nesting [OF demo_new] by blast

end
