(* ===== verification/Delivery.thy ===== *)
theory Delivery
  imports Processor_Claims Sync_Properties
begin

text \<open>
  The queue, the processor and the worker threads together. A worker runs the loop of \<^verbatim>\<open>Worker::run\<close> with the functions of
  \<^verbatim>\<open>QueueConsumerWorker\<close> (\<^verbatim>\<open>init\<close>, \<^verbatim>\<open>doWork\<close>, \<^verbatim>\<open>isWork\<close>) on the shared queue; a producer that has published an entry owes a
  \<^verbatim>\<open>broadcast\<close> (\<^verbatim>\<open>QueueProducerInterface::add\<close>); the queue grows while a blocking pause of the processor is in force. The
  operations of the processor are those of \<open>qp_step\<close>, the effects on the queue those of \<open>sq_step\<close>.

  The runs are those of a processor that is not stopped and whose consumers do not throw, so that no worker leaves the
  reader list.
\<close>

section \<open>The composed machine\<close>

text \<open>
  \<open>got x\<close> is what the \<^verbatim>\<open>remove\<close> of worker \<open>x\<close> returned: nothing yet, an entry or the null entry; \<open>owed\<close> counts the
  producers that have published and not yet begun to broadcast.
\<close>

record ('e, 'm, 'c) dlc =
  queue :: "('e, 'm) sqc"
  proc :: "'c QueueProcessor"
  got :: "rid \<Rightarrow> bool option"
  owed :: nat

definition dl_init ::
  "('e, 'm) entry_ops \<Rightarrow> ('e, 'm) DataArray \<Rightarrow> (rid \<Rightarrow> int) \<Rightarrow> 'c QueueProcessor \<Rightarrow> ('e, 'm, 'c) dlc" where
  "dl_init ops d ids p =
     \<lparr>queue = sq_init ops (queueSize p) d True ids, proc = p, got = Map.empty, owed = 0\<rparr>"

text \<open>The worker threads and their places; \<open>goto_place\<close> moves one of them.\<close>

definition place :: "'c QueueProcessor \<Rightarrow> rid \<Rightarrow> run_pc option" where
  "place p x = (if x < length (workers p) then map_option run_at (worker p x) else None)"

definition goto_place :: "rid \<Rightarrow> run_pc \<Rightarrow> 'c QueueProcessor \<Rightarrow> 'c QueueProcessor" where
  "goto_place x q p = setWorker x (map_option (run_goto q) (worker p x)) p"

text \<open>
  The places where a worker is inside a call of \<^verbatim>\<open>QueueConsumerWorker\<close>: the operations of the processor do not move it
  there. \<open>serving\<close> says that nobody stops the processor.
\<close>

definition parked :: "'c QueueProcessor \<Rightarrow> 'c QueueProcessor \<Rightarrow> bool" where
  "parked p p' \<longleftrightarrow> (\<forall>x q. place p x = Some q \<longrightarrow> q \<in> {Init, Working, WorkSection} \<longrightarrow> place p' x = Some q)"

definition serving :: "'c QueueProcessor \<Rightarrow> bool" where
  "serving p \<longleftrightarrow> \<not> qp_isTerminatedFlag p \<and>
     (case qp_at p of Ready \<Rightarrow> True | Loop l i b \<Rightarrow> l \<notin> {LSignal, LStop, LJoin})"

inductive dl_step :: "('e, 'm) entry_ops \<Rightarrow> ('e, 'm, 'c) dlc \<Rightarrow> ('e, 'm, 'c) dlc \<Rightarrow> bool" for ops where
  Write: "sq_step ops (queue d) c \<Longrightarrow> wpc c \<noteq> wpc (queue d) \<Longrightarrow>
    dl_step ops d (d\<lparr>queue := c, owed := owed d + (length (accepted c) - length (accepted (queue d)))\<rparr>)"
| Broadcast: "0 < owed d \<Longrightarrow> qp_at (proc d) = Ready \<Longrightarrow>
    dl_step ops d (d\<lparr>proc := QueueProcessor_broadcast (proc d), owed := owed d - 1\<rparr>)"
| Operate: "qp_step (proc d) p \<Longrightarrow> parked (proc d) p \<Longrightarrow> serving p \<Longrightarrow> dl_step ops d (d\<lparr>proc := p\<rparr>)"
| Join: "place (proc d) x = Some Init \<Longrightarrow> startAccess x (sq (queue d)) = Inr s \<Longrightarrow>
    dl_step ops d (d\<lparr>queue := (queue d)\<lparr>sq := s\<rparr>, proc := goto_place x Top (proc d)\<rparr>)"
| Move: "place (proc d) x = Some Working \<Longrightarrow> got d x = None \<Longrightarrow> finished (queue d) x \<Longrightarrow> x \<notin> moved (queue d) \<Longrightarrow>
    moveToFront x (sq (queue d)) = Inr (b, s) \<Longrightarrow>
    dl_step ops d (d\<lparr>queue := (queue d)\<lparr>sq := s, moved := (if b then insert x (moved (queue d)) else moved (queue d))\<rparr>,
      got := (got d)(x := if b then None else Some False)\<rparr>)"
| Look: "place (proc d) x = Some Working \<Longrightarrow> got d x = None \<Longrightarrow> \<not> finished (queue d) x \<or> x \<in> moved (queue d) \<Longrightarrow>
    removeSlot x (sq (queue d)) = Inr (NullEntry, s) \<Longrightarrow>
    dl_step ops d (d\<lparr>queue := (queue d)\<lparr>sq := s, moved := moved (queue d) - {x}\<rparr>, got := (got d)(x \<mapsto> False)\<rparr>)"
| Take: "place (proc d) x = Some Working \<Longrightarrow> got d x = None \<Longrightarrow> \<not> finished (queue d) x \<or> x \<in> moved (queue d) \<Longrightarrow>
    removeSlot x (sq (queue d)) = Inr (r, s) \<Longrightarrow> r \<noteq> NullEntry \<Longrightarrow> deref ops r (dataEntries s) = Inr e \<Longrightarrow>
    dl_step ops d (d\<lparr>queue := (queue d)\<lparr>sq := s, moved := moved (queue d) - {x},
        delivered := delivered (queue d) @ [(x, e)], held := (held (queue d))(x \<mapsto> (r, e))\<rparr>, got := (got d)(x \<mapsto> True)\<rparr>)"
| Change: "place (proc d) x = Some Working \<Longrightarrow> got d x = Some True \<Longrightarrow> held (queue d) x = Some (r, e) \<Longrightarrow>
    same_type ops e e' \<Longrightarrow> writeRef r e' (dataEntries (sq (queue d))) = Inr a \<Longrightarrow>
    dl_step ops d (d\<lparr>queue := (queue d)\<lparr>sq := (sq (queue d))\<lparr>dataEntries := a\<rparr>, held := (held (queue d))(x \<mapsto> (r, e'))\<rparr>\<rparr>)"
| Handled: "place (proc d) x = Some Working \<Longrightarrow> got d x = Some True \<Longrightarrow>
    dl_step ops d (d\<lparr>queue := (queue d)\<lparr>held := (held (queue d))(x := None)\<rparr>, got := (got d)(x := None),
      proc := goto_place x LoopTest (proc d)\<rparr>)"
| Nothing: "place (proc d) x = Some Working \<Longrightarrow> got d x = Some False \<Longrightarrow>
    dl_step ops d (d\<lparr>got := (got d)(x := None), proc := goto_place x WorkSection (proc d)\<rparr>)"
| IsWork: "place (proc d) x = Some WorkSection \<Longrightarrow> SyncQueue_isEmpty x (sq (queue d)) = (e, s) \<Longrightarrow>
    dl_step ops d (d\<lparr>queue := (queue d)\<lparr>sq := s\<rparr>, proc := goto_place x (if e then TestTerminated else LoopTest) (proc d)\<rparr>)"
| Grow: "quiesced (proc d) \<Longrightarrow> wpc (queue d) = WIdle \<Longrightarrow> currentSize (sq (queue d)) < size' \<Longrightarrow> uint size' \<le> 1073741824 \<Longrightarrow>
    growth_ok (sq (queue d)) size' \<Longrightarrow> length (workers (proc d)) < fuel \<Longrightarrow>
    SyncQueue_resize fuel ops size' (sq (queue d)) = Inr s \<Longrightarrow> dl_step ops d (d\<lparr>queue := (queue d)\<lparr>sq := s\<rparr>\<rparr>)"

inductive dl_reach :: "('e, 'm) entry_ops \<Rightarrow> ('e, 'm, 'c) dlc \<Rightarrow> ('e, 'm, 'c) dlc \<Rightarrow> bool" for ops where
  Refl: "dl_reach ops d d"
| Step: "dl_reach ops d d' \<Longrightarrow> dl_step ops d' d'' \<Longrightarrow> dl_reach ops d d''"

section \<open>The processor\<close>

text \<open>Every step moves the processor by a step of \<open>qp_step\<close> or not at all.\<close>

lemma place_eq: "place p x = Some q \<longleftrightarrow> x < length (workers p) \<and> (\<exists>w. worker p x = Some w \<and> run_at w = q)"
  by (auto simp: place_def)

lemma place_goto:
  "place p x = Some q \<Longrightarrow> place (goto_place x q' p) y = (if y = x then Some q' else place p y)"
  by (auto simp: place_def goto_place_def)

lemma goto_sel [simp]:
  "qp_at (goto_place x q p) = qp_at p" "length (workers (goto_place x q p)) = length (workers p)"
  "serving (goto_place x q p) = serving p"
  by (simp_all add: goto_place_def serving_def)

lemma goto_worker:
  "y < length (workers p) \<Longrightarrow> worker (goto_place x q p) y = (if x = y then map_option (run_goto q) (worker p y) else worker p y)"
  by (simp add: goto_place_def)

lemma goto_step:
  assumes "place p x = Some q"
    and "(q, q') \<in> {(Init, Top), (Working, LoopTest), (Working, WorkSection), (WorkSection, TestTerminated), (WorkSection, LoopTest)}"
  shows "qp_step p (goto_place x q' p)"
proof -
  obtain w where w: "x < length (workers p)" "worker p x = Some w" "run_at w = q" using assms(1) by (auto simp: place_eq)
  have "w_step True w (run_goto q' w)"
    using assms(2) w(3) w_step.Init [of w] w_step.WorkMore [of w] w_step.WorkNone [of w] w_step.NoWork [of w] w_step.IsWork [of w]
    by auto
  from qp_step.Run [OF w(1,2) run_step.Thread [OF this]] show ?thesis by (simp add: goto_place_def w(2))
qed

lemma proc_step: "dl_step ops d d' \<Longrightarrow> proc d' = proc d \<or> qp_step (proc d) (proc d')"
  by (induction rule: dl_step.induct) (auto intro: goto_step qp_step.Broadcast)

text \<open>
  How one worker changes in a step of a processor that serves, or that is in the first loop of \<^verbatim>\<open>stop\<close>: up to then no
  worker has been told to end.
\<close>

definition upright :: "'c QueueProcessor \<Rightarrow> bool" where
  "upright p \<longleftrightarrow> (case qp_at p of
       Ready \<Rightarrow> \<not> qp_isTerminatedFlag p
     | Loop l i b \<Rightarrow> l \<notin> {LStop, LJoin} \<and> (l = LSignal \<or> \<not> qp_isTerminatedFlag p))"

lemma serving_upright: "serving p \<Longrightarrow> upright p"
  by (auto simp: serving_def upright_def split: qp_pc.splits)

lemma upright_goto [simp]: "upright (goto_place x q p) = upright p"
  by (simp add: goto_place_def upright_def split: qp_pc.split)

definition tracked :: "Worker \<Rightarrow> Worker \<Rightarrow> bool" where
  "tracked w w' \<longleftrightarrow> w' = w \<or> run_step w w' \<or>
     (\<exists>l. l \<notin> {LStop, LJoin} \<and> ctl_at w = NoCall \<and> w' = worker_call l w)"

lemma tracked_refl [simp]: "tracked w w"
  by (simp add: tracked_def)

lemma op_worker:
  assumes "qp_step p p'" and "qp_inv p" and "upright p" and "upright p'"
  shows "length (workers p') = length (workers p) \<and>
    (\<forall>x < length (workers p). case worker p x of
        None \<Rightarrow> (\<forall>w'. worker p' x = Some w' \<longrightarrow> w' = Worker_start Worker_new)
      | Some w \<Rightarrow> \<exists>w'. worker p' x = Some w' \<and> tracked w w')"
  using assms
proof (induction rule: qp_step.induct)
  case (Run i p w w')
  then show ?case by (auto simp: tracked_def split: option.split)
next
  case (New p i)
  have "i < length (workers p) \<Longrightarrow> worker p i = None" using New by (auto simp: qp_inv_def exists_part_def)
  then show ?case by (auto split: option.split)
next
  case (Call p l i w)
  have i: "i < length (workers p)" using loopEnd_inv [OF Call.prems(1) Call.hyps(1)] Call.hyps(2) by simp
  have "ctl_at w = NoCall" using inv_NoCall [OF Call.prems(1) i Call.hyps(5)] Call.hyps(1) by auto
  moreover have "l \<notin> {LStop, LJoin}" using Call by (auto simp: upright_def)
  ultimately have "tracked w (worker_call l w)" by (auto simp: tracked_def)
  then show ?case using Call.hyps(5) by (auto split: option.split)
next
  case (Join p i w)
  then show ?case by (simp add: upright_def)
next
  case (Done p l i)
  then show ?case by (cases l) (auto simp: upright_def qp_ops split: option.split if_splits)
qed (auto simp: qp_ops upright_def split: option.split if_splits)

lemma op_old:
  assumes "qp_step p p'" and "qp_inv p" and "upright p" and "upright p'" and "x < length (workers p)" and "worker p x = Some w"
  obtains w' where "worker p' x = Some w'" and "tracked w w'"
proof -
  have "case worker p x of
      None \<Rightarrow> (\<forall>w'. worker p' x = Some w' \<longrightarrow> w' = Worker_start Worker_new)
    | Some w \<Rightarrow> \<exists>w'. worker p' x = Some w' \<and> tracked w w'"
    using op_worker [OF assms(1-4)] assms(5) by blast
  then show thesis unfolding assms(6) using that by auto
qed

lemma op_new:
  assumes "qp_step p p'" and "qp_inv p" and "upright p" and "upright p'" and "x < length (workers p)" and "worker p x = None"
    and "worker p' x = Some w'"
  shows "w' = Worker_start Worker_new"
proof -
  have "case worker p x of
      None \<Rightarrow> (\<forall>w'. worker p' x = Some w' \<longrightarrow> w' = Worker_start Worker_new)
    | Some w \<Rightarrow> \<exists>w'. worker p' x = Some w' \<and> tracked w w'"
    using op_worker [OF assms(1-4)] assms(5) by blast
  then show ?thesis unfolding assms(6) using assms(7) by simp
qed

text \<open>
  A worker that serves has not been terminated; it is \<open>dozing\<close> from the test that found no work until it is woken.
\<close>

definition live :: "Worker \<Rightarrow> bool" where
  "live w \<longleftrightarrow> w_inv w \<and> \<not> isTerminatedFlag w \<and> \<not> isDeadFlag w \<and> run_at w \<noteq> NotStarted \<and> run_at w \<noteq> Failing"

definition dozing :: "Worker \<Rightarrow> bool" where
  "dozing w \<longleftrightarrow> run_at w \<in> {TestTerminated, TestPaused, WorkSleep}"

definition stays :: "Worker \<Rightarrow> Worker \<Rightarrow> bool" where
  "stays w w' \<longleftrightarrow> (run_at w \<in> {Init, Working, WorkSection} \<longrightarrow> run_at w' = run_at w)"

lemma live_step:
  assumes "w_step l w w'" and "l \<or> ctl_at w \<noteq> NoCall" and "live w" and "stays w w'"
  shows "\<not> isTerminatedFlag w' \<and> \<not> isDeadFlag w' \<and> run_at w' \<noteq> NotStarted \<and> run_at w' \<noteq> Failing \<and>
    (run_at w' = Init \<longrightarrow> run_at w = Init) \<and> (dozing w' \<longrightarrow> dozing w)"
  using assms
  by (induction rule: w_step.induct) (auto simp: live_def stays_def dozing_def worker_ops w_inv_def stopping_part_def split: if_splits)

lemma live_call:
  assumes "l \<notin> {LStop, LJoin}" and "ctl_at w = NoCall" and "live w"
  shows "\<not> isTerminatedFlag (worker_call l w) \<and> \<not> isDeadFlag (worker_call l w) \<and> run_at (worker_call l w) \<noteq> NotStarted \<and> run_at (worker_call l w) \<noteq> Failing \<and>
    (run_at (worker_call l w) = Init \<longrightarrow> run_at w = Init) \<and> (dozing (worker_call l w) \<longrightarrow> dozing w)"
  using assms by (cases l) (auto simp: live_def dozing_def worker_ops w_inv_def flags_part_def)

lemma tracked_inv: "tracked w w' \<Longrightarrow> w_inv w \<Longrightarrow> w_inv w'"
  unfolding tracked_def using run_step_inv call_is_step w_step_inv by (metis insertCI)

lemma tracked_live:
  assumes "tracked w w'" and "live w" and "stays w w'"
  shows "live w'" and "run_at w' = Init \<longleftrightarrow> run_at w = Init" and "dozing w' \<Longrightarrow> dozing w"
proof -
  have i: "w_inv w'" using tracked_inv [OF assms(1)] assms(2) by (simp add: live_def)
  have "\<not> isTerminatedFlag w' \<and> \<not> isDeadFlag w' \<and> run_at w' \<noteq> NotStarted \<and> run_at w' \<noteq> Failing \<and>
    (run_at w' = Init \<longrightarrow> run_at w = Init) \<and> (dozing w' \<longrightarrow> dozing w)" (is ?Q)
    using assms(1) unfolding tracked_def
  proof (elim disjE)
    assume "run_step w w'"
    then show ?Q using assms(2,3)
    proof (induction rule: run_step.induct)
      case (Thread w w')
      then show ?case using live_step by blast
    next
      case (Continue w w')
      then show ?case using live_step by blast
    qed (auto simp: live_def dozing_def)
  next
    assume "\<exists>l. l \<notin> {LStop, LJoin} \<and> ctl_at w = NoCall \<and> w' = worker_call l w"
    then show ?Q using live_call [OF _ _ assms(2)] by blast
  qed (use assms(2) in \<open>simp add: live_def\<close>)
  note q = this
  show "live w'" using i q by (simp add: live_def)
  show "dozing w' \<Longrightarrow> dozing w" using q by blast
  have "run_at w = Init \<Longrightarrow> run_at w' = Init" using assms(3) by (simp add: stays_def)
  then show "run_at w' = Init \<longleftrightarrow> run_at w = Init" using q by blast
qed

section \<open>Pending wakeups\<close>

text \<open>
  A broadcast is \<open>coming\<close> for a worker when a producer still has to begin one, or when one is under way and has not yet
  finished its call on this worker.
\<close>

definition coming :: "nat \<Rightarrow> 'c QueueProcessor \<Rightarrow> rid \<Rightarrow> Worker \<Rightarrow> bool" where
  "coming n p x w \<longleftrightarrow> 0 < n \<or> (case qp_at p of
       Ready \<Rightarrow> False
     | Loop l j b \<Rightarrow> l = LBroadcast \<and> (j < x \<or> j = x \<and> (b \<longrightarrow> ctl_at w = Signalling False)))"

text \<open>The call of a broadcast does not end while the worker dozes.\<close>

lemma signalling_step:
  assumes "run_step w w'" and "w_inv w" and "ctl_at w = Signalling False" and "dozing w" and "dozing w'"
  shows "ctl_at w' = Signalling False"
proof -
  have st: "w_step l w w' \<Longrightarrow> w_inv w \<Longrightarrow> ctl_at w = Signalling False \<Longrightarrow> dozing w \<Longrightarrow> dozing w' \<Longrightarrow>
      ctl_at w' = Signalling False" for l
    by (induction rule: w_step.induct) (simp_all add: dozing_def worker_ops w_inv_def flags_part_def split: if_splits)
  show ?thesis
    using assms(1)
  proof cases
    case Thread
    then show ?thesis by (rule st [OF _ assms(2-5)])
  next
    case Continue
    from Continue(2) show ?thesis by (rule st [OF _ assms(2-5)])
  qed (use assms(3,5) in \<open>simp_all add: dozing_def\<close>)
qed

lemma coming_same:
  "coming n p x w \<Longrightarrow> qp_at p' = qp_at p \<Longrightarrow> (ctl_at w = Signalling False \<Longrightarrow> ctl_at w' = Signalling False) \<Longrightarrow>
   coming n p' x w'"
  by (auto simp: coming_def split: qp_pc.splits)

lemma coming_step:
  assumes "qp_step p p'" and "qp_inv p" and "x < length (workers p)" and "worker p x = Some w" and "worker p' x = Some w'"
    and "w_inv w" and "dozing w" and "dozing w'" and "coming n p x w"
  shows "coming n p' x w'"
  using assms
proof (induction rule: qp_step.induct)
  case (Run i p v v')
  then have "ctl_at w = Signalling False \<Longrightarrow> ctl_at w' = Signalling False"
    using signalling_step [of w w'] by (simp split: if_splits)
  then show ?case by (rule coming_same [OF Run.prems(8) setWorker_simps(1)])
next
  case (Return p l i v)
  show ?case
  proof (cases "0 < n")
    case False
    then have c: "l = LBroadcast \<and> (i < x \<or> i = x \<and> ctl_at w = Signalling False)"
      using Return.prems(8) by (simp add: coming_def Return.hyps(1))
    have "v = w" if "i = x" using that Return.hyps(2) Return.prems(3) by simp
    then have "i < x" using c Return.hyps(3) by auto
    then show ?thesis using c by (auto simp: coming_def)
  qed (simp add: coming_def)
next
  case (Done p l i)
  then show ?case by (auto simp: coming_def loopEnd_def)
next
  case (Call p l i v)
  then show ?case by (cases "i = x") (auto simp: coming_def)
next
  case (Skip p i)
  have "i \<noteq> x" using Skip.hyps(3) Skip.prems(3) by auto
  then show ?case using Skip.prems(8) Skip.hyps(1) by (auto simp: coming_def)
qed (auto simp: coming_def)

section \<open>Invariant\<close>

text \<open>
  The readers in the list are the workers past their \<^verbatim>\<open>init\<close>; a worker uses the queue only inside \<^verbatim>\<open>doWork\<close>; the workers
  are live; and a dozing worker waits at an empty slot unless a broadcast is coming for it.
\<close>

definition roster_part :: "('e, 'm, 'c) dlc \<Rightarrow> bool" where
  "roster_part d \<longleftrightarrow> (\<forall>x. listed (queue d) x \<longleftrightarrow> (\<exists>q. place (proc d) x = Some q \<and> q \<noteq> Init))"

definition busy_part :: "('e, 'm, 'c) dlc \<Rightarrow> bool" where
  "busy_part d \<longleftrightarrow> (\<forall>x. (x \<in> moved (queue d) \<or> held (queue d) x \<noteq> None \<or> got d x \<noteq> None \<longrightarrow> place (proc d) x = Some Working) \<and>
     (got d x \<noteq> None \<longrightarrow> x \<notin> moved (queue d)) \<and> (got d x \<noteq> Some True \<longrightarrow> held (queue d) x = None))"

definition live_part :: "'c QueueProcessor \<Rightarrow> bool" where
  "live_part p \<longleftrightarrow> upright p \<and> (\<forall>x < length (workers p). \<forall>w. worker p x = Some w \<longrightarrow> live w)"

definition doze_part :: "('e, 'm, 'c) dlc \<Rightarrow> bool" where
  "doze_part d \<longleftrightarrow> (\<forall>x < length (workers (proc d)). \<forall>w. worker (proc d) x = Some w \<longrightarrow> dozing w \<longrightarrow>
     fst (SyncQueue_isEmpty x (sq (queue d))) \<or> coming (owed d) (proc d) x w)"

definition dl_core :: "('e, 'm) entry_ops \<Rightarrow> ('e, 'm, 'c) dlc \<Rightarrow> bool" where
  "dl_core ops d \<longleftrightarrow> (\<exists>xs R pos D. sq_inv ops (queue d) xs R pos D) \<and> qp_inv (proc d) \<and> live_part (proc d) \<and>
     roster_part d \<and> busy_part d"

definition dl_inv :: "('e, 'm) entry_ops \<Rightarrow> ('e, 'm, 'c) dlc \<Rightarrow> bool" where
  "dl_inv ops d \<longleftrightarrow> dl_core ops d \<and> serving (proc d) \<and> doze_part d"

lemma dl_invD:
  assumes "dl_inv ops d"
  shows "dl_core ops d" "qp_inv (proc d)" "live_part (proc d)" "roster_part d" "busy_part d" "doze_part d" "serving (proc d)"
  using assms by (simp_all add: dl_inv_def dl_core_def)

lemma dl_coreD:
  assumes "dl_core ops d"
  shows "qp_inv (proc d)" "live_part (proc d)" "roster_part d" "busy_part d"
  using assms by (simp_all add: dl_core_def)

lemma core_queue:
  assumes "dl_core ops d"
  obtains xs R pos D where "sq_inv ops (queue d) xs R pos D"
  using assms by (auto simp: dl_core_def)

lemma core_reader:
  assumes "dl_core ops d" and "place (proc d) x = Some q"
  shows "listed (queue d) x \<longleftrightarrow> q \<noteq> Init" and "got d x = None \<Longrightarrow> held (queue d) x = None"
    and "got d x \<noteq> None \<Longrightarrow> x \<notin> moved (queue d)" and "got d x \<noteq> Some True \<Longrightarrow> held (queue d) x = None"
    and "q \<noteq> Working \<Longrightarrow> x \<notin> moved (queue d) \<and> got d x = None \<and> held (queue d) x = None"
  using assms by (auto simp: dl_core_def roster_part_def busy_part_def)

lemma new_live: "live (Worker_start Worker_new)" "run_at (Worker_start Worker_new) = Init"
  using new_safe(1) by (simp_all add: live_def safe_worker_def Worker_start_def Worker_new_def)

text \<open>Steps of the processor: the workers that were there are tracked, new ones are about to join the list.\<close>

lemma op_live:
  assumes "qp_step p p'" and "qp_inv p" and "live_part p" and "upright p'" and "parked p p'"
    and x: "x < length (workers p')" "worker p' x = Some w'"
  shows "x < length (workers p)" and "live w'"
    and "worker p x = None \<and> w' = Worker_start Worker_new \<or> (\<exists>w. worker p x = Some w \<and> tracked w w' \<and> live w \<and> stays w w')"
proof -
  have s: "upright p" using assms(3) by (simp add: live_part_def)
  show l: "x < length (workers p)" using op_worker [OF assms(1,2) s assms(4)] x(1) by simp
  show t: "worker p x = None \<and> w' = Worker_start Worker_new \<or> (\<exists>w. worker p x = Some w \<and> tracked w w' \<and> live w \<and> stays w w')"
  proof (cases "worker p x")
    case None
    then show ?thesis using op_new [OF assms(1,2) s assms(4) l None x(2)] by simp
  next
    case (Some w)
    obtain v where "worker p' x = Some v" "tracked w v" by (rule op_old [OF assms(1,2) s assms(4) l Some])
    then have "tracked w w'" using x(2) by simp
    moreover have "live w" using assms(3) l Some by (simp add: live_part_def)
    moreover have "place p x = Some (run_at w)" "place p' x = Some (run_at w')" using l x Some by (simp_all add: place_def)
    then have "stays w w'" using assms(5) unfolding parked_def stays_def by fastforce
    ultimately show ?thesis using Some by blast
  qed
  then show "live w'" using new_live(1) tracked_live(1) by blast
qed

lemma op_place:
  assumes "qp_step p p'" and "qp_inv p" and "live_part p" and "upright p'" and "parked p p'"
  shows "(\<exists>q. place p' x = Some q \<and> q \<noteq> Init) \<longleftrightarrow> (\<exists>q. place p x = Some q \<and> q \<noteq> Init)"
proof
  assume "\<exists>q. place p' x = Some q \<and> q \<noteq> Init"
  then obtain w' where w: "x < length (workers p')" "worker p' x = Some w'" "run_at w' \<noteq> Init" by (auto simp: place_eq)
  have "w' \<noteq> Worker_start Worker_new" using w(3) new_live(2) by auto
  then obtain v where v: "worker p x = Some v" "tracked v w'" "live v" "stays v w'"
    using op_live(3) [OF assms w(1,2)] by blast
  then have "run_at v \<noteq> Init" using tracked_live(2) w(3) by blast
  then show "\<exists>q. place p x = Some q \<and> q \<noteq> Init" using op_live(1) [OF assms w(1,2)] v(1) by (auto simp: place_eq)
next
  assume "\<exists>q. place p x = Some q \<and> q \<noteq> Init"
  then obtain w where w: "x < length (workers p)" "worker p x = Some w" "run_at w \<noteq> Init" by (auto simp: place_eq)
  have s: "upright p" using assms(3) by (simp add: live_part_def)
  obtain w' where w': "worker p' x = Some w'" by (rule op_old [OF assms(1,2) s assms(4) w(1,2)])
  have l': "x < length (workers p')" using op_worker [OF assms(1,2) s assms(4)] w(1) by simp
  note w' = l' w'
  from op_live(3) [OF assms w'] w(2) have "tracked w w' \<and> live w \<and> stays w w'" by simp
  then have "run_at w' \<noteq> Init" using tracked_live(2) w(3) by blast
  then show "\<exists>q. place p' x = Some q \<and> q \<noteq> Init" using w' by (auto simp: place_eq)
qed

section \<open>The queue\<close>

text \<open>The slot of a reader is empty when its position is not written; so the steps of others do not fill it.\<close>

lemma empty_iff:
  assumes "sq_inv ops c xs R pos D" and "listed c x"
  shows "fst (SyncQueue_isEmpty x (sq c)) \<longleftrightarrow> length (accepted c) \<le> pos x"
proof -
  have r: "ring_part ops c R D" and l: "list_part c xs R pos" using assms(1) by (simp_all add: sq_inv_def)
  note R = ring_partD [OF r] and L = list_partD [OF l]
  have x: "x \<in> set xs" using L(3) assms(2) by simp
  from SyncQueue_isEmpty_iff [OF R(2) L(9,8) [OF x]] L(7) [OF x] R(4,6) show ?thesis by auto
qed

lemma empty_same:
  assumes "sq_inv ops c xs R pos D" and "sq_inv ops c' xs' R' pos' D'" and "listed c x" and "listed c' x"
    and "accepted c' = accepted c" and "pos' x = pos x"
  shows "fst (SyncQueue_isEmpty x (sq c')) = fst (SyncQueue_isEmpty x (sq c))"
  using empty_iff [OF assms(1,3)] empty_iff [OF assms(2,4)] assms(5,6) by simp

lemma inv_listed: "sq_inv ops c xs R pos D \<Longrightarrow> listed c x \<longleftrightarrow> x \<in> set xs"
  unfolding sq_inv_def using list_partD(3) by blast

text \<open>When every reader waits at an empty slot, everything accepted has been delivered.\<close>

lemma all_empty_mset:
  assumes inv: "sq_inv ops c xs R pos D" and ne: "xs \<noteq> []" and e: "\<And>x. x \<in> set xs \<Longrightarrow> length (accepted c) \<le> pos x"
  shows "mset (map snd (delivered c)) = mset (accepted c)"
proof -
  have r: "ring_part ops c R D" and l: "list_part c xs R pos" and d: "deliv_part c xs R pos D"
    using inv by (simp_all add: sq_inv_def)
  note R = ring_partD [OF r] and L = list_partD [OF l]
  have "p \<in> set D" if p: "p < length (accepted c)" for p
  proof -
    have "p \<le> pos (last xs)" using e [of "last xs"] ne p by simp
    then have "p \<in> set D \<or> (\<exists>x. pending c x \<and> pos x = p)" using d ne by (simp add: deliv_part_def claimed_def)
    moreover have "\<not> (pending c x \<and> pos x = p)" for x using e [of x] L(3) [of x] p by (auto simp: pending_def)
    ultimately show ?thesis by blast
  qed
  then have "set D = {..<length (accepted c)}" using d by (auto simp: deliv_part_def)
  then have "mset D = mset [0..<length (accepted c)]"
    using d set_eq_iff_mset_eq_distinct [of D "[0..<length (accepted c)]"]
    by (simp add: deliv_part_def lessThan_atLeast0)
  then have "image_mset ((!) (accepted c)) (mset D) = image_mset ((!) (accepted c)) (mset [0..<length (accepted c)])" by simp
  moreover have "map snd (delivered c) = map ((!) (accepted c)) D" using d by (simp add: deliv_part_def)
  ultimately show ?thesis by (metis map_nth mset_map)
qed

section \<open>Preservation\<close>

text \<open>A step of one worker inside its calls of \<^verbatim>\<open>QueueConsumerWorker\<close>.\<close>

lemma goto_same: "place p x = Some q \<Longrightarrow> goto_place x q p = p"
proof -
  assume "place p x = Some q"
  then obtain w where w: "worker p x = Some w" "run_at w = q" by (auto simp: place_eq)
  have "(workers p ! x)\<lparr>processingWorker := Some (run_goto q w)\<rparr> = workers p ! x" using w by (cases "workers p ! x") auto
  then show ?thesis unfolding goto_place_def setWorker_def w(1) option.map by (simp only: list_update_id) simp
qed

definition calls :: "run_pc \<Rightarrow> run_pc \<Rightarrow> bool" where
  "calls q q' \<longleftrightarrow> (q, q') \<in> {(Init, Top), (Working, Working), (Working, LoopTest), (Working, WorkSection),
     (WorkSection, TestTerminated), (WorkSection, LoopTest)}"

lemma calls_step: "place p x = Some q \<Longrightarrow> calls q q' \<Longrightarrow> goto_place x q' p = p \<or> qp_step p (goto_place x q' p)"
  using goto_step [of p x q q'] goto_same [of p x q] unfolding calls_def by auto

lemma calls_inv: "place p x = Some q \<Longrightarrow> calls q q' \<Longrightarrow> qp_inv p \<Longrightarrow> qp_inv (goto_place x q' p)"
  using calls_step qp_step_inv by metis

lemma calls_live:
  assumes "place p x = Some q" and "calls q q'" and "live_part p" and "qp_inv p"
  shows "live_part (goto_place x q' p)"
proof -
  have i: "qp_inv (goto_place x q' p)" by (rule calls_inv [OF assms(1,2,4)])
  have "live w" if w: "y < length (workers p)" "worker (goto_place x q' p) y = Some w" for y w
  proof -
    obtain v where v: "worker p y = Some v" "w = (if x = y then run_goto q' v else v)"
      using w goto_worker [OF w(1), of x q'] by (auto split: if_splits)
    have "live v" using assms(3) w(1) v(1) by (simp add: live_part_def)
    moreover have "w_inv w" using i w by (simp add: qp_inv_def safe_part_def safe_worker_def)
    ultimately show ?thesis using v(2) assms(2) by (auto simp: live_def calls_def)
  qed
  then show ?thesis using assms(3) by (simp add: live_part_def)
qed

text \<open>
  \<open>visit\<close>: worker \<open>x\<close> goes from place \<open>q\<close> to \<open>q'\<close>, leaves the queue as \<open>c\<close> and has got \<open>g\<close>. Nothing is accepted, and the
  positions, flags and references of the other readers stay as they are.
\<close>

definition visit ::
  "('e, 'm) entry_ops \<Rightarrow> ('e, 'm, 'c) dlc \<Rightarrow> rid \<Rightarrow> run_pc \<Rightarrow> run_pc \<Rightarrow> ('e, 'm) sqc \<Rightarrow> bool option \<Rightarrow> bool" where
  "visit ops d x q q' c g \<longleftrightarrow> place (proc d) x = Some q \<and> calls q q' \<and> accepted c = accepted (queue d) \<and>
     (\<exists>xs R pos D xs' R' pos' D'. sq_inv ops (queue d) xs R pos D \<and> sq_inv ops c xs' R' pos' D' \<and>
        (\<forall>y. y \<noteq> x \<longrightarrow> pos' y = pos y)) \<and>
     (\<forall>y. y \<noteq> x \<longrightarrow> listed c y = listed (queue d) y \<and> (y \<in> moved c \<longleftrightarrow> y \<in> moved (queue d)) \<and> held c y = held (queue d) y) \<and>
     listed c x \<and> (x \<in> moved c \<or> held c x \<noteq> None \<or> g \<noteq> None \<longrightarrow> q' = Working) \<and> (g \<noteq> None \<longrightarrow> x \<notin> moved c) \<and>
     (g \<noteq> Some True \<longrightarrow> held c x = None) \<and> (q' = TestTerminated \<longrightarrow> fst (SyncQueue_isEmpty x (sq c)))"

abbreviation visiting ::
  "('e, 'm, 'c) dlc \<Rightarrow> rid \<Rightarrow> run_pc \<Rightarrow> ('e, 'm) sqc \<Rightarrow> bool option \<Rightarrow> ('e, 'm, 'c) dlc" where
  "visiting d x q' c g \<equiv> d\<lparr>queue := c, got := (got d)(x := g), proc := goto_place x q' (proc d)\<rparr>"

lemma visitI:
  assumes "place (proc d) x = Some q" "calls q q'" "accepted c = accepted (queue d)"
    "sq_inv ops (queue d) xs R pos D" "sq_inv ops c xs' R' pos' D'" "\<And>y. y \<noteq> x \<Longrightarrow> pos' y = pos y"
    "\<And>y. y \<noteq> x \<Longrightarrow> listed c y = listed (queue d) y" "\<And>y. y \<noteq> x \<Longrightarrow> y \<in> moved c \<longleftrightarrow> y \<in> moved (queue d)"
    "\<And>y. y \<noteq> x \<Longrightarrow> held c y = held (queue d) y" "listed c x" "x \<in> moved c \<or> held c x \<noteq> None \<or> g \<noteq> None \<Longrightarrow> q' = Working"
    "g \<noteq> None \<Longrightarrow> x \<notin> moved c" "g \<noteq> Some True \<Longrightarrow> held c x = None" "q' = TestTerminated \<Longrightarrow> fst (SyncQueue_isEmpty x (sq c))"
  shows "visit ops d x q q' c g"
  using assms unfolding visit_def by blast

lemma visit_others:
  assumes "visit ops d x q q' c g" and "y \<noteq> x" and "listed (queue d) y"
  shows "fst (SyncQueue_isEmpty y (sq c)) = fst (SyncQueue_isEmpty y (sq (queue d)))"
proof -
  obtain xs R pos D xs' R' pos' D' where "sq_inv ops (queue d) xs R pos D" "sq_inv ops c xs' R' pos' D'" "pos' y = pos y"
    using assms(1,2) unfolding visit_def by blast
  moreover have "accepted c = accepted (queue d)" "listed c y" using assms by (auto simp: visit_def)
  ultimately show ?thesis using empty_same assms(3) by blast
qed

lemma visit_place:
  assumes "visit ops d x q q' c g"
  shows "place (goto_place x q' (proc d)) y = (if y = x then Some q' else place (proc d) y)"
proof -
  have "place (proc d) x = Some q" using assms by (simp add: visit_def)
  then show ?thesis by (rule place_goto)
qed

lemma visit_core:
  assumes v: "visit ops d x q q' c g" and core: "dl_core ops d"
  shows "dl_core ops (visiting d x q' c g)"
proof -
  note I = dl_coreD [OF core]
  have V: "place (proc d) x = Some q" "calls q q'" "listed c x" using v by (simp_all add: visit_def)
  have O: "listed c y = listed (queue d) y \<and> (y \<in> moved c \<longleftrightarrow> y \<in> moved (queue d)) \<and> held c y = held (queue d) y"
    if "y \<noteq> x" for y using v that unfolding visit_def by blast
  have S: "x \<in> moved c \<or> held c x \<noteq> None \<or> g \<noteq> None \<Longrightarrow> q' = Working" "g \<noteq> None \<Longrightarrow> x \<notin> moved c"
    "g \<noteq> Some True \<Longrightarrow> held c x = None"
    using v by (simp_all add: visit_def)
  note pl = visit_place [OF v]
  have "q' \<noteq> Init" using V(2) by (auto simp: calls_def)
  then have "roster_part (visiting d x q' c g)" using I(3) V(3) O pl by (simp add: roster_part_def)
  moreover have "busy_part (visiting d x q' c g)"
    unfolding busy_part_def
  proof (intro allI)
    let ?d = "visiting d x q' c g"
    fix y
    show "(y \<in> moved (queue ?d) \<or> held (queue ?d) y \<noteq> None \<or> got ?d y \<noteq> None \<longrightarrow> place (proc ?d) y = Some Working) \<and>
     (got ?d y \<noteq> None \<longrightarrow> y \<notin> moved (queue ?d)) \<and> (got ?d y \<noteq> Some True \<longrightarrow> held (queue ?d) y = None)"
    proof (cases "y = x")
      case True
      show ?thesis unfolding True using S pl [of x] by simp blast
    next
      case False
      then show ?thesis using I(4) O [OF False] pl by (simp add: busy_part_def)
    qed
  qed
  moreover have "\<exists>xs R pos D. sq_inv ops c xs R pos D" using v unfolding visit_def by blast
  ultimately show ?thesis
    using calls_inv [OF V(1,2) I(1)] calls_live [OF V(1,2) I(2,1)] unfolding dl_core_def by simp
qed

lemma visit_inv:
  assumes v: "visit ops d x q q' c g" and inv: "dl_inv ops d"
  shows "dl_inv ops (visiting d x q' c g)"
proof -
  let ?d = "visiting d x q' c g"
  note I = dl_invD [OF inv]
  have x: "place (proc d) x = Some q" "calls q q'" using v by (simp_all add: visit_def)
  have "doze_part ?d"
    unfolding doze_part_def
  proof (intro allI impI)
    fix y w
    assume y: "y < length (workers (proc ?d))" "worker (proc ?d) y = Some w" "dozing w"
    show "fst (SyncQueue_isEmpty y (sq (queue ?d))) \<or> coming (owed ?d) (proc ?d) y w"
    proof (cases "y = x")
      case True
      obtain u where "worker (proc d) x = Some u" using x(1) by (auto simp: place_eq)
      then have "run_at w = q'" using y(1,2) goto_worker [of x "proc d" x q'] True by auto
      then have "q' = TestTerminated" using y(3) x(2) by (auto simp: dozing_def calls_def)
      then show ?thesis using v True by (simp add: visit_def)
    next
      case False
      have w: "y < length (workers (proc d))" "worker (proc d) y = Some w"
        using y(1,2) goto_worker [of y "proc d" x q'] False by simp_all
      have "place (proc d) y = Some (run_at w)" using w by (simp add: place_def)
      then have "listed (queue d) y" using core_reader(1) [OF I(1)] y(3) by (auto simp: dozing_def)
      then show ?thesis using visit_others [OF v False] I(6) w y(3) by (simp add: doze_part_def coming_def)
    qed
  qed
  then show ?thesis using visit_core [OF v I(1)] I(7) by (simp add: dl_inv_def)
qed

text \<open>The processor moves on, with the workers inside their calls left where they are.\<close>

lemma operate_core:
  assumes core: "dl_core ops d" and p: "qp_step (proc d) p" "parked (proc d) p" "upright p"
  shows "dl_core ops (d\<lparr>proc := p, owed := n\<rparr>)"
proof -
  let ?d = "d\<lparr>proc := p, owed := n\<rparr>"
  note I = dl_coreD [OF core]
  have "live_part p" using op_live(2) [OF p(1) I(1,2) p(3,2)] p(3) by (simp add: live_part_def)
  moreover have "roster_part ?d" using I(3) op_place [OF p(1) I(1,2) p(3,2)] by (simp add: roster_part_def)
  moreover have "busy_part ?d" using I(4) p(2) by (simp add: busy_part_def parked_def)
  ultimately show ?thesis using core qp_step_inv [OF p(1) I(1)] by (simp add: dl_core_def)
qed

lemma operate_inv:
  assumes inv: "dl_inv ops d" and p: "qp_step (proc d) p" "parked (proc d) p" "serving p"
    and n: "\<And>x w. coming (owed d) (proc d) x w \<Longrightarrow> coming n (proc d) x w \<or> (\<forall>w'. coming n p x w')"
  shows "dl_inv ops (d\<lparr>proc := p, owed := n\<rparr>)"
proof -
  let ?d = "d\<lparr>proc := p, owed := n\<rparr>"
  note I = dl_invD [OF inv] and u = serving_upright [OF p(3)]
  note ol = op_live [OF p(1) I(2,3) u p(2)]
  have "doze_part ?d"
    unfolding doze_part_def
  proof (intro allI impI)
    fix x w'
    assume x: "x < length (workers (proc ?d))" "worker (proc ?d) x = Some w'" "dozing w'"
    then have xp: "x < length (workers p)" "worker p x = Some w'" by simp_all
    have "w' \<noteq> Worker_start Worker_new" using x(3) new_live(2) by (auto simp: dozing_def)
    then obtain w where w: "worker (proc d) x = Some w" "tracked w w'" "live w" "stays w w'" using ol(3) [OF xp] by blast
    have l: "x < length (workers (proc d))" by (rule ol(1) [OF xp])
    have dz: "dozing w" by (rule tracked_live(3) [OF w(2-4) x(3)])
    have "coming n p x w'" if "coming (owed d) (proc d) x w"
      using n [OF that] coming_step [OF p(1) I(2) l w(1) xp(2) _ dz x(3)] w(3) by (auto simp: live_def)
    then show "fst (SyncQueue_isEmpty x (sq (queue ?d))) \<or> coming (owed ?d) (proc ?d) x w'"
      using I(6) l w(1) dz by (auto simp: doze_part_def)
  qed
  then show ?thesis using operate_core [OF I(1) p(1,2) u] p(3) by (simp add: dl_inv_def)
qed

text \<open>
  \<open>fed\<close>: the writer moves, or the queue grows. The readers stay where they are; a publication leaves a broadcast owed.
\<close>

definition fed :: "('e, 'm) entry_ops \<Rightarrow> ('e, 'm, 'c) dlc \<Rightarrow> ('e, 'm) sqc \<Rightarrow> bool" where
  "fed ops d c \<longleftrightarrow> (\<exists>xs R pos D. sq_inv ops (queue d) xs R pos D \<and> sq_inv ops c xs R pos D) \<and>
     moved c = moved (queue d) \<and> held c = held (queue d) \<and>
     (accepted c = accepted (queue d) \<or> length (accepted (queue d)) < length (accepted c))"

abbreviation feeding :: "('e, 'm, 'c) dlc \<Rightarrow> ('e, 'm) sqc \<Rightarrow> ('e, 'm, 'c) dlc" where
  "feeding d c \<equiv> d\<lparr>queue := c, owed := owed d + (length (accepted c) - length (accepted (queue d)))\<rparr>"

lemma fed_listed: "fed ops d c \<Longrightarrow> listed c x = listed (queue d) x"
proof -
  assume "fed ops d c"
  then obtain xs R pos D where c: "sq_inv ops (queue d) xs R pos D" "sq_inv ops c xs R pos D" by (auto simp: fed_def)
  show "listed c x = listed (queue d) x" using inv_listed [OF c(1)] inv_listed [OF c(2)] by simp
qed

lemma fed_empty:
  assumes "fed ops d c" and "accepted c = accepted (queue d)" and "listed (queue d) x"
  shows "fst (SyncQueue_isEmpty x (sq c)) = fst (SyncQueue_isEmpty x (sq (queue d)))"
proof -
  obtain xs R pos D where c: "sq_inv ops (queue d) xs R pos D" "sq_inv ops c xs R pos D" using assms(1) by (auto simp: fed_def)
  show ?thesis using empty_same [OF c _ _ assms(2)] fed_listed [OF assms(1)] assms(3) by simp
qed

lemma fed_core:
  assumes "fed ops d c" and "dl_core ops d"
  shows "dl_core ops (feeding d c)"
proof -
  note I = dl_coreD [OF assms(2)]
  have "roster_part (feeding d c)" using I(3) fed_listed [OF assms(1)] by (simp add: roster_part_def)
  moreover have "busy_part (feeding d c)" using I(4) assms(1) by (simp add: busy_part_def fed_def)
  moreover have "\<exists>xs R pos D. sq_inv ops c xs R pos D" using assms(1) unfolding fed_def by blast
  ultimately show ?thesis using I by (simp add: dl_core_def)
qed

lemma fed_inv:
  assumes f: "fed ops d c" and inv: "dl_inv ops d"
  shows "dl_inv ops (feeding d c)"
proof -
  note I = dl_invD [OF inv]
  have "doze_part (feeding d c)"
    unfolding doze_part_def
  proof (intro allI impI)
    fix x w
    assume x: "x < length (workers (proc (feeding d c)))" "worker (proc (feeding d c)) x = Some w" "dozing w"
    show "fst (SyncQueue_isEmpty x (sq (queue (feeding d c)))) \<or> coming (owed (feeding d c)) (proc (feeding d c)) x w"
    proof (cases "accepted c = accepted (queue d)")
      case True
      have "place (proc d) x = Some (run_at w)" using x(1,2) by (simp add: place_def)
      then have "listed (queue d) x" using core_reader(1) [OF I(1)] x(3) by (auto simp: dozing_def)
      then show ?thesis using fed_empty [OF f True] I(6) x True by (simp add: doze_part_def)
    next
      case False
      then have "length (accepted (queue d)) < length (accepted c)" using f unfolding fed_def by blast
      then show ?thesis by (simp add: coming_def)
    qed
  qed
  then show ?thesis using fed_core [OF f I(1)] I(7) by (simp add: dl_inv_def)
qed

text \<open>The list operations of one reader leave the flags of the others alone.\<close>

lemma move_flags:
  assumes inv: "sq_inv ops c xs R pos D" and x: "listed c x" and m: "moveToFront x (sq c) = Inr (b, s)"
  shows "flags_frame (sq c) s"
proof -
  have r: "ring_part ops c R D" and l: "list_part c xs R pos" using inv by (simp_all add: sq_inv_def)
  note L = list_partD [OF l] and sl = slots_ok_inv [OF r l]
  have xl: "x \<in> set xs" using x L(3) by simp
  show ?thesis
    using moveToFront_advances [OF L(1) sl xl] moveToFront_blocked [OF L(1) sl xl] m
    by (cases "spans (ring_size (sq c)) (rl_abs (sq c) xs)") auto
qed

lemma start_flags:
  assumes inv: "sq_inv ops c xs R pos D" and m: "startAccess x (sq c) = Inr s"
  shows "\<not> listed c x" and "ri_inQueue (readers s y) \<longleftrightarrow> y = x \<or> listed c y"
proof -
  have r: "ring_part ops c R D" and l: "list_part c xs R pos" using inv by (simp_all add: sq_inv_def)
  note L = list_partD [OF l]
  show nl: "\<not> listed c x" using m by (auto simp: startAccess_def readerList_add_def)
  then have xl: "x \<notin> set xs" using L(3) by simp
  obtain late a where a: "spec_add (ring_size (sq c)) x (rl_abs (sq c) xs) = (late, a)" by fastforce
  from readerList_add_refines [OF L(1) slots_ok_inv [OF r l] xl a] m
  have "flags_set (sq c) x late True True s" by (auto simp: startAccess_def)
  then show "ri_inQueue (readers s y) \<longleftrightarrow> y = x \<or> listed c y" by (auto simp: flags_set_def)
qed

context entry_class
begin

text \<open>A blocking pause leaves no reference into the queue, so that it can grow.\<close>

lemma quiesced_free:
  assumes core: "dl_core ops d" and q: "quiesced (proc d)"
  shows "moved (queue d) = {}" and "held (queue d) = Map.empty" and "card {x. listed (queue d) x} \<le> length (workers (proc d))"
proof -
  note I = dl_coreD [OF core]
  have nw: "place (proc d) x \<noteq> Some Working" for x
  proof
    assume "place (proc d) x = Some Working"
    then obtain w where w: "x < length (workers (proc d))" "worker (proc d) x = Some w" "run_at w = Working" by (auto simp: place_eq)
    have "resting w" "live w" using I(1,2) q w(1,2) by (auto simp: qp_inv_def quiet_part_def live_part_def)
    then show False using resting_away(3) [of w] w(3) by (simp add: live_def)
  qed
  show "moved (queue d) = {}" using I(4) nw unfolding busy_part_def by blast
  show "held (queue d) = Map.empty" using I(4) nw unfolding busy_part_def by blast
  have "{x. listed (queue d) x} \<subseteq> {..<length (workers (proc d))}" using I(3) by (auto simp: roster_part_def place_eq)
  from card_mono [OF _ this] show "card {x. listed (queue d) x} \<le> length (workers (proc d))" by simp
qed

text \<open>The calls of a worker are visits, the writer and growth feed.\<close>

lemma Join_visit:
  assumes core: "dl_core ops d" and x: "place (proc d) x = Some Init" "startAccess x (sq (queue d)) = Inr s"
  shows "visit ops d x Init Top ((queue d)\<lparr>sq := s\<rparr>) None"
proof -
  obtain xs R pos D where c: "sq_inv ops (queue d) xs R pos D" by (rule core_queue [OF core])
  note f = start_flags [OF c x(2)] and b = core_reader(5) [OF core x(1)]
  obtain xs' pos' where c': "sq_inv ops ((queue d)\<lparr>sq := s\<rparr>) xs' R pos' D" "\<And>y. y \<noteq> x \<Longrightarrow> pos' y = pos y"
    using Start_inv [OF c f(1) x(2)] by blast
  show ?thesis by (rule visitI [OF x(1) _ _ c c'(1)]) (use c'(2) f(2) b in \<open>simp_all add: calls_def\<close>)
qed

lemma Move_visit:
  assumes core: "dl_core ops d" and x: "place (proc d) x = Some Working" "got d x = None"
    and f: "finished (queue d) x" "x \<notin> moved (queue d)" and m: "moveToFront x (sq (queue d)) = Inr (b, s)"
  shows "visit ops d x Working Working ((queue d)\<lparr>sq := s, moved := (if b then insert x (moved (queue d)) else moved (queue d))\<rparr>)
    (if b then None else Some False)"
proof -
  obtain xs R pos D where c: "sq_inv ops (queue d) xs R pos D" by (rule core_queue [OF core])
  have r: "listed (queue d) x" "held (queue d) x = None" using core_reader(1,2) [OF core x(1)] x(2) by simp_all
  let ?c = "(queue d)\<lparr>sq := s, moved := (if b then insert x (moved (queue d)) else moved (queue d))\<rparr>"
  obtain xs' R' pos' where c': "sq_inv ops ?c xs' R' pos' D" "\<And>y. y \<noteq> x \<Longrightarrow> pos' y = pos y"
    using Move_inv [OF c r(1) f r(2) m] by blast
  have fl: "ri_inQueue (readers s y) = listed (queue d) y" for y
    using move_flags [OF c r(1) m] by (simp add: flags_frame_def)
  show ?thesis by (rule visitI [OF x(1) _ _ c c'(1)]) (use c'(2) fl r f(2) in \<open>auto simp: calls_def split: if_splits\<close>)
qed

lemma Look_visit:
  assumes core: "dl_core ops d" and x: "place (proc d) x = Some Working" "got d x = None"
    and f: "\<not> finished (queue d) x \<or> x \<in> moved (queue d)" and m: "removeSlot x (sq (queue d)) = Inr (NullEntry, s)"
  shows "visit ops d x Working Working ((queue d)\<lparr>sq := s, moved := moved (queue d) - {x}\<rparr>) (Some False)"
proof -
  obtain xs R pos D where c: "sq_inv ops (queue d) xs R pos D" by (rule core_queue [OF core])
  have r: "listed (queue d) x" "held (queue d) x = None" using core_reader(1,2) [OF core x(1)] x(2) by simp_all
  let ?c = "(queue d)\<lparr>sq := s, moved := moved (queue d) - {x}\<rparr>"
  have c': "sq_inv ops ?c xs R pos D" by (rule Look_inv [OF c r(1) f m])
  have ls: "listed ?c y = listed (queue d) y" for y using inv_listed [OF c] inv_listed [OF c'] by simp
  show ?thesis by (rule visitI [OF x(1) _ _ c c']) (use r ls in \<open>simp_all add: calls_def\<close>)
qed

lemma Take_visit:
  assumes core: "dl_core ops d" and x: "place (proc d) x = Some Working" "got d x = None"
    and f: "\<not> finished (queue d) x \<or> x \<in> moved (queue d)"
    and m: "removeSlot x (sq (queue d)) = Inr (r, s)" "r \<noteq> NullEntry" "deref ops r (dataEntries s) = Inr e"
  shows "visit ops d x Working Working ((queue d)\<lparr>sq := s, moved := moved (queue d) - {x},
      delivered := delivered (queue d) @ [(x, e)], held := (held (queue d))(x \<mapsto> (r, e))\<rparr>) (Some True)"
proof -
  obtain xs R pos D where c: "sq_inv ops (queue d) xs R pos D" by (rule core_queue [OF core])
  have l: "listed (queue d) x" using core_reader(1) [OF core x(1)] by simp
  let ?c = "(queue d)\<lparr>sq := s, moved := moved (queue d) - {x}, delivered := delivered (queue d) @ [(x, e)],
      held := (held (queue d))(x \<mapsto> (r, e))\<rparr>"
  have c': "sq_inv ops ?c xs R pos (D @ [pos x])" by (rule Take_inv [OF c l f m])
  have ls: "listed ?c y = listed (queue d) y" for y using inv_listed [OF c] inv_listed [OF c'] by simp
  show ?thesis by (rule visitI [OF x(1) _ _ c c']) (use l ls in \<open>simp_all add: calls_def\<close>)
qed

lemma Change_visit:
  assumes core: "dl_core ops d" and x: "place (proc d) x = Some Working" "got d x = Some True"
    and m: "held (queue d) x = Some (r, e)" "same_type ops e e'" "writeRef r e' (dataEntries (sq (queue d))) = Inr a"
  shows "visit ops d x Working Working
    ((queue d)\<lparr>sq := (sq (queue d))\<lparr>dataEntries := a\<rparr>, held := (held (queue d))(x \<mapsto> (r, e'))\<rparr>) (Some True)"
proof -
  obtain xs R pos D where c: "sq_inv ops (queue d) xs R pos D" by (rule core_queue [OF core])
  have l: "listed (queue d) x" "x \<notin> moved (queue d)" using core_reader(1,3) [OF core x(1)] x(2) by simp_all
  show ?thesis
    by (rule visitI [OF x(1) _ _ c Change_inv [OF c m]]) (use l in \<open>simp_all add: calls_def\<close>)
qed

lemma Handled_visit:
  assumes core: "dl_core ops d" and x: "place (proc d) x = Some Working" "got d x = Some True"
  shows "visit ops d x Working LoopTest ((queue d)\<lparr>held := (held (queue d))(x := None)\<rparr>) None"
proof -
  obtain xs R pos D where c: "sq_inv ops (queue d) xs R pos D" by (rule core_queue [OF core])
  have l: "listed (queue d) x" "x \<notin> moved (queue d)" using core_reader(1,3) [OF core x(1)] x(2) by simp_all
  show ?thesis by (rule visitI [OF x(1) _ _ c Handled_inv [OF c]]) (use l in \<open>simp_all add: calls_def\<close>)
qed

lemma Nothing_visit:
  assumes core: "dl_core ops d" and x: "place (proc d) x = Some Working" "got d x = Some False"
  shows "visit ops d x Working WorkSection (queue d) None"
proof -
  obtain xs R pos D where c: "sq_inv ops (queue d) xs R pos D" by (rule core_queue [OF core])
  have l: "listed (queue d) x" "x \<notin> moved (queue d)" "held (queue d) x = None"
    using core_reader(1,3,4) [OF core x(1)] x(2) by simp_all
  show ?thesis by (rule visitI [OF x(1) _ _ c c]) (use l in \<open>simp_all add: calls_def\<close>)
qed

lemma IsWork_visit:
  assumes core: "dl_core ops d" and x: "place (proc d) x = Some WorkSection" and e: "SyncQueue_isEmpty x (sq (queue d)) = (e, s)"
  shows "visit ops d x WorkSection (if e then TestTerminated else LoopTest) ((queue d)\<lparr>sq := s\<rparr>) None"
proof -
  obtain xs R pos D where c: "sq_inv ops (queue d) xs R pos D" by (rule core_queue [OF core])
  have l: "listed (queue d) x" using core_reader(1) [OF core x] by simp
  note b = core_reader(5) [OF core x, simplified]
  have s: "s = snd (SyncQueue_isEmpty x (sq (queue d)))" "e = fst (SyncQueue_isEmpty x (sq (queue d)))" using e by simp_all
  let ?c = "(queue d)\<lparr>sq := s\<rparr>"
  have c': "sq_inv ops ?c xs R pos D" using Peek_inv [OF c, of x] s(1) by simp
  have ls: "listed ?c y = listed (queue d) y" for y using inv_listed [OF c] inv_listed [OF c'] by simp
  have "fst (SyncQueue_isEmpty x s) = e" using empty_same [OF c c' l] ls l s(2) by simp
  then show ?thesis by (intro visitI [OF x _ _ c c']) (use l b ls in \<open>auto simp: calls_def\<close>)
qed

lemma Write_fed:
  assumes core: "dl_core ops d" and c: "sq_step ops (queue d) c" "wpc c \<noteq> wpc (queue d)"
  shows "fed ops d c"
proof -
  obtain xs R pos D where s: "sq_inv ops (queue d) xs R pos D" by (rule core_queue [OF core])
  have "sq_inv ops c xs R pos D \<and> moved c = moved (queue d) \<and> held c = held (queue d) \<and>
    (accepted c = accepted (queue d) \<or> length (accepted (queue d)) < length (accepted c))"
    using c(1)
  proof cases
    case (Test n e)
    from Test_inv [OF s Test(3,4)] show ?thesis unfolding Test(1) by simp
  next
    case (Store e n t)
    from Store_inv [OF s Store(2,3)] show ?thesis unfolding Store(1) by simp
  next
    case (Reject e n t)
    from Reject_inv [OF s Reject(3)] show ?thesis unfolding Reject(1) by simp
  next
    case (Publish e n)
    from Publish_inv [OF s Publish(2)] show ?thesis unfolding Publish(1) by simp
  qed (use c(2) in simp_all)
  then show ?thesis using s unfolding fed_def by blast
qed

lemma Grow_fed:
  assumes core: "dl_core ops d" and q: "quiesced (proc d)" "wpc (queue d) = WIdle"
    and g: "currentSize (sq (queue d)) < size'" "uint size' \<le> 1073741824" "growth_ok (sq (queue d)) size'"
    and f: "length (workers (proc d)) < fuel" and s: "SyncQueue_resize fuel ops size' (sq (queue d)) = Inr s"
  shows "fed ops d ((queue d)\<lparr>sq := s\<rparr>)"
proof -
  obtain xs R pos D where c: "sq_inv ops (queue d) xs R pos D" by (rule core_queue [OF core])
  note e = quiesced_free [OF core q(1)]
  have "card {x. listed (queue d) x} < fuel" using e(3) f by simp
  from Grow_inv [OF c q(2) e(1,2) g this s] c show ?thesis unfolding fed_def by auto
qed

text \<open>So every step is a visit, a feeding step, or a step of the processor.\<close>

lemma dl_stepE:
  assumes "dl_step ops d d'" and "dl_core ops d"
  obtains (visit) x q q' c g where "visit ops d x q q' c g" "d' = visiting d x q' c g"
  | (feed) c where "fed ops d c" "d' = feeding d c"
  | (broadcast) "0 < owed d" "qp_at (proc d) = Ready" "d' = d\<lparr>proc := QueueProcessor_broadcast (proc d), owed := owed d - 1\<rparr>"
  | (operate) p where "qp_step (proc d) p" "parked (proc d) p" "serving p" "d' = d\<lparr>proc := p\<rparr>"
  using assms
proof (induction rule: dl_step.induct)
  case (Write d c)
  from Write.prems(2) [OF Write_fed [OF Write.prems(5) Write.hyps]] show ?case by (simp add: fun_upd_def)
next
  case (Join d x s)
  have "(got d)(x := None) = got d" using core_reader(5) [OF Join.prems(5) Join.hyps(1)] by auto
  with Join.prems(1) [OF Join_visit [OF Join.prems(5) Join.hyps]] show ?case by (simp add: fun_upd_def)
next
  case (Move d x b s)
  from Move.prems(1) [OF Move_visit [OF Move.prems(5) Move.hyps]] goto_same [OF Move.hyps(1)] show ?case by (simp add: fun_upd_def)
next
  case (Look d x s)
  from Look.prems(1) [OF Look_visit [OF Look.prems(5) Look.hyps]] goto_same [OF Look.hyps(1)] show ?case by (simp add: fun_upd_def)
next
  case (Take d x r s e)
  from Take.prems(1) [OF Take_visit [OF Take.prems(5) Take.hyps]] goto_same [OF Take.hyps(1)] show ?case by (simp add: fun_upd_def)
next
  case (Change d x r e e' a)
  have "(got d)(x \<mapsto> True) = got d" using Change.hyps(2) by auto
  with Change.prems(1) [OF Change_visit [OF Change.prems(5) Change.hyps]] goto_same [OF Change.hyps(1)] show ?case by (simp add: fun_upd_def)
next
  case (Handled d x)
  from Handled.prems(1) [OF Handled_visit [OF Handled.prems(5) Handled.hyps]] show ?case by (simp add: fun_upd_def)
next
  case (Nothing d x)
  from Nothing.prems(1) [OF Nothing_visit [OF Nothing.prems(5) Nothing.hyps]] show ?case by (simp add: fun_upd_def)
next
  case (IsWork d x e s)
  have "(got d)(x := None) = got d" using core_reader(5) [OF IsWork.prems(5) IsWork.hyps(1)] by auto
  with IsWork.prems(1) [OF IsWork_visit [OF IsWork.prems(5) IsWork.hyps]] show ?case by (simp add: fun_upd_def)
next
  case (Grow d size' fuel s)
  from Grow.prems(2) [OF Grow_fed [OF Grow.prems(5) Grow.hyps]] show ?case by (simp add: fun_upd_def)
qed blast+

text \<open>The queue of a step is that of a step of \<open>sq_step\<close>; growth relies on the pause of the processor.\<close>

lemma queue_sq_step:
  assumes "dl_step ops d d'" and "dl_core ops d"
  shows "queue d' = queue d \<or> sq_step ops (queue d) (queue d')"
  using assms
proof (induction rule: dl_step.induct)
  case (Join d x s)
  obtain xs R pos D where c: "sq_inv ops (queue d) xs R pos D" by (rule core_queue [OF Join.prems])
  from sq_step.Start [OF start_flags(1) [OF c Join.hyps(2)] Join.hyps(2)] show ?case by simp
next
  case (Move d x b s)
  have "listed (queue d) x" "held (queue d) x = None" using core_reader(1,2) [OF Move.prems Move.hyps(1)] Move.hyps(2) by simp_all
  from sq_step.Move [OF this(1) Move.hyps(3,4) this(2) Move.hyps(5)] show ?case by simp
next
  case (Look d x s)
  have "listed (queue d) x" using core_reader(1) [OF Look.prems Look.hyps(1)] by simp
  from sq_step.Look [OF this Look.hyps(3,4)] show ?case by simp
next
  case (Take d x r s e)
  have "listed (queue d) x" using core_reader(1) [OF Take.prems Take.hyps(1)] by simp
  from sq_step.Take [OF this Take.hyps(3-6)] show ?case by simp
next
  case (Change d x r e e' a)
  from sq_step.Change [OF Change.hyps(3-5)] show ?case by simp
next
  case (Handled d x)
  from sq_step.Handled [of ops "queue d" x] show ?case by simp
next
  case (IsWork d x e s)
  have "listed (queue d) x" using core_reader(1) [OF IsWork.prems IsWork.hyps(1)] by simp
  from sq_step.Peek [OF this] IsWork.hyps(2) show ?case by simp
next
  case (Grow d size' fuel s)
  note f = quiesced_free [OF Grow.prems Grow.hyps(1)]
  from sq_step.Grow [OF Grow.hyps(2) f(1,2) Grow.hyps(3-5) _ Grow.hyps(7)] f(3) Grow.hyps(6) show ?case by simp
qed simp_all

text \<open>Every step keeps the invariant.\<close>

lemma broadcast_inv:
  assumes inv: "dl_inv ops d" and "0 < owed d" and r: "qp_at (proc d) = Ready"
  shows "dl_inv ops (d\<lparr>proc := QueueProcessor_broadcast (proc d), owed := owed d - 1\<rparr>)"
proof -
  have "parked (proc d) (QueueProcessor_broadcast (proc d))"
    by (auto simp: parked_def place_def QueueProcessor_broadcast_def)
  moreover have "serving (QueueProcessor_broadcast (proc d))"
    using dl_invD(7) [OF inv] by (simp add: serving_def QueueProcessor_broadcast_def)
  moreover have "coming n (QueueProcessor_broadcast (proc d)) x w" for n x w
    by (auto simp: coming_def QueueProcessor_broadcast_def)
  ultimately show ?thesis by (intro operate_inv [OF inv qp_step.Broadcast [OF r]]) simp_all
qed

lemma dl_step_inv:
  assumes "dl_step ops d d'" and inv: "dl_inv ops d"
  shows "dl_inv ops d'"
  using assms(1) dl_invD(1) [OF inv]
proof (cases rule: dl_stepE)
  case visit
  then show ?thesis using visit_inv [OF _ inv] by simp
next
  case feed
  then show ?thesis using fed_inv [OF _ inv] by simp
next
  case broadcast
  then show ?thesis using broadcast_inv [OF inv] by simp
next
  case (operate p)
  from operate_inv [OF inv operate(1-3), of "owed d"] operate(4) show ?thesis by simp
qed

lemma dl_reach_inv: "dl_reach ops d d' \<Longrightarrow> dl_inv ops d \<Longrightarrow> dl_inv ops d'"
  by (induction rule: dl_reach.induct) (auto intro: dl_step_inv)

lemma dl_reach_sq: "dl_reach ops d d' \<Longrightarrow> dl_inv ops d \<Longrightarrow> sq_reach ops (queue d) (queue d')"
proof (induction rule: dl_reach.induct)
  case (Step d d' d'')
  then have "sq_reach ops (queue d) (queue d')" "dl_inv ops d'" using dl_reach_inv by blast+
  with queue_sq_step [OF Step.hyps(2) dl_invD(1)] show ?case by (metis sq_reach.Step)
qed (rule sq_reach.Refl)

lemma dl_reach_qp: "dl_reach ops d d' \<Longrightarrow> qp_reach (proc d) (proc d')"
  by (induction rule: dl_reach.induct) (auto intro: qp_reach.intros dest!: proc_step)

lemma dl_init_inv:
  assumes p: "QueueProcessor_new k cs n = Inr p" and n: "2 \<le> uint n" "uint n \<le> 1073741824"
  shows "dl_inv ops (dl_init ops d ids p)" and "queueSize p = n"
proof -
  have f: "queueSize p = n" "qp_at p = Ready" "\<not> qp_isTerminatedFlag p"
    using p by (auto simp: QueueProcessor_new_def split: if_splits)
  show "queueSize p = n" by (rule f(1))
  have w: "worker p x = None" if "x < length (workers p)" for x
    using new_workers [OF p] that by (simp add: WorkerCache_new_def)
  have inv: "sq_inv ops (sq_init ops n d True ids) [] 0 (\<lambda>_. 0) []" by (rule init_inv [OF n])
  have "\<not> listed (sq_init ops n d True ids) x" for x using inv_listed [OF inv, of x] by simp
  then show "dl_inv ops (dl_init ops d ids p)"
    using inv new_inv [OF p] w f
    by (auto simp: dl_inv_def dl_core_def dl_init_def live_part_def upright_def roster_part_def busy_part_def doze_part_def serving_def place_def
        sq_init_def)
qed

end

end
