(* ===== verification/Shutdown.thy ===== *)
theory Shutdown
  imports Delivery
begin

text \<open>
  The life of a processor with its stops: \<^verbatim>\<open>QueueProcessor::stop\<close> and \<^verbatim>\<open>terminate\<close> on top of the composed machine. \<^verbatim>\<open>stop\<close>
  signals every worker and waits until it has no work left, then tells all workers to end, then joins them; a worker
  that ends leaves the reader list (\<^verbatim>\<open>QueueConsumerWorker::finalize\<close>). Afterwards the processor can be started again.

  While \<^verbatim>\<open>stop\<close> runs no producer publishes and no condition variable wakes up spuriously; consumers do not throw.
\<close>

section \<open>The machine\<close>

text \<open>
  The steps of the processor and the workers while \<^verbatim>\<open>stop\<close> runs: a worker inside a call of \<^verbatim>\<open>QueueConsumerWorker\<close>, now
  including \<^verbatim>\<open>finalize\<close>, is not moved on, and one that sleeps is moved on only by a signal, which is a step of the
  caller too.
\<close>

definition settled :: "'c QueueProcessor \<Rightarrow> 'c QueueProcessor \<Rightarrow> bool" where
  "settled p p' \<longleftrightarrow> parked p p' \<and> (\<forall>x. place p x = Some Finalizing \<longrightarrow> place p' x = Some Finalizing) \<and>
     (\<forall>x w w'. x < length (workers p) \<longrightarrow> x < length (workers p') \<longrightarrow> worker p x = Some w \<longrightarrow> worker p' x = Some w' \<longrightarrow>
        run_at w = WorkSleep \<longrightarrow> run_at w' \<noteq> WorkSleep \<longrightarrow> ctl_at w' \<noteq> ctl_at w)"

inductive life_step :: "('e, 'm) entry_ops \<Rightarrow> ('e, 'm, 'c) dlc \<Rightarrow> ('e, 'm, 'c) dlc \<Rightarrow> bool" for ops where
  Serve: "dl_step ops d d' \<Longrightarrow>
    serving (proc d) \<or> accepted (queue d') = accepted (queue d) \<and> wpc (queue d') = wpc (queue d) \<Longrightarrow> life_step ops d d'"
| Halt: "qp_step (proc d) p \<Longrightarrow> settled (proc d) p \<Longrightarrow> \<not> serving (proc d) \<or> \<not> serving p \<Longrightarrow> life_step ops d (d\<lparr>proc := p\<rparr>)"
| Leave: "place (proc d) x = Some Finalizing \<Longrightarrow> endAccess x (sq (queue d)) = Inr s \<Longrightarrow>
    life_step ops d (d\<lparr>queue := (queue d)\<lparr>sq := s\<rparr>, proc := goto_place x SignalDead (proc d)\<rparr>)"

inductive life_reach :: "('e, 'm) entry_ops \<Rightarrow> ('e, 'm, 'c) dlc \<Rightarrow> ('e, 'm, 'c) dlc \<Rightarrow> bool" for ops where
  Refl: "life_reach ops d d"
| Step: "life_reach ops d d' \<Longrightarrow> life_step ops d' d'' \<Longrightarrow> life_reach ops d d''"

section \<open>Readers that leave\<close>

text \<open>The last reader leaves while its slot is unwritten: the read index stays.\<close>

lemma remove_last_empty:
  assumes ok: "rlist_ok s [x]" and e: "fst (SyncQueue_isEmpty x s)"
  shows "\<exists>s'. readerList_remove x s = Inr s' \<and> flags_set s x False False False s' \<and>
    rl_post s \<lparr>order = [], slot = rd_index s, rindex = readIndex s\<rparr> s'"
proof -
  define s1 where "s1 = (if ri_isDone (readers s x) then set_isEmpty x True s else s)"
  define s' where "s' = set_isDone x False (set_inQueue x False (set_isEmpty x False
     ((set_prev x None (set_next x None s1))\<lparr>rl_back := None, rl_front := None\<rparr>)))"
  have p: "rl_front s = Some x" "rl_back s = Some x" "\<And>y. ri_inQueue (readers s y) \<longleftrightarrow> y = x"
    using ok by (auto simp: rlist_ok_def)
  have "readerList_remove x s = Inr s'"
    using p e by (cases "ri_isDone (readers s x)")
      (simp_all add: readerList_remove_def removeFront_def SyncQueue_isEmpty_def Let_def s'_def s1_def)
  moreover have "rlist_ok s' []" using p by (simp add: rlist_ok_def s'_def s1_def)
  moreover have "list_frame s s'" by (simp add: list_frame_def s'_def s1_def) (simp add: upd_reader_def)
  moreover have "flags_set s x False False False s'" by (simp add: flags_set_def s'_def s1_def)
  ultimately show ?thesis
    by (intro exI [of _ s']) (simp add: rl_post_def rl_abs_def s'_def s1_def fun_eq_iff)
qed

text \<open>A reader whose slot is unwritten leaves: the others keep their slots, except that the front may take over its slot.\<close>

lemma spec_remove_slots:
  fixes n r :: int and sl :: "rid \<Rightarrow> int" and fin :: bool
  assumes d: "distinct xs" "x \<in> set xs" and f: "xs = [x] \<Longrightarrow> \<not> fin"
  defines "a \<equiv> spec_remove n fin x \<lparr>order = xs, slot = sl, rindex = r\<rparr>"
  shows "set (order a) = set xs - {x}" "rindex a = r" "slot a y \<in> {sl y, sl x}"
proof -
  obtain ys z where xs: "xs = ys @ [z]" using d(2) by (cases xs rule: rev_cases) auto
  show "rindex a = r" using f by (auto simp: a_def spec_remove_def Let_def)
  show "slot a y \<in> {sl y, sl x}" by (simp add: a_def spec_remove_def Let_def)
  show "set (order a) = set xs - {x}"
  proof (cases "x = z \<or> fin")
    case True
    then show ?thesis using d xs f by (auto simp: a_def spec_remove_def Let_def)
  next
    case False
    then have "a = spec_remove n False x \<lparr>order = xs, slot = sl, rindex = r\<rparr>" by (simp add: a_def)
    then show ?thesis using spec_remove_waiting(2) [OF d(1) d(2) refl, where n = n and sl = sl and r = r] by simp
  qed
qed

lemma remove_empty_slot:
  assumes ok: "rlist_ok s xs" and sl: "slots_ok s xs" and x: "x \<in> set xs" and e: "fst (SyncQueue_isEmpty x s)"
  obtains s' ys where "readerList_remove x s = Inr s'" "rlist_ok s' ys" "set ys = set xs - {x}" "list_frame s s'"
    "readIndex s' = readIndex s" "\<And>y. rd_index s' y \<in> {rd_index s y, rd_index s x}"
    "\<And>y. ri_inQueue (readers s' y) \<longleftrightarrow> y \<noteq> x \<and> ri_inQueue (readers s y)"
proof -
  have d: "distinct xs" using ok by (simp add: rlist_ok_def)
  have "\<exists>s' a. readerList_remove x s = Inr s' \<and> flags_set s x False False False s' \<and> rl_post s a s' \<and>
      set (order a) = set xs - {x} \<and> rindex a = readIndex s \<and> (\<forall>y. slot a y \<in> {rd_index s y, rd_index s x})"
  proof (cases "xs = [x]")
    case True
    from remove_last_empty [OF ok [unfolded True] e] obtain s' where "readerList_remove x s = Inr s'"
      "flags_set s x False False False s'" "rl_post s \<lparr>order = [], slot = rd_index s, rindex = readIndex s\<rparr> s'" by blast
    then show ?thesis
      using True by (intro exI [of _ s'] exI [of _ "\<lparr>order = [], slot = rd_index s, rindex = readIndex s\<rparr>"]) simp
  next
    case False
    from readerList_remove_refines [OF ok sl x] False obtain s' where s': "readerList_remove x s = Inr s'"
      "flags_set s x False False False s'" "rl_post s (spec_remove (ring_size s) (ri_isDone (readers s x)) x (rl_abs s xs)) s'"
      by blast
    have "xs = [x] \<Longrightarrow> \<not> ri_isDone (readers s x)" using False by blast
    note a = spec_remove_slots [OF d x this, of "ring_size s" "rd_index s" "readIndex s", folded rl_abs_def]
    show ?thesis using s' a by blast
  qed
  then obtain s' a where s': "readerList_remove x s = Inr s'" "flags_set s x False False False s'" "rl_post s a s'"
    "set (order a) = set xs - {x}" "rindex a = readIndex s" "\<And>y. slot a y \<in> {rd_index s y, rd_index s x}" by blast
  note p = rl_postD [OF s'(3)]
  show thesis
    by (rule that [OF s'(1) p(1) s'(4) p(2)]) (use p(3,4) s'(2,5,6) in \<open>auto simp: flags_set_def\<close>)
qed

text \<open>
  \<open>leaving\<close>: what holds of the queue while readers leave. Everything written has been delivered, nothing is in use, and
  the readers that are left wait at unwritten slots; who has handled what is not recorded any more, because the order of
  the positions is lost when the list spans the ring.
\<close>

definition leaving :: "('e, 'm) entry_ops \<Rightarrow> ('e, 'm) sqc \<Rightarrow> bool" where
  "leaving ops c \<longleftrightarrow> (\<exists>xs R D. ring_part ops c R D \<and> writer_part ops c \<and> rlist_ok (sq c) xs \<and>
     (\<forall>y \<in> set xs. \<exists>k. rd_index (sq c) y = slotAt (sq c) k \<and> int k < ring_size (sq c) \<and> liveCount (sq c) \<le> k) \<and>
     distinct D \<and> set D = {..<R} \<and> map snd (delivered c) = map (\<lambda>p. accepted c ! p) D) \<and>
     moved c = {} \<and> held c = Map.empty"

lemma ring_frame:
  assumes fr: "list_frame (sq c) s" and ri: "readIndex s = readIndex (sq c)"
  shows "ring_part ops c R D \<Longrightarrow> ring_part ops (c\<lparr>sq := s\<rparr>) R D" "writer_part ops c \<Longrightarrow> writer_part ops (c\<lparr>sq := s\<rparr>)"
    "slotAt s k = slotAt (sq c) k" "ring_size s = ring_size (sq c)" "liveCount s = liveCount (sq c)"
proof -
  have same: "same_ring (sq c) s" using list_frameD [OF fr] ri by (simp add: same_ring_def)
  note sm = same_ringD [OF same]
  show "ring_part ops c R D \<Longrightarrow> ring_part ops (c\<lparr>sq := s\<rparr>) R D" using sm by (simp add: ring_part_def)
  have "stored ops s e = stored ops (sq c) e" for e
    using sm(3,8,10) by (simp add: stored_def sm)
  then show "writer_part ops c \<Longrightarrow> writer_part ops (c\<lparr>sq := s\<rparr>)"
    using sm by (auto simp: writer_part_def split: writer_pc.splits)
  show "slotAt s k = slotAt (sq c) k" "ring_size s = ring_size (sq c)" "liveCount s = liveCount (sq c)" using sm by simp_all
qed

text \<open>When every reader waits at an unwritten slot, the readers may leave.\<close>

lemma delivered_positions:
  assumes inv: "sq_inv ops c xs R pos D" and e: "\<And>x. x \<in> set xs \<Longrightarrow> length (accepted c) \<le> pos x"
  shows "set D = {..<R}" and "xs \<noteq> [] \<Longrightarrow> R = length (accepted c)"
proof -
  have r: "ring_part ops c R D" and l: "list_part c xs R pos" and d: "deliv_part c xs R pos D"
    using inv by (simp_all add: sq_inv_def)
  note R = ring_partD [OF r] and L = list_partD [OF l]
  show Rn: "xs \<noteq> [] \<Longrightarrow> R = length (accepted c)"
  proof -
    assume "xs \<noteq> []"
    then have "pos (hd xs) = R" "length (accepted c) \<le> pos (hd xs)" using L(6) e [OF hd_in_set] by blast+
    then show "R = length (accepted c)" using R(4) by simp
  qed
  have low: "p < length (accepted c)" if "p \<in> set D" for p using d that by (simp add: deliv_part_def)
  have pe: "length (accepted c) \<le> pos x" if "pending c x" for x using e [of x] L(3) [of x] that by (simp add: pending_def)
  have "p \<in> set D \<longleftrightarrow> p < R" for p
  proof (cases "xs = []")
    case True
    then have "\<not> pending c x" for x using L(3) [of x] by (simp add: pending_def)
    then show ?thesis using d True by (simp add: deliv_part_def claimed_def)
  next
    case False
    have "p \<in> set D" if "p < R"
    proof -
      have "p \<le> pos (last xs)" using e [of "last xs"] False Rn [OF False] that by simp
      then have "p \<in> set D \<or> (\<exists>x. pending c x \<and> pos x = p)" using d False by (simp add: deliv_part_def claimed_def)
      then show ?thesis using pe that Rn [OF False] by fastforce
    qed
    then show ?thesis using low [of p] Rn [OF False] by blast
  qed
  then show "set D = {..<R}" by auto
qed

lemma leaving_start:
  assumes inv: "sq_inv ops c xs R pos D" and e: "\<And>x. x \<in> set xs \<Longrightarrow> length (accepted c) \<le> pos x"
    and free: "moved c = {}" "held c = Map.empty"
  shows "leaving ops c"
proof -
  have r: "ring_part ops c R D" and l: "list_part c xs R pos" and d: "deliv_part c xs R pos D" and w: "writer_part ops c"
    using inv by (simp_all add: sq_inv_def)
  note L = list_partD [OF l] and Rg = ring_partD [OF r]
  have k: "\<exists>k. rd_index (sq c) y = slotAt (sq c) k \<and> int k < ring_size (sq c) \<and> liveCount (sq c) \<le> k" if y: "y \<in> set xs" for y
    using L(7-9) [OF y] Rg(6) e [OF y] by (intro exI [of _ "pos y - R"]) simp
  have D: "distinct D" "map snd (delivered c) = map (\<lambda>p. accepted c ! p) D" using d by (simp_all add: deliv_part_def)
  show ?thesis
    unfolding leaving_def using r w L(1) k D delivered_positions(1) [OF inv e] free by blast
qed

lemma leave_ok:
  assumes lv: "leaving ops c" and x: "listed c x"
  obtains s where "endAccess x (sq c) = Inr s" "leaving ops (c\<lparr>sq := s\<rparr>)" "\<And>y. ri_inQueue (readers s y) \<longleftrightarrow> y \<noteq> x \<and> listed c y"
proof -
  obtain xs R D where ring: "ring_part ops c R D" "writer_part ops c" and ok: "rlist_ok (sq c) xs"
    and sl: "\<And>y. y \<in> set xs \<Longrightarrow> \<exists>k. rd_index (sq c) y = slotAt (sq c) k \<and> int k < ring_size (sq c) \<and> liveCount (sq c) \<le> k"
    and D: "distinct D" "set D = {..<R}" "map snd (delivered c) = map (\<lambda>p. accepted c ! p) D"
    and free: "moved c = {}" "held c = Map.empty" using lv unfolding leaving_def by blast
  note Rg = ring_partD [OF ring(1)]
  have xl: "x \<in> set xs" using ok x unfolding rlist_ok_def by blast
  obtain k where k: "rd_index (sq c) x = slotAt (sq c) k" "int k < ring_size (sq c)" "liveCount (sq c) \<le> k" using sl [OF xl] by blast
  have e: "fst (SyncQueue_isEmpty x (sq c))" using SyncQueue_isEmpty_iff [OF Rg(2) k(1,2)] k(3) by simp
  have so: "slots_ok (sq c) xs"
    unfolding slots_ok_def
  proof (intro conjI ballI)
    show "2 \<le> ring_size (sq c)" "ring_size (sq c) \<le> 1073741824" using Rg(3) ring_okD(3) [OF Rg(2)] by simp_all
    show "0 \<le> rd_index (sq c) y" "rd_index (sq c) y < ring_size (sq c)" if "y \<in> set xs" for y
      using sl [OF that] slotAt_range [OF Rg(2)] by metis+
  qed
  obtain s ys where s: "readerList_remove x (sq c) = Inr s" "rlist_ok s ys" "set ys = set xs - {x}" "list_frame (sq c) s"
    "readIndex s = readIndex (sq c)" "\<And>y. rd_index s y \<in> {rd_index (sq c) y, rd_index (sq c) x}"
    "\<And>y. ri_inQueue (readers s y) \<longleftrightarrow> y \<noteq> x \<and> ri_inQueue (readers (sq c) y)"
    by (rule remove_empty_slot [OF ok so xl e]) blast
  note fr = ring_frame [OF s(4,5)]
  have "\<exists>k. rd_index s y = slotAt s k \<and> int k < ring_size s \<and> liveCount s \<le> k" if y: "y \<in> set ys" for y
    using sl [of y] sl [OF xl] y s(3) s(6) [of y] fr(3-5) by auto
  then have "leaving ops (c\<lparr>sq := s\<rparr>)"
    unfolding leaving_def using fr(1) [OF ring(1)] fr(2) [OF ring(2)] s(2) D free
    by (intro conjI exI [of _ ys] exI [of _ R] exI [of _ D]) simp_all
  with s(1,7) that show thesis by (simp add: endAccess_def)
qed

text \<open>When all have left, the queue is as if nobody had ever read from it: the processor can be started again.\<close>

lemma leaving_end:
  assumes lv: "leaving ops c" and n: "\<And>x. \<not> listed c x"
  shows "\<exists>R D. sq_inv ops c [] R (\<lambda>_. 0) D"
proof -
  obtain xs R D where ring: "ring_part ops c R D" "writer_part ops c" and ok: "rlist_ok (sq c) xs"
    and D: "distinct D" "set D = {..<R}" "map snd (delivered c) = map (\<lambda>p. accepted c ! p) D"
    and free: "moved c = {}" "held c = Map.empty" using lv unfolding leaving_def by blast
  note Rg = ring_partD [OF ring(1)]
  have "y \<notin> set xs" for y using ok n [of y] by (simp add: rlist_ok_def)
  then have "xs = []" by (cases xs) auto
  then have "rlist_ok (sq c) []" using ok by simp
  then have "list_part c [] R (\<lambda>_. 0)" using free by (simp add: list_part_def)
  moreover have "deliv_part c [] R (\<lambda>_. 0) D" using D n Rg(4) by (auto simp: deliv_part_def claimed_def pending_def)
  moreover have "held_part ops c (\<lambda>_. 0) D" using free by (simp add: held_part_def)
  ultimately show ?thesis using ring unfolding sq_inv_def by blast
qed

section \<open>The phases of a stop\<close>

text \<open>
  The first loop. A worker before the index of the loop is asleep at an unwritten slot. The worker the loop waits for has
  been signalled and, since then, has found no work before it dozes; the caller is woken when that worker falls asleep.
\<close>

abbreviation vacant :: "('e, 'm, 'c) dlc \<Rightarrow> rid \<Rightarrow> bool" where
  "vacant d x \<equiv> fst (SyncQueue_isEmpty x (sq (queue d)))"

definition asleep :: "('e, 'm, 'c) dlc \<Rightarrow> rid \<Rightarrow> bool" where
  "asleep d x \<longleftrightarrow> place (proc d) x = Some WorkSleep \<and> vacant d x"

definition signalled :: "bool \<Rightarrow> Worker \<Rightarrow> bool" where
  "signalled v w \<longleftrightarrow> ctl_at w \<in> {Signalling True, SignalSleep, SignalWoken, NoCall} \<and>
     (ctl_at w = SignalSleep \<and> dozing w \<longrightarrow> v) \<and> (ctl_at w = SignalWoken \<or> ctl_at w = NoCall \<longrightarrow> run_at w = WorkSleep \<and> v)"

definition wakes :: "Worker \<Rightarrow> Worker \<Rightarrow> bool" where
  "wakes w w' \<longleftrightarrow> (run_at w = WorkSleep \<longrightarrow> run_at w' \<noteq> WorkSleep \<longrightarrow> ctl_at w' \<noteq> ctl_at w)"

lemma signalled_w_step:
  assumes "w_step l w w'" and "l \<or> ctl_at w \<noteq> NoCall" and "live w" and "stays w w'" and "wakes w w'" and "signalled v w"
  shows "signalled v w'"
  using assms
  by (induction rule: w_step.induct)
    (auto simp: signalled_def wakes_def live_def stays_def dozing_def worker_ops w_inv_def flags_part_def stopping_part_def
      split: if_splits)

lemma signalled_step:
  assumes "run_step w w'" and "live w" and "stays w w'" and "wakes w w'" and "signalled v w"
  shows "signalled v w'"
  using assms(1)
proof cases
  case Thread
  from signalled_w_step [OF this _ assms(2-5)] show ?thesis by simp
next
  case Continue
  from signalled_w_step [OF this(2) _ assms(2-5)] this(1) show ?thesis by simp
next
  case Wake
  then show ?thesis using assms(4) by (simp add: wakes_def)
next
  case WakePaused
  then show ?thesis using assms(5) by (auto simp: signalled_def dozing_def)
qed

text \<open>The second and third loop: a worker is asleep or has been told to end and goes to its end.\<close>

definition present :: "run_pc \<Rightarrow> bool" where
  "present q \<longleftrightarrow> q \<in> {WorkSleep, WorkWoken, LoopTest, Finalizing}"

definition shutting :: "Worker \<Rightarrow> bool" where
  "shutting w \<longleftrightarrow> w_inv w \<and> (present (run_at w) \<or> run_at w = SignalDead \<or> run_at w = Dead) \<and>
     ctl_at w \<in> {NoCall, StopResume, StopSignal, StopIdle} \<and> (run_at w = WorkSleep \<and> ctl_at w = NoCall \<or> isTerminatedFlag w) \<and>
     (isDeadFlag w \<longrightarrow> run_at w = Dead)"

lemma shutting_w_step:
  assumes "w_step l w w'" and "l \<or> ctl_at w \<noteq> NoCall" and "shutting w" and "wakes w w'"
    and "run_at w = Finalizing \<longrightarrow> run_at w' = Finalizing"
  shows "(present (run_at w') \<longleftrightarrow> present (run_at w)) \<and> (run_at w' = SignalDead \<or> run_at w' = Dead \<or> present (run_at w')) \<and>
    ctl_at w' \<in> {NoCall, StopResume, StopSignal, StopIdle} \<and> (run_at w' = WorkSleep \<and> ctl_at w' = NoCall \<or> isTerminatedFlag w') \<and>
    (isDeadFlag w' \<longrightarrow> run_at w' = Dead)"
  using assms
  by (induction rule: w_step.induct)
    (auto simp: shutting_def present_def wakes_def worker_ops split: if_splits)

lemma shutting_step:
  assumes "run_step w w'" and "shutting w" and "wakes w w'" and "run_at w = Finalizing \<longrightarrow> run_at w' = Finalizing"
  shows "shutting w'" and "present (run_at w') \<longleftrightarrow> present (run_at w)"
proof -
  have i: "w_inv w'" using run_step_inv [OF assms(1)] assms(2) by (simp add: shutting_def)
  have "(present (run_at w') \<longleftrightarrow> present (run_at w)) \<and> (run_at w' = SignalDead \<or> run_at w' = Dead \<or> present (run_at w')) \<and>
    ctl_at w' \<in> {NoCall, StopResume, StopSignal, StopIdle} \<and> (run_at w' = WorkSleep \<and> ctl_at w' = NoCall \<or> isTerminatedFlag w') \<and>
    (isDeadFlag w' \<longrightarrow> run_at w' = Dead)"
    using assms(1)
  proof cases
    case Thread
    show ?thesis by (rule shutting_w_step [OF Thread _ assms(2-4)]) simp
  next
    case Continue
    show ?thesis by (rule shutting_w_step [OF Continue(2) _ assms(2-4)]) (simp add: Continue(1))
  qed (use assms(2,3) in \<open>auto simp: wakes_def shutting_def present_def\<close>)
  note q = this
  show "present (run_at w') \<longleftrightarrow> present (run_at w)" using q by blast
  show "shutting w'" unfolding shutting_def using i conjunct2 [OF q] by (intro conjI) (simp_all add: disj_ac)
qed

lemma shutting_stop: "shutting w \<Longrightarrow> ctl_at w = NoCall \<Longrightarrow> shutting (Worker_stop w) \<and> run_at (Worker_stop w) = run_at w"
  using w_step_inv [OF w_step.CallStop [of w]]
  by (auto simp: shutting_def present_def Worker_stop_def w_inv_def flags_part_def)

end
