(* ===== verification/Shutdown_Invariant.thy ===== *)
theory Shutdown_Invariant
  imports Shutdown
begin

text \<open>
  The invariant of the life of a processor: the invariant of the composed machine while it serves, and one invariant per
  phase of a stop. Each step of \<open>life_step\<close> keeps it or hands over to the next phase.
\<close>

section \<open>The invariant\<close>

definition sig_inv :: "('e, 'm) entry_ops \<Rightarrow> ('e, 'm, 'c) dlc \<Rightarrow> nat \<Rightarrow> bool \<Rightarrow> bool" where
  "sig_inv ops d i b \<longleftrightarrow> dl_core ops d \<and> (\<forall>x<i. asleep d x) \<and>
     (b \<longrightarrow> (\<forall>w. worker (proc d) i = Some w \<longrightarrow> signalled (vacant d i) w))"

definition shut_inv :: "('e, 'm) entry_ops \<Rightarrow> ('e, 'm, 'c) dlc \<Rightarrow> bool" where
  "shut_inv ops d \<longleftrightarrow> leaving ops (queue d) \<and> qp_inv (proc d) \<and> got d = Map.empty \<and>
     (\<forall>x. listed (queue d) x \<longleftrightarrow> (\<exists>q. place (proc d) x = Some q \<and> present q)) \<and>
     (\<forall>x < length (workers (proc d)). \<forall>w. worker (proc d) x = Some w \<longrightarrow> shutting w) \<and>
     (workers (proc d) \<noteq> [] \<longrightarrow> mset (map snd (delivered (queue d))) = mset (accepted (queue d)))"

definition gone_inv :: "('e, 'm) entry_ops \<Rightarrow> ('e, 'm, 'c) dlc \<Rightarrow> bool" where
  "gone_inv ops d \<longleftrightarrow> (\<exists>R pos D. sq_inv ops (queue d) [] R pos D) \<and> qp_inv (proc d) \<and> \<not> qp_isRunningFlag (proc d) \<and>
     moved (queue d) = {} \<and> held (queue d) = Map.empty \<and> got d = Map.empty"

definition life_inv :: "('e, 'm) entry_ops \<Rightarrow> ('e, 'm, 'c) dlc \<Rightarrow> bool" where
  "life_inv ops d \<longleftrightarrow> (if serving (proc d) then dl_inv ops d
     else case qp_at (proc d) of
       Ready \<Rightarrow> gone_inv ops d
     | Loop l i b \<Rightarrow> if l = LSignal then sig_inv ops d i b else if l \<in> {LStop, LJoin} then shut_inv ops d else gone_inv ops d)"

definition no_stop :: "'c QueueProcessor \<Rightarrow> bool" where
  "no_stop p \<longleftrightarrow> (\<forall>l i b. qp_at p = Loop l i b \<longrightarrow> l \<notin> {LSignal, LStop, LJoin})"

lemma not_servingE:
  assumes "\<not> serving p"
  obtains (signal) i b where "qp_at p = Loop LSignal i b" | (shut) l i b where "qp_at p = Loop l i b" "l = LStop \<or> l = LJoin"
  | (gone) "qp_isTerminatedFlag p" "no_stop p"
proof (cases "qp_at p")
  case Ready
  then show thesis using gone assms by (simp add: serving_def no_stop_def)
next
  case (Loop l i b)
  then show thesis using gone signal shut assms by (cases "l \<in> {LSignal, LStop, LJoin}") (auto simp: serving_def no_stop_def)
qed

lemma life_invD:
  assumes "life_inv ops d"
  shows "serving (proc d) \<Longrightarrow> dl_inv ops d" "qp_at (proc d) = Loop LSignal i b \<Longrightarrow> sig_inv ops d i b"
    "qp_at (proc d) = Loop l i b \<Longrightarrow> l = LStop \<or> l = LJoin \<Longrightarrow> shut_inv ops d"
    "\<not> serving (proc d) \<Longrightarrow> no_stop (proc d) \<Longrightarrow> gone_inv ops d"
  using assms by (auto simp: life_inv_def serving_def no_stop_def split: qp_pc.splits)

lemma life_invI:
  "serving (proc d) \<Longrightarrow> dl_inv ops d \<Longrightarrow> life_inv ops d"
  "qp_at (proc d) = Loop LSignal i b \<Longrightarrow> sig_inv ops d i b \<Longrightarrow> life_inv ops d"
  "qp_at (proc d) = Loop l i b \<Longrightarrow> l = LStop \<or> l = LJoin \<Longrightarrow> shut_inv ops d \<Longrightarrow> life_inv ops d"
  "qp_isTerminatedFlag (proc d) \<Longrightarrow> no_stop (proc d) \<Longrightarrow>
    gone_inv ops d \<Longrightarrow> life_inv ops d"
  by (auto simp: life_inv_def serving_def no_stop_def split: qp_pc.splits)

section \<open>The first loop\<close>

lemma sig_range: "dl_core ops d \<Longrightarrow> qp_at (proc d) = Loop l i b \<Longrightarrow> i \<le> length (workers (proc d)) \<and> (b \<longrightarrow> i < length (workers (proc d)))"
  by (simp add: dl_core_def qp_inv_def size_part_def)

lemma asleep_listed: "dl_core ops d \<Longrightarrow> asleep d x \<Longrightarrow> listed (queue d) x"
  using core_reader(1) by (fastforce simp: asleep_def)

lemma sig_visit:
  assumes inv: "sig_inv ops d i b" and a: "qp_at (proc d) = Loop LSignal i b" and v: "visit ops d x q q' c g"
  shows "sig_inv ops (visiting d x q' c g) i b"
proof -
  let ?d = "visiting d x q' c g"
  have core: "dl_core ops d" using inv by (simp add: sig_inv_def)
  have x: "place (proc d) x = Some q" "calls q q'" "q' = TestTerminated \<Longrightarrow> fst (SyncQueue_isEmpty x (sq c))"
    using v by (simp_all add: visit_def)
  have other: "vacant ?d y = vacant d y" if "y \<noteq> x" "listed (queue d) y" for y
    using visit_others [OF v that] by simp
  have "asleep ?d y" if y: "y < i" for y
  proof -
    have s: "asleep d y" using inv y by (simp add: sig_inv_def)
    have "y \<noteq> x" using s x(1,2) by (auto simp: asleep_def calls_def)
    then show ?thesis using s other asleep_listed [OF core s] visit_place [OF v] by (simp add: asleep_def)
  qed
  moreover have "signalled (vacant ?d i) w'" if b: b and w': "worker (proc ?d) i = Some w'" for w'
  proof -
    have i: "i < length (workers (proc d))" using sig_range [OF core a] b by simp
    obtain w where w: "worker (proc d) i = Some w" "w' = (if x = i then run_goto q' w else w)"
      using w' goto_worker [OF i, of x q'] by (auto split: if_splits)
    have s: "signalled (vacant d i) w" using inv b w(1) by (simp add: sig_inv_def)
    show ?thesis
    proof (cases "x = i")
      case True
      then have "run_at w = q" using x(1) w(1) by (simp add: place_eq)
      then have "run_at w \<noteq> WorkSleep" using x(2) by (auto simp: calls_def)
      then show ?thesis using s w(2) True x(2,3) by (auto simp: signalled_def dozing_def calls_def)
    next
      case False
      have "place (proc d) i = Some (run_at w)" using i w(1) by (simp add: place_def)
      then have "listed (queue d) i" if "run_at w \<noteq> Init" using core_reader(1) [OF core] that by blast
      then have "vacant ?d i = vacant d i" if "dozing w \<or> run_at w = WorkSleep"
        using that other [of i] False by (auto simp: dozing_def)
      then show ?thesis using s w(2) False by (auto simp: signalled_def)
    qed
  qed
  ultimately show ?thesis using visit_core [OF v core] by (simp add: sig_inv_def)
qed

lemma sig_feed:
  assumes inv: "sig_inv ops d i b" and a: "qp_at (proc d) = Loop LSignal i b" and f: "fed ops d c" "accepted c = accepted (queue d)"
  shows "sig_inv ops (feeding d c) i b"
proof -
  have core: "dl_core ops d" using inv by (simp add: sig_inv_def)
  have v: "vacant (feeding d c) y = vacant d y" if "listed (queue d) y" for y using fed_empty [OF f that] by simp
  have "asleep (feeding d c) y" if "y < i" for y
  proof -
    have s: "asleep d y" using inv that by (simp add: sig_inv_def)
    then show ?thesis using v [OF asleep_listed [OF core s]] by (simp add: asleep_def)
  qed
  moreover have "signalled (vacant (feeding d c) i) w" if b: b and w: "worker (proc d) i = Some w" for w
  proof -
    have i: "i < length (workers (proc d))" using sig_range [OF core a] b by simp
    have s: "signalled (vacant d i) w" using inv b w by (simp add: sig_inv_def)
    have "place (proc d) i = Some (run_at w)" using i w by (simp add: place_def)
    then have "listed (queue d) i" if "run_at w \<noteq> Init" using core_reader(1) [OF core] that by blast
    then have "vacant (feeding d c) i = vacant d i" if "dozing w \<or> run_at w = WorkSleep"
      using that v [of i] by (auto simp: dozing_def)
    then show ?thesis using s by (auto simp: signalled_def)
  qed
  ultimately show ?thesis using fed_core [OF f(1) core] by (simp add: sig_inv_def)
qed

lemma settledD:
  assumes "settled p p'" and "x < length (workers p)" "worker p x = Some w" and "x < length (workers p')" "worker p' x = Some w'"
  shows "stays w w'" "run_at w = Finalizing \<longrightarrow> run_at w' = Finalizing" "wakes w w'"
proof -
  have pl: "place p x = Some (run_at w)" "place p' x = Some (run_at w')" using assms(2-5) by (simp_all add: place_def)
  have s: "parked p p'" "place p x = Some Finalizing \<longrightarrow> place p' x = Some Finalizing" using assms(1) by (simp_all add: settled_def)
  show "stays w w'"
    unfolding stays_def
  proof
    assume "run_at w \<in> {Init, Working, WorkSection}"
    then have "place p' x = Some (run_at w)" using s(1) pl(1) unfolding parked_def by blast
    then show "run_at w' = run_at w" using pl(2) by simp
  qed
  show "run_at w = Finalizing \<longrightarrow> run_at w' = Finalizing" using s(2) pl by auto
  show "wakes w w'" using assms by (simp add: settled_def wakes_def)
qed

lemma sig_operate:
  assumes inv: "sig_inv ops d i b" and a: "qp_at (proc d) = Loop LSignal i b"
    and st: "qp_step (proc d) p" "settled (proc d) p" and a': "qp_at p = Loop LSignal i' b'"
  shows "sig_inv ops (d\<lparr>proc := p\<rparr>) i' b'"
proof -
  have core: "dl_core ops d" using inv by (simp add: sig_inv_def)
  note I = dl_coreD [OF core]
  have "upright p" using a' by (simp add: upright_def)
  then have core': "dl_core ops (d\<lparr>proc := p\<rparr>)"
    using operate_core [OF core st(1) _ _, of "owed d"] st(2) by (simp add: settled_def)
  have len: "i \<le> length (workers (proc d))" using sig_range [OF core a] by simp
  have slp: "asleep d y" if "y < i" for y using inv that by (simp add: sig_inv_def)
  have calm: "ctl_at w = NoCall" if y: "y < i" "worker (proc d) y = Some w" for y w
  proof -
    have "y < length (workers (proc d))" using y(1) len by simp
    then have "ctl_at w = NoCall \<or> (\<exists>l. qp_at (proc d) = Loop l y True)"
      using I(1) y(2) unfolding qp_inv_def safe_part_def by blast
    then show ?thesis using a y(1) by simp
  qed
  have "(\<forall>y<i'. asleep (d\<lparr>proc := p\<rparr>) y) \<and> (b' \<longrightarrow> (\<forall>w. worker p i' = Some w \<longrightarrow> signalled (vacant d i') w))"
    using st(1)
  proof cases
    case (Run j w w')
    then have e: "i' = i" "b' = b" "length (workers p) = length (workers (proc d))" using a a' by simp_all
    note D = settledD [OF st(2) Run(2,3)]
    have w': "j < length (workers p)" "worker p j = Some w'" using Run(1,2) by simp_all
    have pl: "place p y = (if y = j then Some (run_at w') else place (proc d) y)" for y
      using Run(1,2) by (simp add: place_def)
    have "asleep (d\<lparr>proc := p\<rparr>) y" if y: "y < i" for y
    proof (cases "y = j")
      case True
      have "run_at w = WorkSleep" using slp [OF y] Run(2,3) True by (simp add: asleep_def place_def)
      moreover have "ctl_at w' = ctl_at w" using run_NoCall [OF Run(4)] calm [OF y] Run(3) True by simp
      ultimately have "run_at w' = WorkSleep" using D(3) [OF w'] by (simp add: wakes_def)
      then show ?thesis using slp [OF y] pl True by (simp add: asleep_def)
    next
      case False
      then show ?thesis using slp [OF y] pl by (simp add: asleep_def)
    qed
    moreover have "signalled (vacant d i) v" if bb: b and v: "worker p i = Some v" for v
    proof -
      have i: "i < length (workers (proc d))" using sig_range [OF core a] bb by simp
      have s: "worker (proc d) i = Some u \<Longrightarrow> signalled (vacant d i) u" for u using inv bb by (simp add: sig_inv_def)
      show ?thesis
      proof (cases "i = j")
        case True
        have "live w" using I(2) Run(2,3) by (simp add: live_part_def)
        from signalled_step [OF Run(4) this D(1,3) [OF w'] s] have "signalled (vacant d i) w'" using Run(3) True by simp
        then show ?thesis using v w'(2) True by simp
      next
        case False
        then show ?thesis using s v Run(1) i by simp
      qed
    qed
    ultimately show ?thesis using e by simp
  next
    case (Call l k w)
    then have e: "k = i" "l = LSignal" "i' = i" "b'" using a a' by simp_all
    have i: "i < length (workers (proc d))" using loopEnd_inv [OF I(1) a] Call(3) e by simp
    have pl: "place p y = place (proc d) y" for y
      using Call(1,6) e i by (cases "y = i") (simp_all add: place_def setWorker_def)
    have "worker p i = Some (ctl_goto (Signalling True) w)" using Call(1) e i by (simp add: setWorker_def)
    then show ?thesis using slp e pl by (simp add: asleep_def signalled_def)
  next
    case (Return l k w)
    then have e: "k = i" "l = LSignal" "i' = Suc i" "\<not> b'" and b: b using a a' by simp_all
    have i: "i < length (workers (proc d))" using sig_range [OF core a] b by simp
    have "signalled (vacant d i) w" using inv b Return(3) e(1) by (simp add: sig_inv_def)
    then have "asleep d i" using Return(3,4) e(1) i by (simp add: signalled_def asleep_def place_def)
    then have "asleep d y" if "y < Suc i" for y using slp that by (cases "y = i") simp_all
    moreover have "place p y = place (proc d) y" for y using Return(1) by (simp add: place_def)
    ultimately show ?thesis using e by (simp add: asleep_def)
  next
    case (Done l k)
    then show ?thesis using a a' by simp
  qed (use a a' in simp_all)
  then show ?thesis using core' by (simp add: sig_inv_def)
qed

text \<open>
  The loop begins, from a processor that is between operations; and when it is over, every worker sleeps at an unwritten
  slot, so that everything accepted has been delivered and the readers may leave.
\<close>

lemma sig_start:
  assumes inv: "dl_inv ops d" and st: "qp_step (proc d) p" "settled (proc d) p" and a: "qp_at p = Loop LSignal 0 False"
  shows "sig_inv ops (d\<lparr>proc := p\<rparr>) 0 False"
proof -
  have "upright p" using a by (simp add: upright_def)
  then show ?thesis
    using operate_core [OF dl_invD(1) [OF inv] st(1) _ _, of "owed d"] st(2) by (simp add: settled_def sig_inv_def)
qed

lemma sig_done:
  assumes inv: "sig_inv ops d i False" and a: "qp_at (proc d) = Loop LSignal i False" and e: "loopEnd LSignal (proc d) \<le> i"
  shows "shut_inv ops (d\<lparr>proc := (proc d)\<lparr>qp_at := Loop LStop 0 False\<rparr>\<rparr>)"
proof -
  let ?p = "(proc d)\<lparr>qp_at := Loop LStop 0 False\<rparr>"
  have core: "dl_core ops d" using inv by (simp add: sig_inv_def)
  note I = dl_coreD [OF core]
  have "i = length (workers (proc d))" using sig_range [OF core a] loopEnd_inv [OF I(1) a] e by simp
  then have slp: "asleep d y" if "y < length (workers (proc d))" for y using inv that by (simp add: sig_inv_def)
  have pl: "place (proc d) y = Some q \<longleftrightarrow> y < length (workers (proc d)) \<and> q = WorkSleep" for y q
    using slp [of y] by (cases "y < length (workers (proc d))") (auto simp: asleep_def place_def)
  have ls: "listed (queue d) y \<longleftrightarrow> y < length (workers (proc d))" for y
    using I(3) pl [of y] by (auto simp: roster_part_def)
  have nw: "place (proc d) y \<noteq> Some Working" for y using pl by simp
  have free: "moved (queue d) = {}" "held (queue d) = Map.empty" "got d = Map.empty"
    using I(4) nw unfolding busy_part_def by blast+
  obtain xs R pos D where c: "sq_inv ops (queue d) xs R pos D" by (rule core_queue [OF core])
  have xs: "y \<in> set xs \<longleftrightarrow> y < length (workers (proc d))" for y using inv_listed [OF c] ls by simp
  have pos: "length (accepted (queue d)) \<le> pos y" if "y \<in> set xs" for y
    using empty_iff [OF c] slp [of y] xs [of y] ls [of y] that by (simp add: asleep_def)
  have "leaving ops (queue d)" by (rule leaving_start [OF c pos free(1,2)])
  moreover have "qp_inv ?p" using qp_step_inv [OF qp_step.Done [OF a e] I(1)] by simp
  moreover have "shutting w" if w: "y < length (workers (proc d))" "worker (proc d) y = Some w" for y w
  proof -
    have "live w" using I(2) w by (simp add: live_part_def)
    moreover have "run_at w = WorkSleep" using slp [OF w(1)] w by (simp add: asleep_def place_def)
    moreover have "ctl_at w = NoCall" using inv_NoCall(1) [OF I(1) w] a by simp
    ultimately show ?thesis by (simp add: shutting_def present_def live_def)
  qed
  moreover have "mset (map snd (delivered (queue d))) = mset (accepted (queue d))" if "workers (proc d) \<noteq> []"
  proof -
    have "0 \<in> set xs" using xs that by simp
    then have "xs \<noteq> []" by auto
    from all_empty_mset [OF c this pos] show ?thesis .
  qed
  moreover have "listed (queue d) y \<longleftrightarrow> (\<exists>q. place ?p y = Some q \<and> present q)" for y
    using ls pl [of y] by (auto simp: place_def present_def)
  ultimately show ?thesis using free(3) by (simp add: shut_inv_def)
qed

section \<open>The second and the third loop\<close>

lemma shutD:
  assumes "shut_inv ops d"
  shows "leaving ops (queue d)" "qp_inv (proc d)" "got d = Map.empty"
    "listed (queue d) x \<longleftrightarrow> (\<exists>q. place (proc d) x = Some q \<and> present q)"
    "x < length (workers (proc d)) \<Longrightarrow> worker (proc d) x = Some w \<Longrightarrow> shutting w"
    "workers (proc d) \<noteq> [] \<Longrightarrow> mset (map snd (delivered (queue d))) = mset (accepted (queue d))"
  using assms by (simp_all add: shut_inv_def)

lemma shut_place: "shut_inv ops d \<Longrightarrow> place (proc d) x = Some q \<Longrightarrow> present q \<or> q = SignalDead \<or> q = Dead"
  using shutD(5) by (fastforce simp: place_eq shutting_def)

text \<open>The processor moves on: workers keep their shape, and who is in the reader list stays.\<close>

lemma shut_keep:
  assumes inv: "shut_inv ops d" and st: "qp_step (proc d) p" and len: "length (workers p) = length (workers (proc d))"
    and w: "\<And>x w'. x < length (workers p) \<Longrightarrow> worker p x = Some w' \<Longrightarrow> shutting w'"
    and pl: "\<And>x. (\<exists>q. place p x = Some q \<and> present q) \<longleftrightarrow> (\<exists>q. place (proc d) x = Some q \<and> present q)"
  shows "shut_inv ops (d\<lparr>proc := p\<rparr>)"
proof -
  note I = shutD [OF inv]
  have "workers p \<noteq> [] \<longleftrightarrow> workers (proc d) \<noteq> []" using len by (metis length_0_conv)
  then show ?thesis using I(1,3,4,6) qp_step_inv [OF st I(2)] w pl by (simp add: shut_inv_def)
qed

lemma shut_operate:
  assumes inv: "shut_inv ops d" and a: "qp_at (proc d) = Loop l i b" "l = LStop \<or> l = LJoin"
    and st: "qp_step (proc d) p" "settled (proc d) p" and a': "qp_at p = Loop l' i' b'"
  shows "shut_inv ops (d\<lparr>proc := p\<rparr>)" "l' = LStop \<or> l' = LJoin"
proof -
  note I = shutD [OF inv]
  have "shut_inv ops (d\<lparr>proc := p\<rparr>) \<and> (l' = LStop \<or> l' = LJoin)"
    using st(1)
  proof cases
    case (Run j w w')
    have w': "j < length (workers p)" "worker p j = Some w'" using Run(1,2) by simp_all
    note D = settledD [OF st(2) Run(2,3) w']
    note s = shutting_step [OF Run(4) I(5) [OF Run(2,3)] D(3,2)]
    have "shut_inv ops (d\<lparr>proc := p\<rparr>)"
    proof (rule shut_keep [OF inv st(1)])
      show "length (workers p) = length (workers (proc d))" using Run(1) by simp
      show "shutting v" if "x < length (workers p)" "worker p x = Some v" for x v
        using that s(1) I(5) [of x] Run(1) by (simp split: if_splits)
      show "(\<exists>q. place p x = Some q \<and> present q) \<longleftrightarrow> (\<exists>q. place (proc d) x = Some q \<and> present q)" for x
        using s(2) Run(1-3) by (auto simp: place_def)
    qed
    then show ?thesis using a a' Run(1) by simp
  next
    case (Call k j w)
    then have e: "k = LStop" "j = i" using a by auto
    have i: "i < length (workers (proc d))" using loopEnd_inv [OF I(2) a(1)] Call(2,3) e a(1) by simp
    have "ctl_at w = NoCall" using inv_NoCall(1) [OF I(2) i] Call(2,6) e by simp
    then have s: "shutting (Worker_stop w)" "run_at (Worker_stop w) = run_at w"
      using shutting_stop [OF I(5) [OF i]] Call(6) e by simp_all
    have p: "worker p x = (if x = i then Some (Worker_stop w) else worker (proc d) x)" if "x < length (workers (proc d))" for x
      using Call(1) that e by (simp add: setWorker_def)
    have len: "length (workers p) = length (workers (proc d))" using Call(1) by (simp add: setWorker_def)
    have "shut_inv ops (d\<lparr>proc := p\<rparr>)"
    proof (rule shut_keep [OF inv st(1) len])
      show "shutting v" if "x < length (workers p)" "worker p x = Some v" for x v
        using that s(1) I(5) [of x] p len by (simp split: if_splits)
      show "(\<exists>q. place p x = Some q \<and> present q) \<longleftrightarrow> (\<exists>q. place (proc d) x = Some q \<and> present q)" for x
        using s(2) p Call(6) e len by (auto simp: place_def)
    qed
    then show ?thesis using a a' Call(1) e by simp
  next
    case (Join j w)
    then have e: "j = i" using a by auto
    have i: "i < length (workers (proc d))" using loopEnd_inv [OF I(2) Join(2)] Join(3) e by simp
    have "run_at w = Dead" using I(5) [OF i] Join(4,5) e by (simp add: shutting_def Worker_join_def)
    then have nd: "\<not> present (run_at w)" by (simp add: present_def)
    have len: "length (workers p) = length (workers (proc d))" using Join(1) by (simp add: setWorker_def)
    have p: "worker p x = (if x = i then None else worker (proc d) x)" if "x < length (workers (proc d))" for x
      using Join(1) that e by (simp add: setWorker_def)
    have "shut_inv ops (d\<lparr>proc := p\<rparr>)"
    proof (rule shut_keep [OF inv st(1) len])
      show "shutting v" if "x < length (workers p)" "worker p x = Some v" for x v
        using that I(5) [of x] p len by (simp split: if_splits)
      show "(\<exists>q. place p x = Some q \<and> present q) \<longleftrightarrow> (\<exists>q. place (proc d) x = Some q \<and> present q)" for x
        using nd p Join(4) e len by (auto simp: place_def)
    qed
    then show ?thesis using a a' Join(1) by simp
  next
    case (Return k j w)
    have "shut_inv ops (d\<lparr>proc := p\<rparr>)"
      by (rule shut_keep [OF inv st(1)]) (use Return(1) I(5) in \<open>auto simp: place_def\<close>)
    then show ?thesis using a a' Return(1,2) by auto
  next
    case (Done k j)
    have "k = LStop" using a a' Done(1,2) by (auto simp: stop_end_def)
    then have p: "p = (proc d)\<lparr>qp_at := Loop LJoin 0 False\<rparr>" using Done(1) by simp
    have "shut_inv ops (d\<lparr>proc := p\<rparr>)"
      by (rule shut_keep [OF inv st(1)]) (use p I(5) in \<open>auto simp: place_def\<close>)
    then show ?thesis using a' p by simp
  qed (use a a' in auto)
  then show "shut_inv ops (d\<lparr>proc := p\<rparr>)" "l' = LStop \<or> l' = LJoin" by simp_all
qed

text \<open>When the third loop is over, all readers have left: the processor is as new, or it is terminated.\<close>

lemma loop_range: "qp_inv p \<Longrightarrow> qp_at p = Loop l i b \<Longrightarrow> i \<le> length (workers p)"
  unfolding qp_inv_def size_part_def by blast

lemma no_place: "(\<And>x. x < length (workers p) \<Longrightarrow> worker p x = None) \<Longrightarrow> place p x = None"
  by (simp add: place_def)

lemma shut_end:
  assumes inv: "shut_inv ops d" and a: "qp_at (proc d) = Loop LJoin i False" and e: "loopEnd LJoin (proc d) \<le> i"
  shows "life_inv ops (d\<lparr>proc := stop_end (proc d)\<rparr>)" and "\<not> listed (queue d) x"
    and "workers (proc d) \<noteq> [] \<Longrightarrow> mset (map snd (delivered (queue d))) = mset (accepted (queue d))" and "held (queue d) = Map.empty"
proof -
  note I = shutD [OF inv]
  have i: "i = length (workers (proc d))"
    using loop_range [OF I(2) a] e loopEnd_inv [OF I(2) a] by simp
  have w: "worker (proc d) y = None" if "y < length (workers (proc d))" for y
    using I(2) a i that by (auto simp: qp_inv_def exists_part_def)
  have nl: "\<not> listed (queue d) y" for y using I(4) no_place [OF w, of y] by simp
  then show "\<not> listed (queue d) x" .
  show "workers (proc d) \<noteq> [] \<Longrightarrow> mset (map snd (delivered (queue d))) = mset (accepted (queue d))" by (rule I(6))
  have free: "moved (queue d) = {}" "held (queue d) = Map.empty" using I(1) by (simp_all add: leaving_def)
  show "held (queue d) = Map.empty" by (rule free(2))
  obtain R D where c: "sq_inv ops (queue d) [] R (\<lambda>_. 0) D" using leaving_end [OF I(1) nl] by blast
  let ?p = "stop_end (proc d)"
  have ip: "qp_inv ?p" using qp_step_inv [OF qp_step.Done [OF a e] I(2)] by simp
  have w': "worker ?p y = None" if "y < length (workers ?p)" for y
    using that w by (simp add: stop_end_def split: if_splits)
  have pl: "place ?p y = None" for y by (rule no_place [OF w'])
  show "life_inv ops (d\<lparr>proc := ?p\<rparr>)"
  proof (cases "qp_isTerminatedFlag (proc d)")
    case True
    have "gone_inv ops (d\<lparr>proc := ?p\<rparr>)" using c ip free I(3) by (auto simp: gone_inv_def stop_end_def)
    then show ?thesis using True by (intro life_invI(4)) (simp_all add: stop_end_def no_stop_def)
  next
    case False
    then have s: "serving ?p" by (simp add: serving_def stop_end_def)
    have "dl_core ops (d\<lparr>proc := ?p\<rparr>)"
      using c ip free I(3) pl nl w' serving_upright [OF s]
      by (auto simp: dl_core_def live_part_def roster_part_def busy_part_def)
    moreover have "doze_part (d\<lparr>proc := ?p\<rparr>)" using w' by (simp add: doze_part_def)
    ultimately show ?thesis using s by (intro life_invI(1)) (simp_all add: dl_inv_def)
  qed
qed

section \<open>A terminated processor\<close>

lemma gone_place: "gone_inv ops d \<Longrightarrow> no_stop (proc d) \<Longrightarrow>
    place (proc d) x = None \<and> (x < length (workers (proc d)) \<longrightarrow> worker (proc d) x = None)"
proof -
  assume g: "gone_inv ops d" and a: "no_stop (proc d)"
  have "worker (proc d) y = None" if "y < length (workers (proc d))" for y
    using g that by (cases "qp_at (proc d)") (auto simp: gone_inv_def qp_inv_def exists_part_def size_part_def no_stop_def)
  then show ?thesis using no_place by blast
qed

lemma terminated_keeps: "qp_step p p' \<Longrightarrow> qp_isTerminatedFlag p \<Longrightarrow> qp_isTerminatedFlag p'"
proof (induction rule: qp_step.induct)
  case (Done p l i)
  then show ?case by (cases l) (simp_all add: qp_ops)
qed (simp_all add: qp_ops)

lemma gone_step:
  assumes "qp_step p p'" and "qp_isTerminatedFlag p" and "\<not> qp_isRunningFlag p" and "qp_inv p"
  shows "\<not> qp_isRunningFlag p'" and "qp_at p' = Loop l i b \<Longrightarrow> l = LBroadcast"
proof -
  have l: "qp_at p = Loop l i b \<Longrightarrow> l = LBroadcast" for l i b using assms(3,4) by (auto simp: qp_inv_def size_part_def)
  have "\<not> qp_isRunningFlag p' \<and> (qp_at p' = Loop l i b \<longrightarrow> l = LBroadcast)"
    using assms(1)
  proof cases
    case (Done k j)
    then show ?thesis using l [OF Done(2)] assms(3) by simp
  qed (use assms(2,3) l in \<open>auto simp: qp_ops split: if_splits\<close>)
  then show "\<not> qp_isRunningFlag p'" "qp_at p' = Loop l i b \<Longrightarrow> l = LBroadcast" by simp_all
qed

lemma gone_operate:
  assumes g: "gone_inv ops d" and t: "qp_isTerminatedFlag (proc d)" and st: "qp_step (proc d) p"
  shows "life_inv ops (d\<lparr>proc := p, owed := n\<rparr>)"
proof -
  have i: "\<not> qp_isRunningFlag (proc d)" "qp_inv (proc d)" using g by (simp_all add: gone_inv_def)
  note s = gone_step [OF st t i]
  have "gone_inv ops (d\<lparr>proc := p, owed := n\<rparr>)" using g s(1) qp_step_inv [OF st i(2)] by (simp add: gone_inv_def)
  then show ?thesis using terminated_keeps [OF st t] s(2) by (intro life_invI(4)) (auto simp: no_stop_def)
qed

section \<open>From phase to phase\<close>

lemma halt_start:
  assumes "qp_step p p'" and "serving p" and "\<not> serving p'"
  shows "qp_at p' = Loop LSignal 0 False \<or> qp_at p' = Ready \<and> qp_isTerminatedFlag p' \<and> \<not> qp_isRunningFlag p' \<and> workers p' = [] \<and>
    qp_at p = Ready \<and> \<not> qp_isRunningFlag p"
  using assms
proof (induction rule: qp_step.induct)
  case (Done p l i)
  then show ?case by (cases l) (auto simp: serving_def qp_ops split: if_splits)
qed (auto simp: serving_def qp_ops split: if_splits)

lemma signal_next:
  assumes "qp_step p p'" and "qp_at p = Loop LSignal i b"
  shows "(\<exists>j b'. qp_at p' = Loop LSignal j b') \<or> \<not> b \<and> loopEnd LSignal p \<le> i \<and> p' = p\<lparr>qp_at := Loop LStop 0 False\<rparr>"
  using assms by (induction rule: qp_step.induct) auto

lemma shut_next:
  assumes "qp_step p p'" and "qp_at p = Loop l i b" and "l = LStop \<or> l = LJoin"
  shows "(\<exists>k j b'. qp_at p' = Loop k j b' \<and> (k = LStop \<or> k = LJoin)) \<or> l = LJoin \<and> \<not> b \<and> loopEnd LJoin p \<le> i \<and> p' = stop_end p"
  using assms by (induction rule: qp_step.induct) auto

lemma nobody_gone:
  assumes core: "dl_core ops d" and st: "qp_step (proc d) p" "parked (proc d) p" and p: "workers p = []" "\<not> qp_isRunningFlag p"
    and r: "\<not> qp_isRunningFlag (proc d)" "qp_at (proc d) = Ready"
  shows "gone_inv ops (d\<lparr>proc := p\<rparr>)"
proof -
  note I = dl_coreD [OF core]
  have "worker (proc d) y = None" if "y < length (workers (proc d))" for y
    using I(1) r that by (simp add: qp_inv_def exists_part_def)
  then have pl: "place (proc d) y = None" for y by (rule no_place)
  obtain xs R pos D where c: "sq_inv ops (queue d) xs R pos D" by (rule core_queue [OF core])
  have "\<not> listed (queue d) y" for y using I(3) pl by (simp add: roster_part_def)
  then have "y \<notin> set xs" for y using inv_listed [OF c] by simp
  then have "xs = []" by (cases xs) auto
  moreover have "moved (queue d) = {}" "held (queue d) = Map.empty" "got d = Map.empty"
    using I(4) pl unfolding busy_part_def by (metis all_not_in_conv ext option.distinct(1))+
  ultimately show ?thesis using c p qp_step_inv [OF st(1) I(1)] unfolding gone_inv_def by auto
qed

lemma halt_inv:
  assumes inv: "life_inv ops d" and st: "qp_step (proc d) p" "settled (proc d) p" and n: "\<not> serving (proc d) \<or> \<not> serving p"
  shows "life_inv ops (d\<lparr>proc := p\<rparr>)"
proof (cases "serving (proc d)")
  case True
  have i: "dl_inv ops d" by (rule life_invD(1) [OF inv True])
  from n True have "\<not> serving p" by simp
  from halt_start [OF st(1) True this] show ?thesis
  proof
    assume a: "qp_at p = Loop LSignal 0 False"
    show ?thesis by (rule life_invI(2)) (use a sig_start [OF i st a] in simp_all)
  next
    assume a: "qp_at p = Ready \<and> qp_isTerminatedFlag p \<and> \<not> qp_isRunningFlag p \<and> workers p = [] \<and>
      qp_at (proc d) = Ready \<and> \<not> qp_isRunningFlag (proc d)"
    have "gone_inv ops (d\<lparr>proc := p\<rparr>)"
      by (rule nobody_gone [OF dl_invD(1) [OF i] st(1)]) (use a st(2) in \<open>simp_all add: settled_def\<close>)
    then show ?thesis using a by (intro life_invI(4)) (simp_all add: no_stop_def)
  qed
next
  case False
  then show ?thesis
  proof (cases rule: not_servingE)
    case (signal i b)
    note s = life_invD(2) [OF inv signal]
    from signal_next [OF st(1) signal] show ?thesis
    proof
      assume "\<exists>j b'. qp_at p = Loop LSignal j b'"
      then obtain j b' where a: "qp_at p = Loop LSignal j b'" by blast
      show ?thesis by (rule life_invI(2)) (use a sig_operate [OF s signal st a] in simp_all)
    next
      assume e: "\<not> b \<and> loopEnd LSignal (proc d) \<le> i \<and> p = (proc d)\<lparr>qp_at := Loop LStop 0 False\<rparr>"
      have "shut_inv ops (d\<lparr>proc := p\<rparr>)" using sig_done [of ops d i] s signal e by simp
      then show ?thesis using e by (intro life_invI(3) [where l = LStop and i = 0 and b = False]) simp_all
    qed
  next
    case (shut l i b)
    note s = life_invD(3) [OF inv shut]
    from shut_next [OF st(1) shut] show ?thesis
    proof
      assume "\<exists>k j b'. qp_at p = Loop k j b' \<and> (k = LStop \<or> k = LJoin)"
      then obtain k j b' where a: "qp_at p = Loop k j b'" "k = LStop \<or> k = LJoin" by blast
      show ?thesis by (rule life_invI(3)) (use a shut_operate(1) [OF s shut st a(1)] in simp_all)
    next
      assume e: "l = LJoin \<and> \<not> b \<and> loopEnd LJoin (proc d) \<le> i \<and> p = stop_end (proc d)"
      then show ?thesis using shut_end(1) [OF s, of i] shut(1) by simp
    qed
  next
    case gone
    from gone_operate [OF life_invD(4) [OF inv False gone(2)] gone(1) st(1), of "owed d"] show ?thesis by simp
  qed
qed

text \<open>While readers leave or after that, no worker is inside \<^verbatim>\<open>init\<close>, \<^verbatim>\<open>doWork\<close> or \<^verbatim>\<open>isWork\<close>.\<close>

lemma idle_steps:
  assumes "dl_step ops d d'" and "wpc (queue d') = wpc (queue d)"
    and "\<forall>x q. place (proc d) x = Some q \<longrightarrow> q \<notin> {Init, Working, WorkSection}" and "\<not> quiesced (proc d)"
  obtains (broadcast) "qp_at (proc d) = Ready" "d' = d\<lparr>proc := QueueProcessor_broadcast (proc d), owed := owed d - 1\<rparr>"
  | (operate) p where "qp_step (proc d) p" "serving p" "d' = d\<lparr>proc := p\<rparr>"
  using assms(1)
  by cases (use assms(2-4) that in \<open>auto\<close>)

lemma shut_quiet: "shut_inv ops d \<Longrightarrow> qp_at (proc d) = Loop l i b \<Longrightarrow> l = LStop \<or> l = LJoin \<Longrightarrow> \<not> quiesced (proc d)"
  by (auto simp: shut_inv_def qp_inv_def quiet_part_def)

lemma leave_inv:
  assumes inv: "shut_inv ops d" and a: "qp_at (proc d) = Loop l i b" "l = LStop \<or> l = LJoin"
    and x: "place (proc d) x = Some Finalizing" and e: "endAccess x (sq (queue d)) = Inr s"
  shows "shut_inv ops (d\<lparr>queue := (queue d)\<lparr>sq := s\<rparr>, proc := goto_place x SignalDead (proc d)\<rparr>)"
proof -
  note I = shutD [OF inv]
  have lx: "listed (queue d) x" using I(4) x by (auto simp: present_def)
  obtain t where "endAccess x (sq (queue d)) = Inr t" "leaving ops ((queue d)\<lparr>sq := t\<rparr>)"
    "\<And>y. ri_inQueue (readers t y) \<longleftrightarrow> y \<noteq> x \<and> listed (queue d) y" by (rule leave_ok [OF I(1) lx]) blast
  then have s: "leaving ops ((queue d)\<lparr>sq := s\<rparr>)" "\<And>y. ri_inQueue (readers s y) \<longleftrightarrow> y \<noteq> x \<and> listed (queue d) y" using e by simp_all
  obtain w where w: "x < length (workers (proc d))" "worker (proc d) x = Some w" "run_at w = Finalizing" using x by (auto simp: place_eq)
  note ws = w_step.Finalizing [OF w(3)]
  have g: "goto_place x SignalDead (proc d) = setWorker x (Some (run_goto SignalDead w)) (proc d)" using w(2) by (simp add: goto_place_def)
  have "qp_step (proc d) (goto_place x SignalDead (proc d))"
    unfolding g by (rule qp_step.Run [OF w(1,2) run_step.Thread [OF ws]])
  then have q: "qp_inv (goto_place x SignalDead (proc d))" by (rule qp_step_inv [OF _ I(2)])
  have sw: "shutting w" by (rule I(5) [OF w(1,2)])
  have sh: "shutting (run_goto SignalDead w)"
    using sw w_step_inv [OF ws] w(3) by (auto simp: shutting_def present_def)
  note pl = place_goto [OF x, of SignalDead]
  have "ri_inQueue (readers s y) \<longleftrightarrow> (\<exists>q. place (goto_place x SignalDead (proc d)) y = Some q \<and> present q)" for y
    using s(2) [of y] I(4) [of y] pl [of y] by (simp add: present_def)
  moreover have "shutting v" if v: "y < length (workers (proc d))" "worker (goto_place x SignalDead (proc d)) y = Some v" for y v
    using v goto_worker [OF v(1), of x SignalDead] sh I(5) [OF v(1)] w(2) by (auto split: if_splits)
  moreover have "workers (goto_place x SignalDead (proc d)) \<noteq> [] \<longleftrightarrow> workers (proc d) \<noteq> []" by (simp add: g setWorker_def)
  ultimately show ?thesis using s(1) q I(3,6) by (simp add: shut_inv_def)
qed

lemma live_not_final: "live_part p \<Longrightarrow> place p x \<noteq> Some Finalizing"
  by (auto simp: place_eq live_part_def live_def w_inv_def stopping_part_def)

text \<open>A worker ends only in the second or third loop.\<close>

lemma finalizing_at:
  assumes inv: "life_inv ops d" and x: "place (proc d) x = Some Finalizing"
  obtains l i b where "qp_at (proc d) = Loop l i b" "l = LStop \<or> l = LJoin"
proof (cases "serving (proc d)")
  case True
  from live_not_final [OF dl_invD(3) [OF life_invD(1) [OF inv True]]] x show thesis by simp
next
  case False
  then show thesis
  proof (cases rule: not_servingE)
    case (signal i b)
    have "live_part (proc d)" using life_invD(2) [OF inv signal] by (simp add: sig_inv_def dl_core_def)
    from live_not_final [OF this] x show thesis by simp
  next
    case shut
    then show thesis by (rule that)
  next
    case gone
    from gone_place [OF life_invD(4) [OF inv False gone(2)] gone(2)] x show thesis by simp
  qed
qed

lemma finalizing_shut: "life_inv ops d \<Longrightarrow> place (proc d) x = Some Finalizing \<Longrightarrow> shut_inv ops d"
  using finalizing_at life_invD(3) by metis

context entry_class
begin

lemma sig_serve:
  assumes inv: "sig_inv ops d i b" and a: "qp_at (proc d) = Loop LSignal i b" and st: "dl_step ops d d'"
    and acc: "accepted (queue d') = accepted (queue d)"
  shows "sig_inv ops d' i b \<and> qp_at (proc d') = Loop LSignal i b"
proof -
  have core: "dl_core ops d" using inv by (simp add: sig_inv_def)
  from st core show ?thesis
  proof (cases rule: dl_stepE)
    case (visit x q q' c g)
    from sig_visit [OF inv a visit(1)] show ?thesis unfolding visit(2) using a by simp
  next
    case (feed c)
    from sig_feed [OF inv a feed(1)] acc show ?thesis unfolding feed(2) using a by simp
  next
    case broadcast
    then show ?thesis using a by simp
  next
    case (operate p)
    then show ?thesis using signal_next [OF operate(1) a] by (auto simp: serving_def)
  qed
qed

lemma life_step_inv:
  assumes st: "life_step ops d d'" and inv: "life_inv ops d"
  shows "life_inv ops d'"
  using st
proof cases
  case Serve
  show ?thesis
  proof (cases "serving (proc d)")
    case True
    have "dl_inv ops d'" by (rule dl_step_inv [OF Serve(1) life_invD(1) [OF inv True]])
    then show ?thesis by (intro life_invI(1) dl_invD(7))
  next
    case False
    then have same: "accepted (queue d') = accepted (queue d)" "wpc (queue d') = wpc (queue d)" using Serve(2) by simp_all
    from False show ?thesis
    proof (cases rule: not_servingE)
      case (signal i b)
      from sig_serve [OF life_invD(2) [OF inv signal] signal Serve(1) same(1)] show ?thesis by (blast intro: life_invI(2))
    next
      case (shut l i b)
      note s = life_invD(3) [OF inv shut]
      have "\<forall>x q. place (proc d) x = Some q \<longrightarrow> q \<notin> {Init, Working, WorkSection}"
        using shut_place [OF s] by (fastforce simp: present_def)
      from Serve(1) same(2) this shut_quiet [OF s shut] show ?thesis
      proof (cases rule: idle_steps)
        case (operate p)
        from shut_next [OF operate(1) shut] operate(2) have "l = LJoin" "\<not> b" "loopEnd LJoin (proc d) \<le> i" "p = stop_end (proc d)"
          by (auto simp: serving_def)
        then show ?thesis using shut_end(1) [OF s, of i] shut(1) operate(3) by simp
      qed (use shut(1) in simp)
    next
      case gone
      note g = life_invD(4) [OF inv False gone(2)]
      have away: "\<forall>x q. place (proc d) x = Some q \<longrightarrow> q \<notin> {Init, Working, WorkSection}"
        using gone_place [OF g gone(2)] by simp
      have q: "\<not> quiesced (proc d)" using g by (auto simp: gone_inv_def qp_inv_def quiet_part_def)
      from Serve(1) same(2) away q show ?thesis
      proof (cases rule: idle_steps)
        case broadcast
        from gone_operate [OF g gone(1) qp_step.Broadcast [OF broadcast(1)]] show ?thesis unfolding broadcast(2) .
      next
        case (operate p)
        from gone_operate [OF g gone(1) operate(1), of "owed d"] show ?thesis unfolding operate(3) by simp
      qed
    qed
  qed
next
  case (Halt p)
  from halt_inv [OF inv Halt(2-4)] show ?thesis unfolding Halt(1) .
next
  case (Leave x s)
  obtain l i b where a: "qp_at (proc d) = Loop l i b" "l = LStop \<or> l = LJoin" by (rule finalizing_at [OF inv Leave(2)])
  from leave_inv [OF life_invD(3) [OF inv a] a Leave(2,3)] show ?thesis
    unfolding Leave(1) by (intro life_invI(3) [OF _ a(2)]) (use a(1) in simp_all)
qed

lemma life_reach_inv: "life_reach ops d d' \<Longrightarrow> life_inv ops d \<Longrightarrow> life_inv ops d'"
  by (induction rule: life_reach.induct) (auto intro: life_step_inv)

lemma life_init_inv:
  assumes "QueueProcessor_new k cs n = Inr p" and "2 \<le> uint n" "uint n \<le> 1073741824"
  shows "life_inv ops (dl_init ops d ids p)"
  using dl_init_inv(1) [OF assms] by (intro life_invI(1) dl_invD(7))

end

text \<open>In every phase each position has been delivered at most once, and a finalizing worker can leave.\<close>

lemma life_positions:
  assumes "life_inv ops d"
  shows "\<exists>D. distinct D \<and> (\<forall>p \<in> set D. p < length (accepted (queue d))) \<and> map snd (delivered (queue d)) = map (\<lambda>p. accepted (queue d) ! p) D"
proof -
  have c: ?thesis if "sq_inv ops (queue d) xs R pos D" for xs R pos D using that by (auto simp: sq_inv_def deliv_part_def)
  have core: ?thesis if "dl_core ops d" using core_queue [OF that] c by metis
  show ?thesis
  proof (cases "serving (proc d)")
    case True
    then show ?thesis using core dl_invD(1) life_invD(1) [OF assms] by blast
  next
    case False
    then show ?thesis
    proof (cases rule: not_servingE)
      case (signal i b)
      then show ?thesis using core life_invD(2) [OF assms] by (auto simp: sig_inv_def)
    next
      case (shut l i b)
      have "leaving ops (queue d)" using life_invD(3) [OF assms shut] by (simp add: shut_inv_def)
      then obtain R D where "ring_part ops (queue d) R D" "distinct D" "set D = {..<R}"
        "map snd (delivered (queue d)) = map (\<lambda>p. accepted (queue d) ! p) D" unfolding leaving_def by blast
      then show ?thesis using ring_partD(4) [of ops "queue d" R D] by fastforce
    next
      case gone
      have "gone_inv ops d" by (rule life_invD(4) [OF assms False gone(2)])
      then obtain R pos D where "sq_inv ops (queue d) [] R pos D" unfolding gone_inv_def by blast
      then show ?thesis by (rule c)
    qed
  qed
qed

end
