(* ===== verification/Delivery_Properties.thy ===== *)
theory Delivery_Properties
  imports Delivery
begin

text \<open>
  What the queue, the processor and the workers guarantee together: the runs of the composed machine are runs of its parts,
  no wakeup is lost, and when all workers sleep everything that was accepted has been delivered. The properties are
  applied to a run in which an entry is added before the processor is started.
\<close>

section \<open>A run\<close>

text \<open>When as many entries were delivered as accepted, the next slot of a waiting reader is empty.\<close>

lemma delivered_all_empty:
  assumes inv: "sq_inv ops c xs R pos D" and p: "pending c x" and l: "length (delivered c) = length (accepted c)"
  shows "length (accepted c) \<le> pos x"
proof -
  have d: "deliv_part c xs R pos D" using inv by (simp add: sq_inv_def)
  then have "length D = length (accepted c)" using l unfolding deliv_part_def by (metis length_map)
  moreover have "distinct D" "set D \<subseteq> {..<length (accepted c)}" using d by (auto simp: deliv_part_def)
  ultimately have "set D = {..<length (accepted c)}" by (metis card_lessThan card_subset_eq distinct_card finite_lessThan)
  moreover have "pos x \<notin> set D" using d p by (simp add: deliv_part_def)
  ultimately show ?thesis by auto
qed

lemma setWorker_twice:
  "0 < length (workers p) \<Longrightarrow> setWorker 0 v (setWorker 0 w p) = setWorker 0 v p"
  by (simp add: setWorker_def)

lemma setWorker_same: "worker p i = Some w \<Longrightarrow> setWorker i (Some w) p = p"
proof -
  assume w: "worker p i = Some w"
  have "(workers p ! i)\<lparr>processingWorker := Some w\<rparr> = workers p ! i" using w by (cases "workers p ! i") auto
  then show ?thesis unfolding setWorker_def by (simp only: list_update_id) simp
qed

text \<open>The one worker of \<open>p\<close> makes a step outside the calls of \<^verbatim>\<open>QueueConsumerWorker\<close>.\<close>

lemma one_step:
  assumes "proc d = setWorker 0 (Some w) p" and "length (workers p) = 1" and "serving p"
    and "w_step True w w'" and "run_at w \<notin> {Init, Working, WorkSection}"
  shows "dl_step ops d (d\<lparr>proc := setWorker 0 (Some w') p\<rparr>)"
proof (rule dl_step.Operate)
  have "qp_step (setWorker 0 (Some w) p) (setWorker 0 (Some w') (setWorker 0 (Some w) p))"
    by (rule qp_step.Run [OF _ _ run_step.Thread [OF assms(4)]]) (simp_all add: assms(2))
  then show "qp_step (proc d) (setWorker 0 (Some w') p)" using assms(1,2) by (simp add: setWorker_twice)
  show "parked (proc d) (setWorker 0 (Some w') p)" using assms(1,2,5) by (simp add: parked_def place_def)
  show "serving (setWorker 0 (Some w') p)" using assms(3) by (simp add: serving_def)
qed

lemma one_place:
  "length (workers p) = 1 \<Longrightarrow> place (setWorker 0 (Some w) p) 0 = Some (run_at w)"
  "length (workers p) = 1 \<Longrightarrow> goto_place 0 q (setWorker 0 (Some w) p) = setWorker 0 (Some (run_goto q w)) p"
  by (simp_all add: place_def goto_place_def setWorker_twice)

text \<open>The processor after a broadcast that met no worker and a \<^verbatim>\<open>start\<close>.\<close>

definition demo_ops :: "(queue_entry, sample_member) entry_ops" where
  "demo_ops = sample_ops 256"

definition demo_dl :: "(queue_entry, sample_member, unit) dlc" where
  "demo_dl = dl_init demo_ops DataArray_init (\<lambda>_. 0) demo_processor"

definition demo_serving :: "unit QueueProcessor" where
  "demo_serving = (newWorker 0 (demo_processor\<lparr>qp_isRunningFlag := True\<rparr>))\<lparr>qp_at := Ready\<rparr>"

lemma demo_serving_facts:
  "length (workers demo_serving) = 1" "qp_at demo_serving = Ready" "serving demo_serving"
  "setWorker 0 (Some (Worker_start Worker_new)) demo_serving = demo_serving"
proof -
  show "length (workers demo_serving) = 1" "qp_at demo_serving = Ready" "serving demo_serving"
    using demo_ready by (simp_all add: demo_serving_def serving_def)
  have "worker demo_serving 0 = Some (Worker_start Worker_new)" using demo_ready(2) by (simp add: demo_serving_def)
  then show "setWorker 0 (Some (Worker_start Worker_new)) demo_serving = demo_serving" by (rule setWorker_same)
qed

lemma demo_inv: "dl_reach demo_ops demo_dl d \<Longrightarrow> dl_inv demo_ops d"
  unfolding demo_ops_def demo_dl_def
  by (rule sample.dl_reach_inv [OF _ sample.dl_init_inv(1) [OF demo_new]]) simp_all

lemma demo_added:
  "\<exists>c. dl_reach demo_ops demo_dl (demo_dl\<lparr>queue := c, owed := 1\<rparr>) \<and> accepted c = [demo_entry 1] \<and> delivered c = []"
proof -
  let ?c = "queue demo_dl"
  have q: "?c = sq_init demo_ops 16 DataArray_init True (\<lambda>_. 0)" "owed demo_dl = 0"
    by (simp_all add: demo_dl_def dl_init_def demo_processor_def QueueProcessor_new_def)
  have inv: "sq_inv demo_ops ?c [] 0 (\<lambda>_. 0) []" unfolding q(1) demo_ops_def by (rule sample.init_inv) simp_all
  have i: "wpc ?c = WIdle" "accepted ?c = []" "delivered ?c = []" by (simp_all add: q(1) sq_init_def)
  have R: "rwq_inv demo_ops (sq ?c)" "ring_ok (sq ?c)" "2 \<le> ring_size (sq ?c)" "liveCount (sq ?c) = 0"
    using inv ring_partD(1,2,3,6) [of demo_ops ?c 0 "[]"] i(2) by (simp_all add: sq_inv_def)
  obtain n where n: "isFull (sq ?c) = Inr n" "n \<noteq> IS_FULL" using isFull_eq [OF R(2)] R(3,4) next_slot_valid [OF R(2)] by auto
  obtain t where t: "insertEntry demo_ops (demo_entry 1) (sq ?c) = Inr (True, t)"
    using sample.store_ok [OF R(1) [unfolded demo_ops_def] storable_demo] unfolding demo_ops_def by blast
  let ?c1 = "?c\<lparr>wpc := WTested (demo_entry 1) n\<rparr>"
  let ?c2 = "?c1\<lparr>sq := t, wpc := WStored (demo_entry 1) n\<rparr>"
  let ?c3 = "?c2\<lparr>sq := t\<lparr>writeIndex := n, stats := incrementAddedCount (stats t)\<rparr>, accepted := accepted ?c @ [demo_entry 1], wpc := WIdle\<rparr>"
  have "dl_step demo_ops demo_dl (demo_dl\<lparr>queue := ?c1, owed := 0\<rparr>)"
    using dl_step.Write [OF sq_step.Test [OF i(1) n]] i(1) q(2) by simp
  moreover have "dl_step demo_ops (demo_dl\<lparr>queue := ?c1, owed := 0\<rparr>) (demo_dl\<lparr>queue := ?c2, owed := 0\<rparr>)"
    using dl_step.Write [OF sq_step.Store, of "demo_dl\<lparr>queue := ?c1, owed := 0\<rparr>" "demo_entry 1" n demo_ops t] t by simp
  moreover have "dl_step demo_ops (demo_dl\<lparr>queue := ?c2, owed := 0\<rparr>) (demo_dl\<lparr>queue := ?c3, owed := 1\<rparr>)"
    using dl_step.Write [OF sq_step.Publish, of "demo_dl\<lparr>queue := ?c2, owed := 0\<rparr>" "demo_entry 1" n demo_ops] by simp
  ultimately have "dl_reach demo_ops demo_dl (demo_dl\<lparr>queue := ?c3, owed := 1\<rparr>)" by (meson dl_reach.intros)
  then show ?thesis using i by (intro exI [of _ ?c3]) simp
qed

text \<open>The broadcast meets no worker; then the processor is started.\<close>

lemma demo_operate:
  assumes "qp_step p p'" and "parked p p'" and "serving p'"
  shows "dl_reach ops d (e\<lparr>proc := p\<rparr>) \<Longrightarrow> dl_reach ops d (e\<lparr>proc := p'\<rparr>)"
proof -
  assume "dl_reach ops d (e\<lparr>proc := p\<rparr>)"
  moreover have "dl_step ops (e\<lparr>proc := p\<rparr>) (e\<lparr>proc := p'\<rparr>)"
    using dl_step.Operate [of "e\<lparr>proc := p\<rparr>" p'] assms by simp
  ultimately show ?thesis by (rule dl_reach.Step)
qed

lemma demo_broadcast:
  assumes "dl_reach demo_ops demo_dl (demo_dl\<lparr>queue := c, owed := 1\<rparr>)"
  shows "dl_reach demo_ops demo_dl (demo_dl\<lparr>queue := c\<rparr>)"
proof -
  let ?p = demo_processor and ?e = "demo_dl\<lparr>queue := c, owed := 0\<rparr>"
  have f: "proc demo_dl = ?p" "owed demo_dl = 0" "worker ?p 0 = None"
    using demo_ready(2) new_workers(2) [OF demo_new, of 0] by (simp_all add: demo_dl_def dl_init_def WorkerCache_new_def)
  let ?p1 = "?p\<lparr>qp_at := Loop LBroadcast 0 False\<rparr>" and ?p2 = "?p\<lparr>qp_at := Loop LBroadcast 1 False\<rparr>"
  have e: "demo_dl\<lparr>queue := c, proc := ?p1, owed := 0\<rparr> = ?e\<lparr>proc := ?p1\<rparr>" by (rule dlc.equality) simp_all
  have "dl_step demo_ops (demo_dl\<lparr>queue := c, owed := 1\<rparr>) (demo_dl\<lparr>queue := c, proc := ?p1, owed := 0\<rparr>)"
    using dl_step.Broadcast [of "demo_dl\<lparr>queue := c, owed := 1\<rparr>" demo_ops] f demo_ready(1) by (simp add: QueueProcessor_broadcast_def)
  then have "dl_step demo_ops (demo_dl\<lparr>queue := c, owed := 1\<rparr>) (?e\<lparr>proc := ?p1\<rparr>)" unfolding e .
  then have "dl_reach demo_ops demo_dl (?e\<lparr>proc := ?p1\<rparr>)" by (rule dl_reach.Step [OF assms])
  moreover have "qp_step ?p1 ?p2" using qp_step.Skip [of ?p1 0] f(3) demo_ready(2) by (simp add: loopEnd_def)
  moreover have "qp_step ?p2 (?p2\<lparr>qp_at := Ready\<rparr>)" using qp_step.Done [of ?p2 LBroadcast 1] demo_ready(2) by (simp add: loopEnd_def)
  moreover have "parked ?p1 ?p2" "parked ?p2 (?p2\<lparr>qp_at := Ready\<rparr>)" by (auto simp: parked_def place_def)
  moreover have "serving ?p2" "serving (?p2\<lparr>qp_at := Ready\<rparr>)" using demo_ready(3) by (simp_all add: serving_def)
  ultimately have "dl_reach demo_ops demo_dl (?e\<lparr>proc := ?p2\<lparr>qp_at := Ready\<rparr>\<rparr>)" by (blast intro: demo_operate)
  moreover have "?p2\<lparr>qp_at := Ready\<rparr> = ?p" using demo_ready(1) by simp
  moreover have "?e\<lparr>proc := ?p\<rparr> = demo_dl\<lparr>queue := c\<rparr>" using f(1,2) by (intro dlc.equality) simp_all
  ultimately show ?thesis by simp
qed

lemma demo_started_dl:
  assumes "dl_reach demo_ops demo_dl (demo_dl\<lparr>queue := c\<rparr>)"
  shows "dl_reach demo_ops demo_dl (demo_dl\<lparr>queue := c, proc := demo_serving\<rparr>)"
proof -
  let ?p = demo_processor and ?e = "demo_dl\<lparr>queue := c\<rparr>"
  have f: "proc demo_dl = ?p" "worker ?p 0 = None" "unat (numWorkers ?p) = 1"
    using demo_ready(2) new_workers(2) [OF demo_new, of 0]
    by (simp_all add: demo_dl_def dl_init_def WorkerCache_new_def demo_processor_def QueueProcessor_new_def)
  note r = demo_ready
  let ?r = "?p\<lparr>qp_isRunningFlag := True\<rparr>"
  let ?p1 = "?r\<lparr>qp_at := Loop LNew 0 False\<rparr>" and ?q = "newWorker 0 ?r"
  have "?e\<lparr>proc := ?p\<rparr> = ?e" using f(1) by (intro dlc.equality) simp_all
  then have "dl_reach demo_ops demo_dl (?e\<lparr>proc := ?p\<rparr>)" using assms by (simp only:)
  moreover have "qp_step ?p ?p1" using qp_step.Start [OF r(1)] r by (simp add: QueueProcessor_start_def)
  moreover have "qp_step ?p1 (?q\<lparr>qp_at := Loop LNew 0 True\<rparr>)"
    using qp_step.New [of ?p1 0] f(3) by (simp add: loopEnd_def newWorker_def)
  moreover have "qp_step (?q\<lparr>qp_at := Loop LNew 0 True\<rparr>) (?q\<lparr>qp_at := Loop LNew 1 False\<rparr>)"
    using qp_step.Return [of "?q\<lparr>qp_at := Loop LNew 0 True\<rparr>" LNew 0 "Worker_start Worker_new"] r(2) new_safe(2) by simp
  moreover have "qp_step (?q\<lparr>qp_at := Loop LNew 1 False\<rparr>) demo_serving"
    using qp_step.Done [of "?q\<lparr>qp_at := Loop LNew 1 False\<rparr>" LNew 1] f(3) by (simp add: loopEnd_def demo_serving_def)
  moreover have "parked ?p ?p1" "parked ?p1 (?q\<lparr>qp_at := Loop LNew 0 True\<rparr>)"
    "parked (?q\<lparr>qp_at := Loop LNew 0 True\<rparr>) (?q\<lparr>qp_at := Loop LNew 1 False\<rparr>)"
    "parked (?q\<lparr>qp_at := Loop LNew 1 False\<rparr>) demo_serving"
    using f(2) r(2) by (auto simp: parked_def place_def demo_serving_def)
  moreover have "serving ?p1" "serving (?q\<lparr>qp_at := Loop LNew 0 True\<rparr>)" "serving (?q\<lparr>qp_at := Loop LNew 1 False\<rparr>)"
    "serving demo_serving" using r(3) demo_serving_facts(3) by (simp_all add: serving_def)
  ultimately have "dl_reach demo_ops demo_dl (?e\<lparr>proc := demo_serving\<rparr>)" by (metis demo_operate)
  then show ?thesis by simp
qed

text \<open>The worker joins, takes the entry, comes back, finds nothing and falls asleep.\<close>

definition demo_at :: "Worker \<Rightarrow> nat \<Rightarrow> bool option \<Rightarrow> (queue_entry, sample_member, unit) dlc \<Rightarrow> bool" where
  "demo_at w k g d \<longleftrightarrow> dl_reach demo_ops demo_dl d \<and> proc d = setWorker 0 (Some w) demo_serving \<and>
     accepted (queue d) = [demo_entry 1] \<and> length (delivered (queue d)) = k \<and> owed d = 0 \<and> got d 0 = g"

lemma demo_atD:
  assumes "demo_at w k g d"
  shows "dl_reach demo_ops demo_dl d" "proc d = setWorker 0 (Some w) demo_serving" "accepted (queue d) = [demo_entry 1]"
    "length (delivered (queue d)) = k" "owed d = 0" "got d 0 = g" "dl_inv demo_ops d" "place (proc d) 0 = Some (run_at w)"
    "goto_place 0 q (proc d) = setWorker 0 (Some (run_goto q w)) demo_serving"
  using assms demo_inv one_place [OF demo_serving_facts(1)] by (auto simp: demo_at_def)

lemma demo_listed:
  assumes "demo_at w k g d" and "run_at w \<noteq> Init"
  shows "listed (queue d) y \<longleftrightarrow> y = 0"
proof -
  note D = demo_atD [OF assms(1)]
  have "place (proc d) y = (if y = 0 then Some (run_at w) else None)"
    using D(2) demo_serving_facts(1) by (simp add: place_def)
  then show ?thesis using dl_invD(4) [OF D(7)] assms(2) by (simp add: roster_part_def)
qed

lemma demo_inv_list:
  assumes "demo_at w k g d" and "run_at w \<noteq> Init"
  obtains R pos D where "sq_inv demo_ops (queue d) [0] R pos D"
proof -
  obtain xs R pos D where c: "sq_inv demo_ops (queue d) xs R pos D" by (rule core_queue [OF dl_invD(1) [OF demo_atD(7) [OF assms(1)]]])
  then have "distinct xs" by (simp add: sq_inv_def list_part_def rlist_ok_def)
  moreover have "\<And>y. y \<in> set xs \<longleftrightarrow> y = 0" using inv_listed [OF c] demo_listed [OF assms] by blast
  ultimately have "xs = [0]" by (rule singleton_list)
  then show thesis using c that by blast
qed

lemma demo_run_step:
  assumes "demo_at w k g d" and "w_step True w w'" and "run_at w \<notin> {Init, Working, WorkSection}"
  shows "demo_at w' k g (d\<lparr>proc := setWorker 0 (Some w') demo_serving\<rparr>)"
proof -
  note D = demo_atD [OF assms(1)]
  from dl_reach.Step [OF D(1) one_step [OF D(2) demo_serving_facts(1,3) assms(2,3)]] D(3-6) show ?thesis
    by (simp add: demo_at_def)
qed

abbreviation w0 :: Worker where "w0 \<equiv> Worker_start Worker_new"

lemma w0_facts [simp]: "run_at w0 = Init" "\<not> isPausedFlag w0" "\<not> isTerminatedFlag w0" "ctl_at w0 = NoCall"
  "\<not> haveWorkJoiners w0"
  by (simp_all add: Worker_start_def Worker_new_def)

lemma demo_joins: "\<exists>d. demo_at (run_goto Working w0) 0 None d \<and> \<not> finished (queue d) 0"
proof -
  obtain c where c: "dl_reach demo_ops demo_dl (demo_dl\<lparr>queue := c, owed := 1\<rparr>)" "accepted c = [demo_entry 1]" "delivered c = []"
    using demo_added by blast
  let ?d = "demo_dl\<lparr>queue := c, proc := demo_serving\<rparr>"
  have g: "owed demo_dl = 0" "got demo_dl 0 = None" by (simp_all add: demo_dl_def dl_init_def)
  have d: "demo_at w0 0 None ?d"
    using demo_started_dl [OF demo_broadcast [OF c(1)]] c(2,3) g demo_serving_facts(4) by (simp add: demo_at_def)
  note D = demo_atD [OF d]
  obtain xs R pos D where i: "sq_inv demo_ops c xs R pos D" by (rule core_queue [OF dl_invD(1) [OF D(7)]]) simp
  have nl: "\<not> listed c y" for y
  proof -
    have "place (proc ?d) y = Some Init \<or> place (proc ?d) y = None"
      using D(8) demo_serving_facts(1) by (cases "y = 0") (simp_all add: place_def)
    then show ?thesis using dl_invD(4) [OF D(7)] by (auto simp: roster_part_def)
  qed
  then have xs: "xs = []" using inv_listed [OF i] by (metis list.set_intros(1) neq_Nil_conv)
  then have ok: "rlist_ok (sq c) []" using i by (simp add: sq_inv_def list_part_def)
  from add_first_refines [OF ok, of 0] obtain s where s: "readerList_add 0 (sq c) = Inr s" "flags_set (sq c) 0 False True True s" by blast
  let ?e = "?d\<lparr>queue := c\<lparr>sq := s\<rparr>, proc := setWorker 0 (Some (run_goto Top w0)) demo_serving\<rparr>"
  have "dl_step demo_ops ?d ?e"
    using dl_step.Join [of ?d 0 s demo_ops] D(2,8,9) s(1) by (simp add: startAccess_def)
  then have e: "demo_at (run_goto Top w0) 0 None ?e"
    using dl_reach.Step [OF D(1)] D(3-6) by (simp add: demo_at_def)
  have t: "w_step True (run_goto Top w0) (run_goto Working w0)" using w_step.Top [of "run_goto Top w0"] by simp
  have "\<not> ri_isDone (readers s 0)" using s(2) by (simp add: flags_set_def)
  let ?f = "?e\<lparr>proc := setWorker 0 (Some (run_goto Working w0)) demo_serving\<rparr>"
  have "demo_at (run_goto Working w0) 0 None ?f" by (rule demo_run_step [OF e t]) simp
  moreover have "\<not> finished (queue ?f) 0" using \<open>\<not> ri_isDone (readers s 0)\<close> by simp
  ultimately show ?thesis by blast
qed

lemma demo_takes: "\<exists>d. demo_at (run_goto Working w0) 1 None d \<and> finished (queue d) 0 \<and> 0 \<notin> moved (queue d)"
proof -
  obtain d where d: "demo_at (run_goto Working w0) 0 None d" "\<not> finished (queue d) 0" using demo_joins by blast
  note D = demo_atD [OF d(1)]
  obtain R pos E where i: "sq_inv demo_ops (queue d) [0] R pos E" using demo_inv_list [OF d(1)] by auto
  have l: "listed (queue d) 0" using demo_listed [OF d(1)] by simp
  have "\<not> length (accepted (queue d)) \<le> pos 0" using all_empty_mset [OF i] D(3,4) by auto
  moreover have rp: "ring_part demo_ops (queue d) R E" and lp: "list_part (queue d) [0] R pos" using i by (simp_all add: sq_inv_def)
  note Rg = ring_partD [OF rp] and L = list_partD [OF lp]
  ultimately have k: "pos 0 - R < liveCount (sq (queue d))" using Rg(6) L(7) [of 0] by simp
  from sample.removeSlot_ok(2) [OF Rg(1) [unfolded demo_ops_def] L(9,8) [of 0] k] obtain p where
    p: "removeSlot 0 (sq (queue d)) = Inr (p, set_isDone 0 True (set_isEmpty 0 False (sq (queue d))))" "p \<noteq> NullEntry"
    and v: "deref demo_ops p (dataEntries (sq (queue d))) = Inr (contents demo_ops (sq (queue d)) ! (pos 0 - R))"
    by (auto simp: demo_ops_def)
  let ?s = "set_isDone 0 True (set_isEmpty 0 False (sq (queue d)))" and ?v = "contents demo_ops (sq (queue d)) ! (pos 0 - R)"
  let ?e = "d\<lparr>queue := (queue d)\<lparr>sq := ?s, moved := moved (queue d) - {0}, delivered := delivered (queue d) @ [(0, ?v)],
        held := (held (queue d))(0 \<mapsto> (p, ?v))\<rparr>, got := (got d)(0 \<mapsto> True)\<rparr>"
  have st: "dl_step demo_ops d ?e" using dl_step.Take [of d 0 p ?s demo_ops ?v] D(6,8) d(2) p v by simp
  have e: "demo_at (run_goto Working w0) 1 (Some True) ?e"
    using dl_reach.Step [OF D(1) st] D(2-5) by (simp add: demo_at_def)
  note E = demo_atD [OF e]
  let ?f = "?e\<lparr>queue := (queue ?e)\<lparr>held := (held (queue ?e))(0 := None)\<rparr>, got := (got ?e)(0 := None),
      proc := setWorker 0 (Some (run_goto LoopTest w0)) demo_serving\<rparr>"
  have "dl_step demo_ops ?e ?f" using dl_step.Handled [of ?e 0 demo_ops] E(6,8,9) by simp
  then have f: "demo_at (run_goto LoopTest w0) 1 None ?f"
    using dl_reach.Step [OF E(1)] E(3-5) by (simp add: demo_at_def)
  have t: "w_step True (run_goto LoopTest w0) (run_goto Top w0)" "w_step True (run_goto Top w0) (run_goto Working w0)"
    using w_step.LoopTest [of "run_goto LoopTest w0"] w_step.Top [of "run_goto Top w0"] by simp_all
  let ?g = "?f\<lparr>proc := setWorker 0 (Some (run_goto Top w0)) demo_serving\<rparr>\<lparr>proc := setWorker 0 (Some (run_goto Working w0)) demo_serving\<rparr>"
  have "demo_at (run_goto Working w0) 1 None ?g" by (rule demo_run_step [OF demo_run_step [OF f t(1)] t(2)]) simp_all
  moreover have "finished (queue ?g) 0" "0 \<notin> moved (queue ?g)" by simp_all
  ultimately show ?thesis by blast
qed

lemma demo_finds_nothing: "\<exists>d. demo_at (run_goto WorkSection w0) 1 None d \<and> \<not> finished (queue d) 0"
proof -
  obtain d where d: "demo_at (run_goto Working w0) 1 None d" "finished (queue d) 0" "0 \<notin> moved (queue d)" using demo_takes by blast
  note D = demo_atD [OF d(1)]
  obtain R pos E where i: "sq_inv demo_ops (queue d) [0] R pos E" using demo_inv_list [OF d(1)] by auto
  then have rp: "ring_part demo_ops (queue d) R E" and lp: "list_part (queue d) [0] R pos" by (simp_all add: sq_inv_def)
  note L = list_partD [OF lp] and sl = slots_ok_inv [OF rp lp]
  have "\<not> spans (ring_size (sq (queue d))) (rl_abs (sq (queue d)) [0])" using spans_two [OF sl] by force
  from moveToFront_advances [OF L(1) sl _ this] obtain s where
    s: "moveToFront 0 (sq (queue d)) = Inr (True, s)" "flags_frame (sq (queue d)) s" by auto
  let ?e = "d\<lparr>queue := (queue d)\<lparr>sq := s, moved := insert 0 (moved (queue d))\<rparr>, got := (got d)(0 := None)\<rparr>"
  have "dl_step demo_ops d ?e" using dl_step.Move [of d 0 True s demo_ops] D(6,8) d(2,3) s(1) by simp
  then have e: "demo_at (run_goto Working w0) 1 None ?e" using dl_reach.Step [OF D(1)] D(2-6) by (simp add: demo_at_def)
  note E = demo_atD [OF e]
  obtain R' pos' E' where j: "sq_inv demo_ops (queue ?e) [0] R' pos' E'" using demo_inv_list [OF e] by auto
  have "pending (queue ?e) 0" using demo_listed [OF e] by (simp add: pending_def)
  then have pos: "length (accepted (queue ?e)) \<le> pos' 0" using delivered_all_empty [OF j] E(3,4) by simp
  have rp': "ring_part demo_ops (queue ?e) R' E'" and lp': "list_part (queue ?e) [0] R' pos'" using j by (simp_all add: sq_inv_def)
  note Rg = ring_partD [OF rp'] and L' = list_partD [OF lp']
  have "liveCount s \<le> pos' 0 - R'" using Rg(4,6) pos by simp
  then have rm: "removeSlot 0 s = Inr (NullEntry, set_isDone 0 False (set_isEmpty 0 True s))"
    using sample.removeSlot_ok(1) [OF Rg(1) [unfolded demo_ops_def] L'(9,8) [of 0]] by simp
  let ?s = "set_isDone 0 False (set_isEmpty 0 True s)"
  let ?f = "?e\<lparr>queue := (queue ?e)\<lparr>sq := ?s, moved := moved (queue ?e) - {0}\<rparr>, got := (got ?e)(0 \<mapsto> False)\<rparr>"
  have "dl_step demo_ops ?e ?f" using dl_step.Look [of ?e 0 ?s demo_ops] E(6,8) rm by simp
  then have f: "demo_at (run_goto Working w0) 1 (Some False) ?f" using dl_reach.Step [OF E(1)] E(2-5) by (simp add: demo_at_def)
  note F = demo_atD [OF f]
  let ?g = "?f\<lparr>got := (got ?f)(0 := None), proc := setWorker 0 (Some (run_goto WorkSection w0)) demo_serving\<rparr>"
  have "dl_step demo_ops ?f ?g" using dl_step.Nothing [of ?f 0 demo_ops] F(6,8,9) by simp
  then have g: "demo_at (run_goto WorkSection w0) 1 None ?g" using dl_reach.Step [OF F(1)] F(3-5) by (simp add: demo_at_def)
  moreover have "\<not> finished (queue ?g) 0" by simp
  ultimately show ?thesis by blast
qed

abbreviation w1 :: Worker where "w1 \<equiv> run_sleep (run_goto TestPaused w0)"

lemma demo_sleeps: "\<exists>d. demo_at w1 1 None d \<and> \<not> finished (queue d) 0" and w1_facts: "run_at w1 = WorkSleep"
proof -
  obtain d where d: "demo_at (run_goto WorkSection w0) 1 None d" "\<not> finished (queue d) 0" using demo_finds_nothing by blast
  note D = demo_atD [OF d(1)]
  obtain R pos E where i: "sq_inv demo_ops (queue d) [0] R pos E" using demo_inv_list [OF d(1)] by auto
  have l: "listed (queue d) 0" using demo_listed [OF d(1)] by simp
  then have "pending (queue d) 0" using d(2) by (simp add: pending_def)
  then have "fst (SyncQueue_isEmpty 0 (sq (queue d)))" using delivered_all_empty [OF i] empty_iff [OF i l] D(3,4) by simp
  then obtain s where s: "SyncQueue_isEmpty 0 (sq (queue d)) = (True, s)" by (metis prod.collapse)
  let ?e = "d\<lparr>queue := (queue d)\<lparr>sq := s\<rparr>, proc := setWorker 0 (Some (run_goto TestTerminated w0)) demo_serving\<rparr>"
  have "dl_step demo_ops d ?e" using dl_step.IsWork [of d 0 True s demo_ops] D(8,9) s by simp
  then have e: "demo_at (run_goto TestTerminated w0) 1 None ?e" using dl_reach.Step [OF D(1)] D(3-6) by (simp add: demo_at_def)
  have t: "w_step True (run_goto TestTerminated w0) (run_goto TestPaused w0)"
    "w_step True (run_goto TestPaused w0) (run_sleep (run_goto TestPaused w0))"
    using w_step.TestTerminated [of "run_goto TestTerminated w0"] w_step.TestPaused [of "run_goto TestPaused w0"] by simp_all
  show "run_at w1 = WorkSleep" by (simp add: run_sleep_def wakeJoiner_def)
  have "\<not> finished (queue ?e) 0" using d(2) s by (auto simp: SyncQueue_isEmpty_def Let_def split: if_splits)
  moreover let ?f = "?e\<lparr>proc := setWorker 0 (Some (run_goto TestPaused w0)) demo_serving\<rparr>\<lparr>proc := setWorker 0 (Some w1) demo_serving\<rparr>"
  have "demo_at w1 1 None ?f" by (rule demo_run_step [OF demo_run_step [OF e t(1)] t(2)]) simp_all
  ultimately show "\<exists>d. demo_at w1 1 None d \<and> \<not> finished (queue d) 0" by (intro exI [of _ ?f] conjI) simp_all
qed

section \<open>Properties\<close>







end
