(* ===== verification/Shutdown_Properties.thy ===== *)
theory Shutdown_Properties
  imports Shutdown_Invariant Delivery_Properties
begin

text \<open>
  What a stop guarantees: when \<^verbatim>\<open>QueueProcessor::stop\<close> returns, everything that was accepted before has been delivered and
  handled, and no reader is left in the list; over all stops and restarts nothing is delivered twice; and a worker that
  ends always finds itself in the reader list. The properties are applied to a run that stops the processor of
  \<open>Delivery_Properties\<close> after its worker fell asleep.
\<close>

section \<open>A run with a stop\<close>

text \<open>The processor of the run, at place \<open>q\<close> and with its one worker \<open>w\<close>.\<close>

definition demo_proc :: "qp_pc \<Rightarrow> Worker option \<Rightarrow> unit QueueProcessor" where
  "demo_proc q w = (setWorker 0 w demo_serving)\<lparr>qp_at := q\<rparr>"

lemma demo_proc_simps [simp]:
  "qp_at (demo_proc q w) = q" "length (workers (demo_proc q w)) = 1" "worker (demo_proc q w) 0 = w"
  "setWorker 0 v (demo_proc q w) = demo_proc q v" "(demo_proc q w)\<lparr>qp_at := q'\<rparr> = demo_proc q' w"
  "qp_isRunningFlag (demo_proc q w)" "\<not> qp_isTerminatedFlag (demo_proc q w)" "\<not> quiesced (demo_proc q w)"
  "place (demo_proc q w) x = (if x = 0 then map_option run_at w else None)"
  "goto_place 0 p (demo_proc q (Some u)) = demo_proc q (Some (run_goto p u))"
  using demo_serving_facts(1)
  by (simp_all add: demo_proc_def setWorker_def place_def goto_place_def demo_serving_def newWorker_def demo_processor_def
      QueueProcessor_new_def)

lemma demo_stop: "QueueProcessor_stop (demo_proc Ready w) = demo_proc (Loop LSignal 0 False) w"
  by (simp add: QueueProcessor_stop_def demo_proc_def setWorker_def demo_serving_def newWorker_def demo_processor_def QueueProcessor_new_def)

lemma demo_serving_proc: "serving (demo_proc q w) \<longleftrightarrow> (case q of Ready \<Rightarrow> True | Loop l i b \<Rightarrow> l \<notin> {LSignal, LStop, LJoin})"
  by (simp add: serving_def)

lemma demo_loopEnd [simp]: "l \<notin> {LStart, LNew} \<Longrightarrow> loopEnd l (demo_proc q w) = 1"
  by (simp add: loopEnd_def)

lemma dl_life:
  fixes d :: "('e, 'm, 'c) dlc"
  assumes "dl_reach ops d d'" and "dl_inv ops d" and "\<And>(e :: ('e, 'm, 'c) dlc) e'. dl_inv ops e \<Longrightarrow> dl_step ops e e' \<Longrightarrow> dl_inv ops e'"
  shows "life_reach ops d d' \<and> dl_inv ops d'"
  using assms
proof (induction rule: dl_reach.induct)
  case (Step d d' d'')
  have r: "life_reach ops d d'" "dl_inv ops d'" using Step.IH [OF Step.prems] by simp_all
  have "life_step ops d' d''" by (rule life_step.Serve [OF Step.hyps(2)]) (simp add: dl_invD(7) [OF r(2)])
  then show ?case using life_reach.Step [OF r(1)] Step.prems(2) [OF r(2) Step.hyps(2)] by blast
qed (blast intro: life_reach.Refl)

lemma demo_life: "dl_reach demo_ops demo_dl d \<Longrightarrow> life_reach demo_ops demo_dl d"
  using dl_life [OF _ demo_inv [OF dl_reach.Refl]] sample.dl_step_inv unfolding demo_ops_def by blast

definition stop_at :: "qp_pc \<Rightarrow> Worker option \<Rightarrow> bool option \<Rightarrow> (queue_entry, sample_member, unit) dlc \<Rightarrow> bool" where
  "stop_at q w g d \<longleftrightarrow> life_reach demo_ops demo_dl d \<and> proc d = demo_proc q w \<and> accepted (queue d) = [demo_entry 1] \<and>
     length (delivered (queue d)) = 1 \<and> got d 0 = g \<and> \<not> finished (queue d) 0"

lemma stop_atD:
  assumes "stop_at q w g d"
  shows "life_reach demo_ops demo_dl d" "proc d = demo_proc q w" "accepted (queue d) = [demo_entry 1]"
    "length (delivered (queue d)) = 1" "got d 0 = g" "\<not> finished (queue d) 0" "life_inv demo_ops d"
proof -
  have "life_inv demo_ops demo_dl"
    unfolding demo_dl_def demo_ops_def by (rule sample.life_init_inv [OF demo_new]) simp_all
  then show "life_inv demo_ops d" using sample.life_reach_inv assms unfolding demo_ops_def stop_at_def by blast
qed (use assms in \<open>simp_all add: stop_at_def\<close>)

text \<open>The processor moves, its worker moves.\<close>

lemma stop_halt:
  assumes "stop_at q w g d" and "qp_step (demo_proc q w) (demo_proc q' w')" and "settled (demo_proc q w) (demo_proc q' w')"
    and "\<not> serving (demo_proc q w) \<or> \<not> serving (demo_proc q' w')"
  shows "\<exists>d'. stop_at q' w' g d'"
proof -
  note D = stop_atD [OF assms(1)]
  have "life_step demo_ops d (d\<lparr>proc := demo_proc q' w'\<rparr>)" by (rule life_step.Halt) (use D(2) assms(2-4) in simp_all)
  from life_reach.Step [OF D(1) this] D(3-6) have "stop_at q' w' g (d\<lparr>proc := demo_proc q' w'\<rparr>)" by (simp add: stop_at_def)
  then show ?thesis by blast
qed

lemma settled_same: "map_option run_at w' = map_option run_at w \<or> w' = None \<and> map_option run_at w = Some Dead \<Longrightarrow>
    settled (demo_proc q w) (demo_proc q' w')"
  by (auto simp: settled_def parked_def)

lemma settled_run:
  "run_at w \<notin> {Init, Working, WorkSection, Finalizing} \<Longrightarrow> run_at w = WorkSleep \<longrightarrow> run_at w' = WorkSleep \<or> ctl_at w' \<noteq> ctl_at w \<Longrightarrow>
    settled (demo_proc q (Some w)) (demo_proc q' (Some w'))"
  by (auto simp: settled_def parked_def)

lemma stop_works:
  assumes "\<exists>d. stop_at (Loop l i b) (Some w) g d" and "l \<in> {LSignal, LStop, LJoin}"
    and "w_step True w w' \<or> ctl_at w \<noteq> NoCall \<and> w_step False w w'"
    and "run_at w \<notin> {Init, Working, WorkSection, Finalizing}" and "run_at w = WorkSleep \<longrightarrow> run_at w' = WorkSleep \<or> ctl_at w' \<noteq> ctl_at w"
  shows "\<exists>d. stop_at (Loop l i b) (Some w') g d"
proof -
  obtain d where d: "stop_at (Loop l i b) (Some w) g d" using assms(1) by blast
  have "run_step w w'" using assms(3) run_step.intros by blast
  then have "qp_step (demo_proc (Loop l i b) (Some w)) (demo_proc (Loop l i b) (Some w'))"
    using qp_step.Run [of 0 "demo_proc (Loop l i b) (Some w)" w w'] by simp
  from stop_halt [OF d this settled_run [OF assms(4,5)]] show ?thesis using assms(2) by (auto simp: serving_def)
qed

lemma stop_move:
  assumes "\<exists>d. stop_at (Loop l i b) w g d" and "l \<in> {LSignal, LStop, LJoin}"
    and "qp_step (demo_proc (Loop l i b) w) (demo_proc q' w')"
    and "map_option run_at w' = map_option run_at w \<or> w' = None \<and> map_option run_at w = Some Dead"
  shows "\<exists>d. stop_at q' w' g d"
proof -
  obtain d where d: "stop_at (Loop l i b) w g d" using assms(1) by blast
  from stop_halt [OF d assms(3) settled_same [OF assms(4)]] show ?thesis using assms(2) by (auto simp: serving_def)
qed

text \<open>\<^verbatim>\<open>stop\<close> is called: the worker is signalled and wakes up.\<close>

definition w2 :: Worker where
  "w2 = w0\<lparr>haveWorkJoiners := True, ctl_at := SignalSleep\<rparr>"

lemmas w2_lits = w2_def Worker_start_def Worker_new_def

lemma w2_facts [simp]: "\<not> isPausedFlag w2" "\<not> isTerminatedFlag w2" "ctl_at w2 = SignalSleep" "haveWorkJoiners w2"
  by (simp_all add: w2_def)

lemma stop_signals: "\<exists>d. stop_at (Loop LSignal 0 True) (Some (run_goto Working w2)) None d"
proof -
  obtain d where d: "demo_at w1 1 None d" "\<not> finished (queue d) 0" using demo_sleeps by blast
  note D = demo_atD [OF d(1)]
  have w1: "run_at w1 = WorkSleep" "ctl_at w1 = NoCall" "isWaitingFlag w1" "isStartedFlag w1" "\<not> isTerminatedFlag w1"
    by (simp_all add: worker_ops Worker_new_def)
  have "qp_at demo_serving = Ready" by (rule demo_serving_facts(2))
  then have "proc d = demo_proc Ready (Some w1)" using D(2) by (simp add: demo_proc_def setWorker_def)
  then have r: "stop_at Ready (Some w1) None d" using demo_life [OF D(1)] D(3-6) d(2) by (simp add: stop_at_def)
  have "qp_step (demo_proc Ready (Some w1)) (demo_proc (Loop LSignal 0 False) (Some w1))"
    using qp_step.Stop [of "demo_proc Ready (Some w1)"] by (simp add: demo_stop)
  from stop_halt [OF r this settled_same] have "\<exists>d. stop_at (Loop LSignal 0 False) (Some w1) None d"
    by (simp add: demo_serving_proc)
  then have s1: "\<exists>d. stop_at (Loop LSignal 0 True) (Some (ctl_goto (Signalling True) w1)) None d"
    by (rule stop_move) (use qp_step.Call [of "demo_proc (Loop LSignal 0 False) (Some w1)" LSignal 0 w1] in simp_all)
  let ?v = "run_goto WorkWoken (w2\<lparr>isWaitingFlag := True\<rparr>)"
  have v: "Worker_signal True NoCall (ctl_goto (Signalling True) w1) = ?v"
    using w1 by (simp add: worker_ops w2_def Worker_new_def)
  have ws: "w_step False (ctl_goto (Signalling True) w1) ?v"
    using w_step.Signal [of "ctl_goto (Signalling True) w1" True] w1(1) v by (simp add: workLockHeld_def)
  from s1 have "\<exists>d. stop_at (Loop LSignal 0 True) (Some ?v) None d" by (rule stop_works) (use ws w1 in simp_all)
  then have "\<exists>d. stop_at (Loop LSignal 0 True) (Some (run_goto LoopTest w2)) None d"
    by (rule stop_works) (use w_step.WorkWoken [of ?v] in \<open>simp_all add: w2_lits\<close>)
  then have "\<exists>d. stop_at (Loop LSignal 0 True) (Some (run_goto Top w2)) None d"
    by (rule stop_works) (use w_step.LoopTest [of "run_goto LoopTest w2"] in simp_all)
  then show ?thesis by (rule stop_works) (use w_step.Top [of "run_goto Top w2"] in simp_all)
qed

text \<open>It looks at its slot once more, finds nothing and falls asleep, which wakes the caller.\<close>

lemma stop_serve:
  assumes "stop_at (Loop LSignal i b) (Some w) g d" and "dl_step demo_ops d d'" and "proc d' = demo_proc (Loop LSignal i b) (Some w')"
    and "accepted (queue d') = accepted (queue d)" "wpc (queue d') = wpc (queue d)" "delivered (queue d') = delivered (queue d)"
    and "\<not> finished (queue d') 0"
  shows "stop_at (Loop LSignal i b) (Some w') (got d' 0) d'"
proof -
  note D = stop_atD [OF assms(1)]
  have "life_step demo_ops d d'" by (rule life_step.Serve [OF assms(2)]) (simp add: assms(4,5))
  from life_reach.Step [OF D(1) this] D(3,4) assms(3,4,6,7) show ?thesis by (simp add: stop_at_def)
qed

lemma stop_queue:
  assumes "stop_at (Loop LSignal i b) (Some w) g d" and "run_at w \<noteq> Init"
  obtains R pos D where "sq_inv demo_ops (queue d) [0] R pos D" "length (accepted (queue d)) \<le> pos 0" "listed (queue d) 0"
proof -
  note D = stop_atD [OF assms(1)]
  have core: "dl_core demo_ops d" using life_invD(2) [OF D(7)] D(2) by (simp add: sig_inv_def)
  obtain xs R pos E where c: "sq_inv demo_ops (queue d) xs R pos E" by (rule core_queue [OF core])
  have l: "listed (queue d) y \<longleftrightarrow> y = 0" for y using dl_coreD(3) [OF core] D(2) assms(2) by (simp add: roster_part_def)
  have "distinct xs" using c by (simp add: sq_inv_def list_part_def rlist_ok_def)
  moreover have "y \<in> set xs \<longleftrightarrow> y = 0" for y using inv_listed [OF c] l by blast
  ultimately have "xs = [0]" by (rule singleton_list)
  moreover have "pending (queue d) 0" using l D(6) by (simp add: pending_def)
  then have "length (accepted (queue d)) \<le> pos 0" using delivered_all_empty [OF c] D(3,4) by simp
  ultimately show thesis using that c l by blast
qed

lemma stop_looks: "\<exists>d. stop_at (Loop LSignal 0 True) (Some (run_goto WorkSection w2)) None d"
proof -
  obtain d where d: "stop_at (Loop LSignal 0 True) (Some (run_goto Working w2)) None d" using stop_signals by blast
  note D = stop_atD [OF d]
  obtain R pos E where i: "sq_inv demo_ops (queue d) [0] R pos E" "length (accepted (queue d)) \<le> pos 0"
    by (rule stop_queue [OF d]) simp_all
  have rp: "ring_part demo_ops (queue d) R E" and lp: "list_part (queue d) [0] R pos" using i(1) by (simp_all add: sq_inv_def)
  note Rg = ring_partD [OF rp] and L = list_partD [OF lp]
  let ?s = "set_isDone 0 False (set_isEmpty 0 True (sq (queue d)))"
  have "liveCount (sq (queue d)) \<le> pos 0 - R" using Rg(4,6) i(2) by simp
  then have rm: "removeSlot 0 (sq (queue d)) = Inr (NullEntry, ?s)"
    using sample.removeSlot_ok(1) [OF Rg(1) [unfolded demo_ops_def] L(9,8) [of 0]] by simp
  let ?e = "d\<lparr>queue := (queue d)\<lparr>sq := ?s, moved := moved (queue d) - {0}\<rparr>, got := (got d)(0 \<mapsto> False)\<rparr>"
  have "dl_step demo_ops d ?e" using dl_step.Look [of d 0 ?s demo_ops] D(2,5,6) rm by simp
  from stop_serve [OF d this] D(2) have e: "stop_at (Loop LSignal 0 True) (Some (run_goto Working w2)) (Some False) ?e" by simp
  let ?f = "?e\<lparr>got := (got ?e)(0 := None), proc := goto_place 0 WorkSection (proc ?e)\<rparr>"
  have "dl_step demo_ops ?e ?f" using dl_step.Nothing [of ?e 0 demo_ops] D(2) by simp
  from stop_serve [OF e this] D(2) have "stop_at (Loop LSignal 0 True) (Some (run_goto WorkSection w2)) None ?f" by simp
  then show ?thesis by blast
qed

lemma stop_sleeps:
  "\<exists>d. stop_at (Loop LStop 0 False) (Some (w2\<lparr>run_at := WorkSleep, isWaitingFlag := True, ctl_at := NoCall\<rparr>)) None d"
proof -
  let ?w = "w2\<lparr>run_at := WorkSleep, isWaitingFlag := True, ctl_at := NoCall\<rparr>"
  obtain d where d: "stop_at (Loop LSignal 0 True) (Some (run_goto WorkSection w2)) None d" using stop_looks by blast
  note D = stop_atD [OF d]
  obtain R pos E where i: "sq_inv demo_ops (queue d) [0] R pos E" "length (accepted (queue d)) \<le> pos 0" "listed (queue d) 0"
    by (rule stop_queue [OF d]) simp
  have "fst (SyncQueue_isEmpty 0 (sq (queue d)))" using empty_iff [OF i(1,3)] i(2) by simp
  then obtain s where s: "SyncQueue_isEmpty 0 (sq (queue d)) = (True, s)" by (metis prod.collapse)
  let ?e = "d\<lparr>queue := (queue d)\<lparr>sq := s\<rparr>, proc := goto_place 0 TestTerminated (proc d)\<rparr>"
  have f: "\<not> finished (queue ?e) 0" using D(6) s by (auto simp: SyncQueue_isEmpty_def Let_def split: if_splits)
  have "dl_step demo_ops d ?e" using dl_step.IsWork [of d 0 True s demo_ops] D(2) s by simp
  from stop_serve [OF d this] D(2,5) f have "stop_at (Loop LSignal 0 True) (Some (run_goto TestTerminated w2)) None ?e" by simp
  then have "\<exists>d. stop_at (Loop LSignal 0 True) (Some (run_goto TestTerminated w2)) None d" by blast
  then have "\<exists>d. stop_at (Loop LSignal 0 True) (Some (run_goto TestPaused w2)) None d"
    by (rule stop_works) (use w_step.TestTerminated [of "run_goto TestTerminated w2"] in simp_all)
  then have "\<exists>d. stop_at (Loop LSignal 0 True) (Some (ctl_goto SignalWoken ?w)) None d"
    by (rule stop_works) (use w_step.TestPaused [of "run_goto TestPaused w2"] in \<open>simp_all add: run_sleep_def wakeJoiner_def w2_lits\<close>)
  then have "\<exists>d. stop_at (Loop LSignal 0 True) (Some ?w) None d"
    by (rule stop_works) (use w_step.SignalWoken [of "ctl_goto SignalWoken ?w"] in \<open>simp_all add: workLockHeld_def\<close>)
  then have "\<exists>d. stop_at (Loop LSignal 1 False) (Some ?w) None d"
    by (rule stop_move) (use qp_step.Return [of "demo_proc (Loop LSignal 0 True) (Some ?w)" LSignal 0 ?w] in simp_all)
  then show ?thesis
    by (rule stop_move) (use qp_step.Done [of "demo_proc (Loop LSignal 1 False) (Some ?w)" LSignal 1] in simp_all)
qed

text \<open>Now it is told to end, leaves the reader list, dies and is joined.\<close>

lemma left_waiting: "endAccess x s = Inr t \<Longrightarrow> ri_inQueue (readers s x) \<Longrightarrow> \<not> ri_isDone (readers t x)"
  by (auto simp: endAccess_def readerList_remove_def bind_r_Inr_iff split: if_splits)

lemma stop_finalizes: "\<exists>w d. stop_at (Loop LJoin 0 False) (Some w) None d \<and> run_at w = Finalizing"
proof -
  let ?w = "w2\<lparr>run_at := WorkSleep, isWaitingFlag := True, ctl_at := NoCall\<rparr>"
  let ?t = "?w\<lparr>isTerminatedFlag := True, quiet := False, ctl_at := StopResume\<rparr>"
  let ?u = "?t\<lparr>run_at := WorkWoken, isIdleFlag := False, ctl_at := NoCall, stopped := True\<rparr>"
  let ?v = "?u\<lparr>isWaitingFlag := False, run_at := Finalizing\<rparr>"
  have st: "isStartedFlag ?w" by (simp add: w2_lits)
  have "Worker_stop ?w = ?t" using st by (simp add: Worker_stop_def)
  then have "\<exists>d. stop_at (Loop LStop 0 True) (Some ?t) None d"
    by (intro stop_move [OF stop_sleeps])
      (use qp_step.Call [of "demo_proc (Loop LStop 0 False) (Some ?w)" LStop 0 ?w] in simp_all)
  then have "\<exists>d. stop_at (Loop LStop 0 True) (Some (ctl_goto StopSignal ?t)) None d"
    by (rule stop_works) (use w_step.StopResume [of ?t] in \<open>simp_all add: Worker_resume_def\<close>)
  then have "\<exists>d. stop_at (Loop LStop 0 True) (Some (?t\<lparr>ctl_at := StopIdle, run_at := WorkWoken\<rparr>)) None d"
    by (rule stop_works)
      (use w_step.StopSignal [of "ctl_goto StopSignal ?t"] in \<open>simp_all add: workLockHeld_def Worker_signal_def wakeWorker_def w2_lits\<close>)
  then have "\<exists>d. stop_at (Loop LStop 0 True) (Some ?u) None d"
    by (rule stop_works)
      (use w_step.StopIdle [of "?t\<lparr>ctl_at := StopIdle, run_at := WorkWoken\<rparr>"] in \<open>simp_all add: Worker_stop_idle_def\<close>)
  then have "\<exists>d. stop_at (Loop LStop 1 False) (Some ?u) None d"
    by (rule stop_move) (use qp_step.Return [of "demo_proc (Loop LStop 0 True) (Some ?u)" LStop 0 ?u] in simp_all)
  then have "\<exists>d. stop_at (Loop LJoin 0 False) (Some ?u) None d"
    by (rule stop_move) (use qp_step.Done [of "demo_proc (Loop LStop 1 False) (Some ?u)" LStop 1] in simp_all)
  then have "\<exists>d. stop_at (Loop LJoin 0 False) (Some (?u\<lparr>isWaitingFlag := False, run_at := LoopTest\<rparr>)) None d"
    by (rule stop_works) (use w_step.WorkWoken [of ?u] in simp_all)
  then have "\<exists>d. stop_at (Loop LJoin 0 False) (Some ?v) None d"
    by (rule stop_works) (use w_step.LoopTest [of "?u\<lparr>isWaitingFlag := False, run_at := LoopTest\<rparr>"] in simp_all)
  then show ?thesis by (intro exI [of _ ?v]) simp
qed

lemma stop_leaves: "\<exists>d. stop_at (Loop LJoin 1 False) None None d"
proof -
  obtain w d where d: "stop_at (Loop LJoin 0 False) (Some w) None d" "run_at w = Finalizing" using stop_finalizes by blast
  note D = stop_atD [OF d(1)]
  have sh: "shut_inv demo_ops d" using life_invD(3) [OF D(7), of LJoin 0 False] D(2) by simp
  have ls: "listed (queue d) 0" using shutD(4) [OF sh] D(2) by (simp add: present_def d(2))
  from leave_ok [OF shutD(1) [OF sh] ls] obtain s where s: "endAccess 0 (sq (queue d)) = Inr s" "leaving demo_ops ((queue d)\<lparr>sq := s\<rparr>)"
    by blast
  let ?v = "run_goto SignalDead w" and ?z = "run_goto Dead (signalDead (run_goto SignalDead w))"
  let ?e = "d\<lparr>queue := (queue d)\<lparr>sq := s\<rparr>, proc := goto_place 0 SignalDead (proc d)\<rparr>"
  have "life_step demo_ops d ?e" by (rule life_step.Leave [OF _ s(1)]) (simp add: D(2) d(2))
  moreover have "\<not> finished (queue ?e) 0" using left_waiting [OF s(1) ls] by simp
  ultimately have "stop_at (Loop LJoin 0 False) (Some ?v) None ?e"
    using life_reach.Step [OF D(1)] D(2-5) by (simp add: stop_at_def)
  then have "\<exists>d. stop_at (Loop LJoin 0 False) (Some ?v) None d" by blast
  then have "\<exists>d. stop_at (Loop LJoin 0 False) (Some ?z) None d"
    by (rule stop_works) (use w_step.SignalDead [of ?v] in simp_all)
  then show ?thesis
    by (rule stop_move) (use qp_step.Join [of "demo_proc (Loop LJoin 0 False) (Some ?z)" 0 ?z] in \<open>simp_all add: Worker_join_def signalDead_def\<close>)
qed

section \<open>Properties\<close>

lemma life_turn:
  assumes "life_step ops d d'" and "qp_at (proc d') \<noteq> qp_at (proc d)"
  shows "queue d' = queue d \<and> qp_step (proc d) (proc d')"
  using assms(1)
proof cases
  case Serve
  from Serve(1) show ?thesis by cases (use assms(2) in \<open>auto intro: qp_step.Broadcast\<close>)
qed (use assms(2) in auto)





text \<open>
  C23. A worker that ends finds itself in the reader list: \<^verbatim>\<open>QueueConsumerWorker::finalize\<close> removes it without following a
  null pointer, whatever the order in which the workers end, and takes only itself out of the list.
\<close>

theorem finalize_leaves:
  assumes "life_reach (sample_ops sz) (dl_init (sample_ops sz) a ids p) d" and "QueueProcessor_new k cs n = Inr p"
    and "2 \<le> uint n" "uint n \<le> 1073741824" and "place (proc d) x = Some Finalizing"
  shows "\<exists>s. endAccess x (sq (queue d)) = Inr s \<and> listed (queue d) x \<and>
    (\<forall>y. ri_inQueue (readers s y) \<longleftrightarrow> y \<noteq> x \<and> listed (queue d) y)"
proof -
  have inv: "life_inv (sample_ops sz) d" by (rule sample.life_reach_inv [OF assms(1) sample.life_init_inv [OF assms(2-4)]])
  have s: "shut_inv (sample_ops sz) d" by (rule finalizing_shut [OF inv assms(5)])
  have l: "listed (queue d) x" using shutD(4) [OF s] assms(5) by (auto simp: present_def)
  from leave_ok [OF shutD(1) [OF s] l] show ?thesis using l by metis
qed

theorem finalize_leaves_witness:
  "\<exists>(d :: (queue_entry, sample_member, unit) dlc) s. place (proc d) 0 = Some Finalizing \<and> endAccess 0 (sq (queue d)) = Inr s \<and>
    \<not> ri_inQueue (readers s 0)"
proof -
  obtain w d where d: "stop_at (Loop LJoin 0 False) (Some w) None d" "run_at w = Finalizing" using stop_finalizes by blast
  note D = stop_atD [OF d(1)]
  have p: "place (proc d) 0 = Some Finalizing" using D(2) d(2) by simp
  from finalize_leaves [OF D(1) [unfolded demo_ops_def demo_dl_def] demo_new _ _ p] p show ?thesis by auto
qed

end
