(* ===== verification/Delivery_Order.thy ===== *)
theory Delivery_Order
  imports Shutdown_Properties
begin

text \<open>
  The order of delivery with one worker: a processor that was given a single worker hands its entries to the consumer in
  the order in which they were accepted, over its whole life (\<open>life_step\<close>), with growth, pauses, stops and restarts. With
  more workers the entries are claimed in order, but handed over in any order.
\<close>

section \<open>One reader\<close>

definition in_order :: "('e, 'm) sqc \<Rightarrow> bool" where
  "in_order c \<longleftrightarrow> map snd (delivered c) = take (length (delivered c)) (accepted c)"

lemma in_order_le: "in_order c \<Longrightarrow> length (delivered c) \<le> length (accepted c)"
  by (metis in_order_def length_map length_take min.cobounded1)

lemma in_order_more: "in_order c \<Longrightarrow> delivered c' = delivered c \<Longrightarrow> accepted c' = accepted c @ es \<Longrightarrow> in_order c'"
  using in_order_le [of c] by (simp add: in_order_def)

text \<open>A single reader that has still to handle the entry of its position has got all entries before it.\<close>

lemma single_position:
  assumes inv: "sq_inv ops c xs R pos D" and x: "pending c x" and one: "\<And>y. listed c y \<Longrightarrow> y = x"
  shows "length (delivered c) = pos x"
proof -
  have dp: "deliv_part c xs R pos D" using inv by (simp add: sq_inv_def)
  have "y \<in> set xs \<longleftrightarrow> y = x" for y using inv_listed [OF inv, of y] one x by (auto simp: pending_def)
  moreover have "distinct xs" using inv by (simp add: sq_inv_def list_part_def rlist_ok_def)
  ultimately have xs: "xs = [x]" using singleton_list by metis
  have "claimed xs R pos p \<longleftrightarrow> p \<in> set D \<or> (\<exists>y. pending c y \<and> pos y = p)" for p using dp by (simp add: deliv_part_def)
  moreover have "(\<exists>y. pending c y \<and> pos y = p) \<longleftrightarrow> p = pos x" for p using one x unfolding pending_def by blast
  ultimately have "p \<le> pos x \<longleftrightarrow> p \<in> set D \<or> p = pos x" for p unfolding claimed_def xs by simp
  moreover have "pos x \<notin> set D" using dp x by (simp add: deliv_part_def)
  ultimately have "set D = {..<pos x}" by (metis lessThan_iff less_le subsetI subset_antisym)
  moreover have "distinct D" "length D = length (delivered c)"
    using dp unfolding deliv_part_def by (blast, metis length_map)
  ultimately show ?thesis using distinct_card [of D] by simp
qed

context entry_class
begin

lemma take_in_order:
  assumes inv: "sq_inv ops c xs R pos D" and x: "listed c x" "\<not> finished c x \<or> x \<in> moved c"
    and r: "removeSlot x (sq c) = Inr (p, s)" "p \<noteq> NullEntry" "deref ops p (dataEntries s) = Inr e"
    and one: "\<And>y. listed c y \<Longrightarrow> y = x" and o: "in_order c"
  shows "in_order (c\<lparr>sq := s, moved := moved c - {x}, delivered := delivered c @ [(x, e)], held := (held c)(x \<mapsto> (p, e))\<rparr>)"
proof -
  let ?c = "c\<lparr>sq := s, moved := moved c - {x}, delivered := delivered c @ [(x, e)], held := (held c)(x \<mapsto> (p, e))\<rparr>"
  have l: "length (delivered c) = pos x" by (rule single_position [OF inv _ one]) (use x in \<open>auto simp: pending_def\<close>)
  have "deliv_part ?c xs R pos (D @ [pos x])" using Take_inv [OF inv x r] by (simp add: sq_inv_def)
  then have "map snd (delivered c @ [(x, e)]) = map (\<lambda>p. accepted c ! p) (D @ [pos x])" "pos x < length (accepted c)"
    by (simp_all add: deliv_part_def)
  then show ?thesis using o l by (simp add: in_order_def take_Suc_conv_app_nth)
qed

text \<open>Every step of a processor with at most one worker keeps the order.\<close>

lemma working_core:
  assumes inv: "life_inv ops d" and x: "place (proc d) x = Some Working"
  shows "dl_core ops d"
proof (cases "serving (proc d)")
  case True
  then show ?thesis using dl_invD(1) life_invD(1) [OF inv] by blast
next
  case False
  then show ?thesis
  proof (cases rule: not_servingE)
    case (signal i b)
    then show ?thesis using life_invD(2) [OF inv] by (simp add: sig_inv_def)
  next
    case (shut l i b)
    then show ?thesis using shut_place [OF life_invD(3) [OF inv shut] x] by (simp add: present_def)
  next
    case gone
    then show ?thesis using gone_place [OF life_invD(4) [OF inv False gone(2)] gone(2)] x by simp
  qed
qed

lemma life_step_order:
  assumes st: "life_step ops d d'" and inv: "life_inv ops d" and o: "in_order (queue d)" and n: "length (workers (proc d)) \<le> 1"
  shows "in_order (queue d')"
  using st
proof cases
  case Serve
  from Serve(1) show ?thesis
  proof cases
    case (Write c)
    from Write(2) have "delivered c = delivered (queue d) \<and> (\<exists>es. accepted c = accepted (queue d) @ es)"
      by cases (use Write(3) in simp_all)
    then show ?thesis using in_order_more [OF o] Write(1) by auto
  next
    case (Take x r s e)
    have core: "dl_core ops d" by (rule working_core [OF inv Take(2)])
    obtain xs R pos D where c: "sq_inv ops (queue d) xs R pos D" by (rule core_queue [OF core])
    have lt: "x < 1" using Take(2) n by (auto simp: place_eq)
    have l: "listed (queue d) y \<Longrightarrow> y < 1" for y
      using dl_coreD(3) [OF core] n by (fastforce simp: roster_part_def place_eq)
    have "listed (queue d) x" using core_reader(1) [OF core Take(2)] by simp
    from take_in_order [OF c this Take(4-7) _ o] show ?thesis unfolding Take(1) using lt l by simp
  qed (use o in \<open>simp_all add: in_order_def\<close>)
qed (use o in \<open>simp_all add: in_order_def\<close>)

end

lemma qp_shrinks: "qp_step p p' \<Longrightarrow> length (workers p') \<le> length (workers p)"
proof (induction rule: qp_step.induct)
  case (Done p l i)
  then show ?case by (cases l) (simp_all add: qp_ops)
qed (simp_all add: qp_ops)

lemma life_shrinks: "life_step ops d d' \<Longrightarrow> length (workers (proc d')) \<le> length (workers (proc d))"
  by (induction rule: life_step.induct) (auto dest!: proc_step dest: qp_shrinks)

lemma life_order:
  assumes "life_reach (sample_ops sz) (dl_init (sample_ops sz) a ids p) d" and "QueueProcessor_new 1 cs n = Inr p"
    and "2 \<le> uint n" "uint n \<le> 1073741824"
  shows "life_inv (sample_ops sz) d \<and> in_order (queue d) \<and> length (workers (proc d)) \<le> 1"
proof -
  let ?i = "dl_init (sample_ops sz) a ids p"
  have i: "life_inv (sample_ops sz) ?i" by (rule sample.life_init_inv [OF assms(2-4)])
  have s: "length (workers (proc ?i)) \<le> 1" "in_order (queue ?i)"
    using new_workers(1) [OF assms(2)] by (simp_all add: dl_init_def sq_init_def in_order_def)
  from assms(1) i s show ?thesis
  proof (induction rule: life_reach.induct)
    case (Step d d' d'')
    have i: "life_inv (sample_ops sz) d'" "in_order (queue d')" "length (workers (proc d')) \<le> 1"
      using Step.IH [OF Step.prems] by - (elim conjE, assumption)+
    from sample.life_step_inv [OF Step.hyps(2) i(1)] sample.life_step_order [OF Step.hyps(2) i] life_shrinks [OF Step.hyps(2)] i(3)
    show ?case by (intro conjI) simp_all
  qed (intro conjI, assumption+)
qed

section \<open>Property\<close>

text \<open>
  C11. With one worker the entries are delivered first in, first out: over the whole life of the processor, at every moment
  and however it grew, was paused, stopped or restarted, what was delivered is what was accepted first, in order.
\<close>

theorem single_worker_fifo:
  assumes "life_reach (sample_ops sz) (dl_init (sample_ops sz) a ids p) d" and "QueueProcessor_new 1 cs n = Inr p"
    and "2 \<le> uint n" "uint n \<le> 1073741824"
  shows "map snd (delivered (queue d)) = take (length (delivered (queue d))) (accepted (queue d))"
  using life_order [OF assms] by (simp add: in_order_def)

theorem single_worker_fifo_witness:
  "\<exists>d :: (queue_entry, sample_member, unit) dlc. qp_at (proc d) = Loop LJoin 1 False \<and> map snd (delivered (queue d)) = [demo_entry 1]"
proof -
  obtain d where d: "stop_at (Loop LJoin 1 False) None None d" using stop_leaves by blast
  note D = stop_atD [OF d]
  have r: "life_reach (sample_ops 256) (dl_init (sample_ops 256) DataArray_init (\<lambda>_. 0) demo_processor) d"
    using D(1) by (simp only: demo_ops_def demo_dl_def)
  have "map snd (delivered (queue d)) = take (length (delivered (queue d))) (accepted (queue d))"
    by (rule single_worker_fifo [OF r demo_new]) simp_all
  also have "\<dots> = [demo_entry 1]" unfolding D(3,4) by simp
  finally have m: "map snd (delivered (queue d)) = [demo_entry 1]" .
  have q: "qp_at (proc d) = Loop LJoin 1 False" using D(2) by simp
  show ?thesis by (intro exI conjI) (rule q, rule m)
qed

end
