(* ===== verification/Delivery_Progress.thy ===== *)
theory Delivery_Progress
  imports Delivery_Order
begin

text \<open>
  The progress of a worker on its own: once the producers have made their broadcasts and the processor is not called, a
  worker that is not paused makes a bounded number of steps, is never stuck, and falls asleep only when everything that was
  accepted has been delivered.
\<close>

section \<open>The steps of the only worker\<close>

text \<open>
  A step of the only worker moves its thread: its place, what its \<^verbatim>\<open>remove\<close> has returned or whether its reader has moved on.
  A worker that sleeps makes no step; it waits for a signal.
\<close>

definition thread_at :: "('e, 'm, 'c) dlc \<Rightarrow> run_pc option \<times> bool option \<times> bool" where
  "thread_at d = (place (proc d) 0, got d 0, 0 \<in> moved (queue d))"

definition lone_step :: "('e, 'm) entry_ops \<Rightarrow> ('e, 'm, 'c) dlc \<Rightarrow> ('e, 'm, 'c) dlc \<Rightarrow> bool" where
  "lone_step ops d d' \<longleftrightarrow> dl_step ops d d' \<and> place (proc d) 0 \<noteq> Some WorkSleep \<and> thread_at d' \<noteq> thread_at d"

inductive lone_run :: "('e, 'm) entry_ops \<Rightarrow> nat \<Rightarrow> ('e, 'm, 'c) dlc \<Rightarrow> ('e, 'm, 'c) dlc \<Rightarrow> bool" for ops where
  Refl: "lone_run ops 0 d d"
| Step: "lone_run ops n d d' \<Longrightarrow> lone_step ops d' d'' \<Longrightarrow> lone_run ops (Suc n) d d''"

definition lone :: "('e, 'm) entry_ops \<Rightarrow> ('e, 'm, 'c) dlc \<Rightarrow> bool" where
  "lone ops d \<longleftrightarrow> dl_inv ops d \<and> qp_at (proc d) = Ready \<and> length (workers (proc d)) = 1 \<and> owed d = 0 \<and>
     (\<exists>w. worker (proc d) 0 = Some w \<and> \<not> isPausedFlag w)"

lemma loneD:
  assumes "lone ops d"
  shows "dl_inv ops d" "dl_core ops d" "qp_at (proc d) = Ready" "length (workers (proc d)) = 1" "owed d = 0" "serving (proc d)"
    "place (proc d) x = Some q \<Longrightarrow> x = 0"
  using assms dl_invD(1,7) [of ops d] by (auto simp: lone_def place_eq)

lemma lone_worker:
  assumes "lone ops d"
  obtains w where "worker (proc d) 0 = Some w" "\<not> isPausedFlag w" "live w" "ctl_at w = NoCall" "place (proc d) 0 = Some (run_at w)"
proof -
  obtain w where w: "worker (proc d) 0 = Some w" "\<not> isPausedFlag w" using assms by (auto simp: lone_def)
  note D = loneD [OF assms]
  have l: "0 < length (workers (proc d))" using D(4) by simp
  have "live w" using dl_invD(3) [OF D(1)] l w(1) unfolding live_part_def by blast
  moreover have "ctl_at w = NoCall" using inv_NoCall(1) [OF dl_invD(2) [OF D(1)] l w(1)] D(3) by simp
  moreover have "place (proc d) 0 = Some (run_at w)" using l w(1) by (simp add: place_def)
  ultimately show thesis using w that by blast
qed

text \<open>The reader list of a lone worker that has joined it.\<close>

lemma lone_list:
  assumes "lone ops d" and "place (proc d) 0 = Some q" and "q \<noteq> Init"
  obtains R pos D where "sq_inv ops (queue d) [0] R pos D" "ring_part ops (queue d) R D" "list_part (queue d) [0] R pos"
proof -
  note L = loneD [OF assms(1)]
  obtain xs R pos D where c: "sq_inv ops (queue d) xs R pos D" by (rule core_queue [OF L(2)])
  have "listed (queue d) y \<longleftrightarrow> y = 0" for y
    using dl_invD(4) [OF L(1)] L(7) [of y] assms(2,3) by (auto simp: roster_part_def)
  then have "\<And>y. y \<in> set xs \<longleftrightarrow> y = 0" using inv_listed [OF c] by blast
  moreover have "distinct xs" using c by (simp add: sq_inv_def list_part_def rlist_ok_def)
  ultimately have "xs = [0]" by (intro singleton_list)
  then have i: "sq_inv ops (queue d) [0] R pos D" using c by simp
  then show thesis by (intro that [OF i]) (simp_all add: sq_inv_def)
qed

lemma delivered_le: "sq_inv ops c xs R pos D \<Longrightarrow> length (delivered c) \<le> length (accepted c)"
proof -
  assume "sq_inv ops c xs R pos D"
  then have d: "distinct D" "set D \<subseteq> {..<length (accepted c)}" "map snd (delivered c) = map (\<lambda>p. accepted c ! p) D"
    by (auto simp: sq_inv_def deliv_part_def)
  from d(3) have "length (delivered c) = length D" by (metis length_map)
  then show ?thesis using d(1) card_mono [OF _ d(2)] distinct_card [of D] by simp
qed

section \<open>The thread\<close>

text \<open>Outside its calls the thread follows the loop of \<^verbatim>\<open>run\<close>.\<close>

definition goes :: "run_pc \<Rightarrow> run_pc \<Rightarrow> bool" where
  "goes q q' \<longleftrightarrow> (q, q') \<in> {(Top, Working), (PauseSection, LoopTest), (PauseWoken, LoopTest), (TestTerminated, TestPaused),
     (TestPaused, WorkSleep), (WorkWoken, LoopTest), (LoopTest, Top)}"

lemma thread_goes:
  assumes "w_step True w w'" and "live w" and "\<not> isPausedFlag w" and "run_at w \<notin> {Init, Working, WorkSection}"
  shows "goes (run_at w) (run_at w') \<and> \<not> isPausedFlag w'"
  using assms
  by (cases rule: w_step.cases) (auto simp: goes_def live_def run_pause_def run_sleep_def wakeJoiner_def w_inv_def stopping_part_def)

lemma thread_runs:
  assumes "live w" and "\<not> isPausedFlag w" and "ctl_at w = NoCall" and "run_at w \<notin> {Init, Working, WorkSection, WorkSleep}"
  shows "\<exists>w'. w_step True w w'"
proof -
  have "run_at w \<noteq> PauseSleep" "run_at w \<notin> {FailPaused, FailWork, Finalizing, SignalDead, Dead, NotStarted, Failing}"
    using assms(1,2) by (auto simp: live_def w_inv_def flags_part_def stopping_part_def)
  moreover have "\<not> pausedLockHeld w" using assms(3) by simp
  ultimately show ?thesis using assms(4) w_step.intros by (cases "run_at w") (simp_all, blast+)
qed

text \<open>A step of the processor that moves the worker's thread and leaves the processor serving is a step of that thread.\<close>

lemma thread_only:
  assumes "qp_step p p'" and "qp_at p = Ready" and "length (workers p) = 1" and "serving p'" and "place p' 0 \<noteq> place p 0"
  obtains w w' where "worker p 0 = Some w" "run_step w w'" "p' = setWorker 0 (Some w') p"
  using assms
proof (induction rule: qp_step.induct)
  case (Run i p w w')
  then have "i = 0" by simp
  then show ?case using Run by blast
qed (auto simp: qp_ops place_def serving_def split: if_splits)

section \<open>Rank\<close>

text \<open>
  What a worker still has to do before its next entry or its sleep: it is \<open>done\<close> with its slot and has to move on
  (\<open>f\<close>), or waits at an empty slot (\<open>e\<close>), or has an entry to take.
\<close>

definition local_rank :: "run_pc \<Rightarrow> bool option \<Rightarrow> bool \<Rightarrow> bool \<Rightarrow> nat" where
  "local_rank q g f e =
     (if q = Init then 20 else if q = WorkSleep then 0 else if q = TestPaused then 1 else if q = TestTerminated then 2
      else if q = Working \<and> g = Some True then 18
      else if \<not> f \<and> e then
        (if q = Working then if g = None then 5 else 4 else if q = WorkSection then 3 else if q = Top then 6
         else if q = LoopTest then 7 else 8)
      else (if f then 15 else 10) +
        (if q = Working then if g = None then 0 else 4 else if q = Top then 1 else if q = LoopTest then 2 else 3))"

definition rank :: "('e, 'm, 'c) dlc \<Rightarrow> nat" where
  "rank d = 20 * (length (accepted (queue d)) - length (delivered (queue d))) +
     local_rank (the (place (proc d) 0)) (got d 0) (finished (queue d) 0 \<and> 0 \<notin> moved (queue d))
       (fst (SyncQueue_isEmpty 0 (sq (queue d))))"

lemma local_rank_le: "local_rank q g f e \<le> 20"
  by (simp add: local_rank_def)

lemma rank_le: "rank d \<le> 20 * (length (accepted (queue d)) - length (delivered (queue d))) + 20"
  by (simp add: rank_def local_rank_le)

lemma goes_rank: "goes q q' \<Longrightarrow> local_rank q' None f e < local_rank q None f e"
  by (auto simp: goes_def local_rank_def)

lemma rank_same_queue:
  assumes "accepted c' = accepted c" "delivered c' = delivered c"
  shows "20 * (length (accepted c') - length (delivered c')) = 20 * (length (accepted c) - length (delivered c))"
  using assms by simp

lemma isEmpty_flags [simp]:
  "fst (SyncQueue_isEmpty x (set_isEmpty y b s)) = fst (SyncQueue_isEmpty x s)"
  "fst (SyncQueue_isEmpty x (set_isDone y b s)) = fst (SyncQueue_isEmpty x s)"
  by (simp_all add: SyncQueue_isEmpty_def Let_def)

lemma isEmpty_result: "SyncQueue_isEmpty x s = (e, s') \<Longrightarrow> e = fst (SyncQueue_isEmpty x s) \<and> s' = set_isEmpty x e s"
  by (auto simp: SyncQueue_isEmpty_def Let_def)

context entry_class
begin

text \<open>The only reader always moves on.\<close>

lemma lone_moves:
  assumes "lone ops d" and "place (proc d) 0 = Some q" and "q \<noteq> Init"
  shows "\<exists>s. moveToFront 0 (sq (queue d)) = Inr (True, s)"
proof -
  obtain R pos D where c: "ring_part ops (queue d) R D" "list_part (queue d) [0] R pos" by (rule lone_list [OF assms])
  note sl = slots_ok_inv [OF c]
  have "\<not> spans (ring_size (sq (queue d))) (rl_abs (sq (queue d)) [0])" using spans_two [OF sl] by force
  from moveToFront_advances [OF list_partD(1) [OF c(2)] sl _ this] show ?thesis by auto
qed

text \<open>It finds its slot empty, or takes the entry in it.\<close>

lemma lone_removes:
  assumes "lone ops d" and "place (proc d) 0 = Some q" and "q \<noteq> Init"
  shows "if fst (SyncQueue_isEmpty 0 (sq (queue d)))
    then removeSlot 0 (sq (queue d)) = Inr (NullEntry, set_isDone 0 False (set_isEmpty 0 True (sq (queue d))))
    else \<exists>p e. removeSlot 0 (sq (queue d)) = Inr (p, set_isDone 0 True (set_isEmpty 0 False (sq (queue d)))) \<and> p \<noteq> NullEntry \<and>
      deref ops p (dataEntries (sq (queue d))) = Inr e"
proof -
  obtain R pos D where c: "sq_inv ops (queue d) [0] R pos D" "ring_part ops (queue d) R D" "list_part (queue d) [0] R pos"
    by (rule lone_list [OF assms])
  note Rg = ring_partD [OF c(2)] and L = list_partD [OF c(3)]
  have e: "fst (SyncQueue_isEmpty 0 (sq (queue d))) \<longleftrightarrow> liveCount (sq (queue d)) \<le> pos 0 - R"
    using empty_iff [OF c(1), of 0] L(3) [of 0] L(7) [of 0] Rg(4,6) by auto
  show ?thesis
  proof (cases "liveCount (sq (queue d)) \<le> pos 0 - R")
    case True
    from removeSlot_ok(1) [OF Rg(1) L(9,8) [of 0] True] e True show ?thesis by simp
  next
    case False
    then have k: "pos 0 - R < liveCount (sq (queue d))" by simp
    from removeSlot_ok(2) [OF Rg(1) L(9,8) [of 0] k] e False show ?thesis by auto
  qed
qed

text \<open>A worker that does not sleep can make a step.\<close>

lemma lone_joins:
  assumes "lone ops d" and "place (proc d) 0 = Some Init"
  shows "\<exists>s. startAccess 0 (sq (queue d)) = Inr s"
proof -
  note L = loneD [OF assms(1)]
  obtain xs R pos D where c: "sq_inv ops (queue d) xs R pos D" by (rule core_queue [OF L(2)])
  have "\<not> listed (queue d) y" for y
    using dl_invD(4) [OF L(1)] L(7) [of y] assms(2) by (auto simp: roster_part_def)
  then have "xs = []" using inv_listed [OF c] by (metis list.set_intros(1) neq_Nil_conv)
  then have "rlist_ok (sq (queue d)) []" using c by (simp add: sq_inv_def list_part_def)
  from add_first_refines [OF this, of 0] show ?thesis by (auto simp: startAccess_def)
qed

lemma lone_works:
  assumes l: "lone ops d" and p: "place (proc d) 0 = Some Working" and g: "got d 0 = None"
  shows "\<exists>d'. dl_step ops d d' \<and> thread_at d' \<noteq> thread_at d"
proof (cases "finished (queue d) 0 \<and> 0 \<notin> moved (queue d)")
  case True
  obtain s where s: "moveToFront 0 (sq (queue d)) = Inr (True, s)" using lone_moves [OF l p] by auto
  from dl_step.Move [OF p g True [THEN conjunct1] True [THEN conjunct2] s] show ?thesis
    by (intro exI conjI, assumption) (use True in \<open>simp add: thread_at_def\<close>)
next
  case False
  then have f: "\<not> finished (queue d) 0 \<or> 0 \<in> moved (queue d)" by simp
  show ?thesis
  proof (cases "fst (SyncQueue_isEmpty 0 (sq (queue d)))")
    case True
    with lone_removes [OF l p] have "removeSlot 0 (sq (queue d)) = Inr (NullEntry, set_isDone 0 False (set_isEmpty 0 True (sq (queue d))))"
      by simp
    from dl_step.Look [OF p g f this] show ?thesis by (intro exI conjI, assumption) (use g in \<open>simp add: thread_at_def\<close>)
  next
    case False
    with lone_removes [OF l p] obtain r e where
      "removeSlot 0 (sq (queue d)) = Inr (r, set_isDone 0 True (set_isEmpty 0 False (sq (queue d))))" "r \<noteq> NullEntry"
      "deref ops r (dataEntries (set_isDone 0 True (set_isEmpty 0 False (sq (queue d))))) = Inr e" by auto
    from dl_step.Take [OF p g f this] show ?thesis by (intro exI conjI, assumption) (use g in \<open>simp add: thread_at_def\<close>)
  qed
qed

lemma lone_calls:
  assumes l: "lone ops d" and p: "place (proc d) 0 = Some q" "q \<in> {Init, Working, WorkSection}"
  shows "\<exists>d'. dl_step ops d d' \<and> thread_at d' \<noteq> thread_at d"
proof -
  note pl = place_goto [OF p(1)]
  consider (init) "q = Init" | (test) "q = WorkSection" | (look) "q = Working" "got d 0 = None" | (handle) "q = Working" "got d 0 = Some True"
    | (none) "q = Working" "got d 0 = Some False" using p(2) by (cases "got d 0") auto
  then show ?thesis
  proof cases
    case init
    with p lone_joins [OF l] obtain s where "startAccess 0 (sq (queue d)) = Inr s" by blast
    from dl_step.Join [OF p(1) [unfolded init] this] show ?thesis
      by (intro exI conjI, assumption) (use pl p(1) init in \<open>simp add: thread_at_def\<close>)
  next
    case test
    from dl_step.IsWork [OF p(1) [unfolded test] surjective_pairing] show ?thesis
      by (intro exI conjI, assumption) (use pl p(1) test in \<open>simp add: thread_at_def\<close>)
  next
    case look
    then show ?thesis using lone_works [OF l] p(1) by simp
  next
    case handle
    from dl_step.Handled [OF p(1) [unfolded handle(1)] handle(2)] show ?thesis
      by (intro exI conjI, assumption) (use pl p(1) handle in \<open>simp add: thread_at_def\<close>)
  next
    case none
    from dl_step.Nothing [OF p(1) [unfolded none(1)] none(2)] show ?thesis
      by (intro exI conjI, assumption) (use pl p(1) none in \<open>simp add: thread_at_def\<close>)
  qed
qed

lemma lone_progress:
  assumes l: "lone ops d" and n: "place (proc d) 0 \<noteq> Some WorkSleep"
  shows "\<exists>d'. lone_step ops d d'"
proof -
  obtain w where w: "worker (proc d) 0 = Some w" "\<not> isPausedFlag w" "live w" "ctl_at w = NoCall" "place (proc d) 0 = Some (run_at w)"
    by (rule lone_worker [OF l])
  note L = loneD [OF l]
  show ?thesis
  proof (cases "run_at w \<in> {Init, Working, WorkSection}")
    case True
    from lone_calls [OF l w(5) this] n show ?thesis by (auto simp: lone_step_def)
  next
    case False
    obtain w' where w': "w_step True w w'" using thread_runs [OF w(3,2,4)] False n w(5) by auto
    have g: "goes (run_at w) (run_at w')" using thread_goes [OF w' w(3,2)] False by simp
    have "dl_step ops d (d\<lparr>proc := setWorker 0 (Some w') (proc d)\<rparr>)"
      by (rule one_step [OF _ L(4,6) w' False]) (simp add: setWorker_same [OF w(1)])
    moreover have "place (setWorker 0 (Some w') (proc d)) 0 = Some (run_at w')" by (rule one_place(1) [OF L(4)])
    moreover have "run_at w' \<noteq> run_at w" using g by (auto simp: goes_def)
    ultimately show ?thesis using n w(5) by (auto simp: lone_step_def thread_at_def)
  qed
qed

text \<open>Every step of it is one step closer to its sleep.\<close>

lemma take_rank:
  assumes "length (delivered (queue d)) < length (accepted (queue d))" and "accepted (queue d') = accepted (queue d)"
    and "length (delivered (queue d')) = Suc (length (delivered (queue d)))" and "place (proc d) 0 = Some Working" "got d 0 = None"
    and "place (proc d') 0 = Some Working" "got d' 0 = Some True"
  shows "rank d' < rank d"
  using assms by (simp add: rank_def local_rank_def)

lemma lone_stays:
  assumes l: "lone ops d" and st: "dl_step ops d d'" and q: "proc d' = proc d \<or> (\<exists>x q. proc d' = goto_place x q (proc d))"
    and o: "owed d' = owed d"
  shows "lone ops d'"
proof -
  note L = loneD [OF l]
  have i: "dl_inv ops d'" by (rule dl_step_inv [OF st L(1)])
  have p: "qp_at (proc d') = Ready" "length (workers (proc d')) = 1" using q L(3,4) by auto
  obtain w where w: "worker (proc d) 0 = Some w" "\<not> isPausedFlag w" by (rule lone_worker [OF l])
  have "\<exists>w'. worker (proc d') 0 = Some w' \<and> \<not> isPausedFlag w'"
    using q
  proof (elim disjE exE)
    fix x q assume "proc d' = goto_place x q (proc d)"
    then show ?thesis using w goto_worker [of 0 "proc d" x q] L(4) by simp
  qed (use w in simp)
  then show ?thesis using i p o L(5) by (simp add: lone_def)
qed

lemma lone_operate:
  assumes l: "lone ops d" and st: "lone_step ops d (d\<lparr>proc := p\<rparr>)" and p: "qp_step (proc d) p" "parked (proc d) p" "serving p"
  shows "lone ops (d\<lparr>proc := p\<rparr>) \<and> rank (d\<lparr>proc := p\<rparr>) < rank d"
proof -
  note L = loneD [OF l]
  have m: "place p 0 \<noteq> place (proc d) 0" and n: "place (proc d) 0 \<noteq> Some WorkSleep" and i: "dl_inv ops (d\<lparr>proc := p\<rparr>)"
    using st dl_step_inv [OF _ L(1)] by (auto simp: lone_step_def thread_at_def)
  obtain w w' where w: "worker (proc d) 0 = Some w" "run_step w w'" "p = setWorker 0 (Some w') (proc d)"
    by (rule thread_only [OF p(1) L(3,4) p(3) m])
  obtain v where v: "worker (proc d) 0 = Some v" "\<not> isPausedFlag v" "live v" "ctl_at v = NoCall" "place (proc d) 0 = Some (run_at v)"
    by (rule lone_worker [OF l])
  have e: "v = w" using v(1) w(1) by simp
  note v = v [unfolded e]
  have pl: "place p 0 = Some (run_at w')" using one_place(1) [OF L(4)] w(3) by simp
  have b: "run_at w \<notin> {Init, Working, WorkSection}" using p(2) v(5) m unfolding parked_def by fastforce
  have "run_at w \<noteq> PauseSleep" using v(2,3) by (auto simp: live_def w_inv_def flags_part_def)
  with w(2) have "w_step True w w'" by cases (use v(4,5) n in simp_all)
  from thread_goes [OF this v(3,2) b] have g: "goes (run_at w) (run_at w')" "\<not> isPausedFlag w'" by simp_all
  have "got d 0 = None" using core_reader(5) [OF L(2) v(5)] b by simp
  then have "rank (d\<lparr>proc := p\<rparr>) < rank d" using goes_rank [OF g(1)] pl v(5) by (simp add: rank_def)
  moreover have "lone ops (d\<lparr>proc := p\<rparr>)" using i L(3-5) w(3) g(2) by (simp add: lone_def)
  ultimately show ?thesis by simp
qed

lemma lone_decreases:
  assumes l: "lone ops d" and st: "lone_step ops d d'"
  shows "lone ops d' \<and> rank d' < rank d"
proof -
  note L = loneD [OF l]
  have s: "dl_step ops d d'" "thread_at d' \<noteq> thread_at d" using st by (simp_all add: lone_step_def)
  have i: "dl_inv ops d'" by (rule dl_step_inv [OF s(1) L(1)])
  from s(1) show ?thesis
  proof cases
    case (Write c)
    have "moved c = moved (queue d)" using Write(2) by cases (use Write(3) in simp_all)
    then show ?thesis using s(2) Write(1) by (simp add: thread_at_def)
  next
    case Broadcast
    then show ?thesis using L(5) by simp
  next
    case (Operate p)
    from lone_operate [OF l st [unfolded Operate(1)] Operate(2-4)] show ?thesis unfolding Operate(1) .
  next
    case (Join x t)
    have x: "x = 0" by (rule L(7) [OF Join(2)])
    have "lone ops d'" by (rule lone_stays [OF l s(1)]) (auto simp: Join(1))
    moreover have "rank d' < rank d"
      using place_goto [OF Join(2)] Join(2) x by (simp add: rank_def local_rank_def Join(1))
    ultimately show ?thesis by simp
  next
    case (Move x b t)
    have x: "x = 0" by (rule L(7) [OF Move(2)])
    have b: "b" using lone_moves [OF l, of Working] Move(2,6) x by auto
    have "lone ops d'" by (rule lone_stays [OF l s(1)]) (auto simp: Move(1))
    moreover have "rank d' < rank d" using Move(2-5) x b by (simp add: rank_def local_rank_def Move(1))
    ultimately show ?thesis by simp
  next
    case (Look x t)
    have x: "x = 0" by (rule L(7) [OF Look(2)])
    from lone_removes [OF l, of Working] Look(2,5) x
    have e: "fst (SyncQueue_isEmpty 0 (sq (queue d)))" "t = set_isDone 0 False (set_isEmpty 0 True (sq (queue d)))"
      by (auto split: if_splits)
    have "lone ops d'" by (rule lone_stays [OF l s(1)]) (auto simp: Look(1))
    moreover have "rank d' < rank d" using Look(2-4) x e by (auto simp: rank_def local_rank_def Look(1))
    ultimately show ?thesis by simp
  next
    case (Take x r t e)
    have x: "x = 0" by (rule L(7) [OF Take(2)])
    have t: "lone ops d'" by (rule lone_stays [OF l s(1)]) (auto simp: Take(1))
    obtain xs R pos D where "sq_inv ops (queue d') xs R pos D" by (rule core_queue [OF loneD(2) [OF t]])
    from delivered_le [OF this] have "length (delivered (queue d)) < length (accepted (queue d))" by (simp add: Take(1))
    then have "rank d' < rank d" by (rule take_rank) (use Take(1-3) x in simp_all)
    then show ?thesis using t by simp
  next
    case (Change x r e e' a)
    then show ?thesis using s(2) by (simp add: thread_at_def)
  next
    case (Handled x)
    have x: "x = 0" by (rule L(7) [OF Handled(2)])
    have "lone ops d'" by (rule lone_stays [OF l s(1)]) (auto simp: Handled(1))
    moreover have "rank d' < rank d"
      using place_goto [OF Handled(2)] Handled(2,3) x by (simp add: rank_def local_rank_def Handled(1))
    ultimately show ?thesis by simp
  next
    case (Nothing x)
    have x: "x = 0" by (rule L(7) [OF Nothing(2)])
    have "lone ops d'" by (rule lone_stays [OF l s(1)]) (auto simp: Nothing(1))
    moreover have "rank d' < rank d"
      using place_goto [OF Nothing(2)] Nothing(2,3) x by (simp add: rank_def local_rank_def Nothing(1))
    ultimately show ?thesis by simp
  next
    case (IsWork x e t)
    have x: "x = 0" by (rule L(7) [OF IsWork(2)])
    from isEmpty_result [OF IsWork(3)] x have e: "e = fst (SyncQueue_isEmpty 0 (sq (queue d)))" "t = set_isEmpty 0 e (sq (queue d))"
      by simp_all
    have "lone ops d'" by (rule lone_stays [OF l s(1)]) (auto simp: IsWork(1))
    moreover have "rank d' < rank d"
      using place_goto [OF IsWork(2)] IsWork(2) x e by (simp add: rank_def local_rank_def IsWork(1))
    ultimately show ?thesis by simp
  next
    case (Grow size' fuel t)
    then show ?thesis using s(2) by (simp add: thread_at_def)
  qed
qed

text \<open>So its runs are bounded, and there is one to the end.\<close>

lemma lone_bound:
  assumes "lone_run ops k d d'" and "lone ops d"
  shows "lone ops d' \<and> k + rank d' \<le> rank d"
  using assms
proof (induction rule: lone_run.induct)
  case (Step k d d' d'')
  then have "lone ops d'" "k + rank d' \<le> rank d" by simp_all
  then show ?case using lone_decreases [OF _ Step.hyps(2)] by fastforce
qed simp

lemma lone_finishes:
  assumes "lone ops d"
  shows "\<exists>k d'. lone_run ops k d d' \<and> (\<nexists>d''. lone_step ops d' d'')"
proof -
  have "lone_run ops k d d' \<Longrightarrow> lone ops d' \<Longrightarrow> \<exists>k d'. lone_run ops k d d' \<and> (\<nexists>d''. lone_step ops d' d'')" for k d'
  proof (induction "rank d'" arbitrary: k d' rule: less_induct)
    case less
    show ?case
    proof (cases "\<exists>d''. lone_step ops d' d''")
      case True
      then obtain d'' where d'': "lone_step ops d' d''" by blast
      note n = lone_decreases [OF less.prems(2) this]
      show ?thesis by (rule less.hyps [OF n [THEN conjunct2] lone_run.Step [OF less.prems(1) d''] n [THEN conjunct1]])
    qed (use less.prems in blast)
  qed
  then show ?thesis using lone_run.Refl assms by blast
qed

text \<open>When it sleeps everything has been delivered.\<close>

lemma lone_asleep:
  assumes l: "lone ops d" and p: "place (proc d) 0 = Some WorkSleep"
  shows "mset (map snd (delivered (queue d))) = mset (accepted (queue d))" and "held (queue d) = Map.empty"
proof -
  note L = loneD [OF l]
  obtain w where w: "worker (proc d) 0 = Some w" "place (proc d) 0 = Some (run_at w)" by (rule lone_worker [OF l])
  have z: "dozing w" "0 < length (workers (proc d))" "\<not> coming (owed d) (proc d) 0 w"
    using w(2) p L(3-5) by (simp_all add: dozing_def coming_def)
  obtain R pos D where c: "sq_inv ops (queue d) [0] R pos D" by (rule lone_list [OF l p]) simp
  have e: "fst (SyncQueue_isEmpty 0 (sq (queue d)))"
    using dl_invD(6) [OF L(1)] w(1) z unfolding doze_part_def by blast
  have "listed (queue d) 0" using core_reader(1) [OF L(2) p] by simp
  then have "length (accepted (queue d)) \<le> pos 0" using empty_iff [OF c] e by blast
  then show "mset (map snd (delivered (queue d))) = mset (accepted (queue d))" by (intro all_empty_mset [OF c]) simp_all
  have "place (proc d) x \<noteq> Some Working" for x using p L(7) [of x] by auto
  then show "held (queue d) = Map.empty" using dl_invD(5) [OF L(1)] unfolding busy_part_def by blast
qed

lemma lone_accepts: "lone_step ops d d' \<Longrightarrow> accepted (queue d') = accepted (queue d)"
proof -
  assume st: "lone_step ops d d'"
  then have "dl_step ops d d'" by (simp add: lone_step_def)
  then show "accepted (queue d') = accepted (queue d)"
  proof cases
    case (Write c)
    have "moved c = moved (queue d)" using Write(2) by cases (use Write(3) in simp_all)
    then show ?thesis using st Write(1) by (simp add: lone_step_def thread_at_def)
  qed simp_all
qed

lemma lone_life:
  assumes "lone_run ops k d d'" and "lone ops d"
  shows "life_reach ops e d \<Longrightarrow> life_reach ops e d'" and "accepted (queue d') = accepted (queue d)"
  using assms
proof (induction rule: lone_run.induct)
  case (Step k d d' d'')
  {
    case 1
    have "serving (proc d')" using lone_bound [OF Step.hyps(1) 1(2)] loneD(6) by blast
    then have "life_step ops d' d''" using Step.hyps(2) by (intro life_step.Serve) (simp_all add: lone_step_def)
    then show ?case using Step.IH(1) 1 life_reach.Step by blast
  next
    case 2
    then show ?case using Step.IH(2) lone_accepts [OF Step.hyps(2)] by simp
  }
qed simp_all

end

lemma order_complete: "in_order c \<Longrightarrow> mset (map snd (delivered c)) = mset (accepted c) \<Longrightarrow> map snd (delivered c) = accepted c"
  unfolding in_order_def by (metis length_map mset_eq_length order_refl take_all)

section \<open>Property\<close>

text \<open>
  C4. A worker on its own delivers everything, whatever happened before: once no producer owes a broadcast and the
  processor is not called, a worker that is not paused makes at most twenty steps for each entry that waits and twenty
  more. Until it sleeps it can always make a step, and when it can make none everything that was accepted has been
  delivered, in order, and handled.
\<close>

theorem worker_delivers:
  assumes "life_reach (sample_ops sz) (dl_init (sample_ops sz) a ids p) d" and "QueueProcessor_new 1 cs n = Inr p"
    and "2 \<le> uint n" "uint n \<le> 1073741824"
    and "qp_at (proc d) = Ready" "\<not> qp_isTerminatedFlag (proc d)" "owed d = 0"
    and "0 < length (workers (proc d))" "worker (proc d) 0 = Some w" "\<not> isPausedFlag w"
    and "lone_run (sample_ops sz) k d d'"
  shows "k \<le> 20 * (length (accepted (queue d)) - length (delivered (queue d))) + 20 \<and>
    ((\<exists>d''. lone_step (sample_ops sz) d' d'') \<or>
     map snd (delivered (queue d')) = accepted (queue d) \<and> held (queue d') = Map.empty)"
proof -
  note o = life_order [OF assms(1-4)]
  have "serving (proc d)" using assms(5,6) by (simp add: serving_def)
  then have i: "dl_inv (sample_ops sz) d" by (rule life_invD(1) [OF o [THEN conjunct1]])
  have "length (workers (proc d)) = 1" using o assms(8) by linarith
  with i have l: "lone (sample_ops sz) d" using assms(5,7,9,10) by (simp add: lone_def)
  note b = sample.lone_bound [OF assms(11) l]
  have "k \<le> 20 * (length (accepted (queue d)) - length (delivered (queue d))) + 20" using b rank_le [of d] by simp
  moreover have "map snd (delivered (queue d')) = accepted (queue d) \<and> held (queue d') = Map.empty"
    if "\<not> (\<exists>d''. lone_step (sample_ops sz) d' d'')"
  proof -
    have s: "place (proc d') 0 = Some WorkSleep" using sample.lone_progress b that by blast
    have "in_order (queue d')" using life_order [OF sample.lone_life(1) [OF assms(11) l assms(1)] assms(2-4)] by blast
    then show ?thesis
      using order_complete sample.lone_asleep [OF _ s] b sample.lone_life(2) [OF assms(11) l] by metis
  qed
  ultimately show ?thesis by blast
qed

theorem worker_delivers_witness:
  "\<exists>(d :: (queue_entry, sample_member, unit) dlc) d' k. delivered (queue d) = [] \<and> accepted (queue d) = [demo_entry 1] \<and>
    lone_run (sample_ops 256) k d d' \<and> k \<le> 40 \<and> map snd (delivered (queue d')) = [demo_entry 1]"
proof -
  obtain d where d: "demo_at (run_goto Working w0) 0 None d" using demo_joins by blast
  note D = demo_atD [OF d]
  have r: "life_reach (sample_ops 256) (dl_init (sample_ops 256) DataArray_init (\<lambda>_. 0) demo_processor) d"
    using demo_life [OF D(1)] by (simp only: demo_ops_def demo_dl_def)
  have q: "qp_at (proc d) = Ready" "\<not> qp_isTerminatedFlag (proc d)" "length (workers (proc d)) = 1"
    "worker (proc d) 0 = Some (run_goto Working w0)" "\<not> isPausedFlag (run_goto Working w0)"
    using D(2) demo_serving_facts by (simp_all add: serving_def)
  have "lone (sample_ops 256) d" using D(5,7) q by (simp add: lone_def demo_ops_def)
  from sample.lone_finishes [OF this] obtain k d' where k: "lone_run (sample_ops 256) k d d'" "\<nexists>d''. lone_step (sample_ops 256) d' d''"
    by blast
  from worker_delivers [OF r demo_new _ _ q(1,2) D(5) _ q(4,5) k(1)] k q(3) D(3,4) show ?thesis
    by (intro exI [of _ d] exI [of _ d'] exI [of _ k]) simp
qed

end
