(* ===== verification/Receiver_Protocol.thy ===== *)
theory Receiver_Protocol
  imports Result_Receiver
begin

text \<open>
  The hand-over of a result between two threads, access by access: the consumer in
  \<^verbatim>\<open>ResultReceiverHolder::setValue\<close> and \<^verbatim>\<open>ResultReceiver::setPopulated\<close>, the producer in \<^verbatim>\<open>ResultReceiver::getValue\<close>, and the
  end of the scope in which the producer's receiver lives, as in \<^verbatim>\<open>testPopulate\<close> of \<^verbatim>\<open>sample/testQueues.cpp\<close>.

  A schedule is a list of the thread to run next. A thread that waits for the lock or for the signal stays where it is.
  Any access to the receiver after the end of its scope is the fault \<open>DanglingRef\<close>. \<open>Spurious\<close> is a wakeup of the
  condition variable that no signal caused.
\<close>

section \<open>The two threads\<close>

datatype actor = Consumer | Producer | ScopeEnd | Spurious

datatype consumer_pc = CStore | CAcquire | CFlag | CSignal | CRelease | CUnlink | CDone

datatype producer_pc = PFast | PAcquire | PTest | PWaiting | PRelease | PRead | PDone

record 'a rr =
  rr_recv :: "'a ResultReceiver"
  rr_owner :: "actor option"
  rr_woken :: bool
  rr_alive :: bool
  rr_holder :: bool
  c_pc :: consumer_pc
  p_pc :: producer_pc
  p_result :: "'a option"

definition rr_start :: "'a ResultReceiver \<Rightarrow> 'a rr" where
  "rr_start r = \<lparr>rr_recv = r, rr_owner = None, rr_woken = False, rr_alive = True, rr_holder = True, c_pc = CStore, p_pc = PFast,
     p_result = None\<rparr>"

text \<open>
  The consumer, with the value \<open>v\<close>: the store of the value, then \<^verbatim>\<open>setPopulated\<close> (acquire, flag, signal, release), then
  the holder forgets the receiver.
\<close>

fun consumer_step :: "'a \<Rightarrow> 'a rr \<Rightarrow> 'a rr result" where
  "consumer_step v s =
     (if c_pc s \<noteq> CUnlink \<and> c_pc s \<noteq> CDone \<and> \<not> rr_alive s then Inl DanglingRef
      else Inr (case c_pc s of
        CStore \<Rightarrow> s\<lparr>rr_recv := DataHolder_setValue v (rr_recv s), c_pc := CAcquire\<rparr>
      | CAcquire \<Rightarrow> if rr_owner s = None then s\<lparr>rr_owner := Some Consumer, c_pc := CFlag\<rparr> else s
      | CFlag \<Rightarrow> s\<lparr>rr_recv := (rr_recv s)\<lparr>isPopulatedFlag := True\<rparr>, c_pc := CSignal\<rparr>
      | CSignal \<Rightarrow> s\<lparr>rr_woken := (p_pc s = PWaiting), c_pc := CRelease\<rparr>
      | CRelease \<Rightarrow> s\<lparr>rr_owner := None, c_pc := CUnlink\<rparr>
      | CUnlink \<Rightarrow> s\<lparr>rr_holder := False, c_pc := CDone\<rparr>
      | CDone \<Rightarrow> s))"

text \<open>
  The producer: the test of the flag without the lock, the test with the lock, the wait (which gives the lock back),
  and the read of the value.
\<close>

fun producer_step :: "'a rr \<Rightarrow> 'a rr result" where
  "producer_step s =
     (if p_pc s \<noteq> PDone \<and> \<not> rr_alive s then Inl DanglingRef
      else Inr (case p_pc s of
        PFast \<Rightarrow> s\<lparr>p_pc := (if isPopulatedFlag (rr_recv s) then PRead else PAcquire)\<rparr>
      | PAcquire \<Rightarrow> if rr_owner s = None then s\<lparr>rr_owner := Some Producer, p_pc := PTest\<rparr> else s
      | PTest \<Rightarrow> if isPopulatedFlag (rr_recv s) then s\<lparr>p_pc := PRelease\<rparr>
                 else s\<lparr>rr_owner := None, rr_woken := False, p_pc := PWaiting\<rparr>
      | PWaiting \<Rightarrow> if rr_woken s \<and> rr_owner s = None then s\<lparr>rr_owner := Some Producer, p_pc := PRelease\<rparr> else s
      | PRelease \<Rightarrow> s\<lparr>rr_owner := None, p_pc := PRead\<rparr>
      | PRead \<Rightarrow> s\<lparr>p_result := Some (getCurrentValue (rr_recv s)), p_pc := PDone\<rparr>
      | PDone \<Rightarrow> s))"

fun actor_step :: "'a \<Rightarrow> actor \<Rightarrow> 'a rr \<Rightarrow> 'a rr result" where
  "actor_step v Consumer s = consumer_step v s"
| "actor_step v Producer s = producer_step s"
| "actor_step v ScopeEnd s = Inr (if p_pc s = PDone then s\<lparr>rr_alive := False\<rparr> else s)"
| "actor_step v Spurious s = Inr (if p_pc s = PWaiting then s\<lparr>rr_woken := True\<rparr> else s)"

fun rr_run :: "'a \<Rightarrow> actor list \<Rightarrow> 'a rr \<Rightarrow> 'a rr result" where
  "rr_run v [] s = Inr s"
| "rr_run v (a # as) s = bind_r (actor_step v a s) (rr_run v as)"

section \<open>Invariant\<close>

definition rr_inv :: "'a \<Rightarrow> 'a rr \<Rightarrow> bool" where
  "rr_inv v s \<longleftrightarrow>
     (isPopulatedFlag (rr_recv s) \<longleftrightarrow> c_pc s \<in> {CSignal, CRelease, CUnlink, CDone}) \<and>
     (c_pc s \<noteq> CStore \<longrightarrow> dh_value (rr_recv s) = v) \<and>
     (rr_owner s = Some Consumer \<longleftrightarrow> c_pc s \<in> {CFlag, CSignal, CRelease}) \<and>
     (rr_owner s = Some Producer \<longleftrightarrow> p_pc s \<in> {PTest, PRelease}) \<and> rr_owner s \<in> {None, Some Consumer, Some Producer} \<and>
     (p_pc s = PWaiting \<and> \<not> rr_woken s \<longrightarrow> c_pc s \<in> {CStore, CAcquire, CFlag, CSignal}) \<and>
     (p_pc s = PWaiting \<and> rr_woken s \<longrightarrow> isPopulatedFlag (rr_recv s)) \<and>
     (p_pc s \<in> {PRelease, PRead, PDone} \<longrightarrow> isPopulatedFlag (rr_recv s)) \<and>
     (rr_alive s \<or> p_pc s = PDone) \<and> (rr_holder s \<longleftrightarrow> c_pc s \<noteq> CDone) \<and>
     p_result s = (if p_pc s = PDone then Some v else None)"

lemma rr_inv_start: "\<not> isPopulatedFlag r \<Longrightarrow> rr_inv v (rr_start r)"
  by (simp add: rr_inv_def rr_start_def)

lemma consumer_inv:
  assumes "rr_inv v s"
  shows "case consumer_step v s of Inl _ \<Rightarrow> True | Inr s' \<Rightarrow> rr_inv v s'"
proof (cases s)
  case (fields r ow wk al ho cp pp pr)
  then show ?thesis using assms
    by (cases cp; cases pp; cases ow) (simp_all add: rr_inv_def DataHolder_setValue_def)
qed

lemma producer_inv:
  assumes "rr_inv v s"
  shows "case producer_step s of Inl _ \<Rightarrow> True | Inr s' \<Rightarrow> rr_inv v s'"
proof (cases s)
  case (fields r ow wk al ho cp pp pr)
  then show ?thesis using assms
    by (cases cp; cases pp; cases ow) (simp_all add: rr_inv_def getCurrentValue_def)
qed

lemma rr_inv_step:
  assumes "rr_inv v s" and "a \<noteq> Spurious" and "actor_step v a s = Inr s'"
  shows "rr_inv v s'"
proof (cases a)
  case Consumer
  then show ?thesis using assms(3) consumer_inv [OF assms(1)] by (simp del: consumer_step.simps)
next
  case Producer
  then show ?thesis using assms(3) producer_inv [OF assms(1)] by (simp del: producer_step.simps)
next
  case ScopeEnd
  have "rr_inv v (s\<lparr>rr_alive := False\<rparr>)" if "p_pc s = PDone"
    using assms(1) that by (cases "c_pc s") (clarsimp simp: rr_inv_def, blast?)+
  then show ?thesis using assms(1,3) ScopeEnd by (auto split: if_splits)
qed (use assms(2) in simp)

lemma rr_inv_run:
  "rr_inv v s \<Longrightarrow> Spurious \<notin> set as \<Longrightarrow> rr_run v as s = Inr s' \<Longrightarrow> rr_inv v s'"
  by (induction as arbitrary: s) (simp, clarsimp simp: bind_r_Inr_iff simp del: actor_step.simps, metis rr_inv_step)

lemma rr_run_append: "rr_run v (as @ bs) s = bind_r (rr_run v as s) (rr_run v bs)"
  by (induction as arbitrary: s) (simp_all add: bind_r_assoc cong: bind_r_cong)

text \<open>From every state, four steps of the producer, the rest of the consumer and the rest of the producer end the hand-over.\<close>

definition finish :: "actor list" where
  "finish = replicate 4 Producer @ replicate 6 Consumer @ replicate 4 Producer"

lemma rr_finish:
  assumes "rr_inv v s" and "rr_alive s"
  shows "\<exists>s'. rr_run v finish s = Inr s' \<and> p_result s' = Some v \<and> c_pc s' = CDone"
  using assms
  by (cases "c_pc s"; cases "p_pc s"; cases "rr_woken s")
    (auto simp: rr_inv_def finish_def numeral_eq_Suc getCurrentValue_def DataHolder_setValue_def)

section \<open>The hand-over\<close>

text \<open>
  C27. Unless the condition variable wakes up spuriously, a producer that waits for its result gets the value the consumer
  set and no other, whatever the schedule: when \<^verbatim>\<open>getValue\<close> has returned it has returned that value, and as long as the
  receiver lives the hand-over can always be completed (the wakeup is never lost). The consumer's steps together have
  the effect of \<^verbatim>\<open>setValue\<close> and \<^verbatim>\<open>setPopulated\<close> on the receiver, and the holder has forgotten it.
\<close>

theorem receiver_handover:
  assumes "\<not> isPopulatedFlag r" and "Spurious \<notin> set as" and "rr_run v as (rr_start r) = Inr s"
  shows "p_result s = (if p_pc s = PDone then Some v else None) \<and>
    (rr_alive s \<longrightarrow> (\<exists>s'. rr_run v finish s = Inr s' \<and> p_result s' = Some v \<and> c_pc s' = CDone)) \<and>
    (c_pc s = CDone \<longrightarrow> rr_recv s = setPopulated (DataHolder_setValue v r) \<and> \<not> rr_holder s)"
proof -
  have inv: "rr_inv v s" by (rule rr_inv_run [OF rr_inv_start [OF assms(1)] assms(2,3)])
  have "c_pc s = CDone \<longrightarrow> rr_recv s = setPopulated (DataHolder_setValue v r) \<and> \<not> rr_holder s"
    using inv by (cases "rr_recv s"; cases r) (simp add: rr_inv_def setPopulated_def DataHolder_setValue_def)
  then show ?thesis using inv rr_finish [OF inv] by (simp add: rr_inv_def)
qed

theorem receiver_handover_witness:
  "\<exists>s. rr_run (5 :: nat) [Producer, Producer, Producer, Consumer, Consumer] (rr_start (ResultReceiver_new 0)) = Inr s \<and>
    p_pc s = PWaiting \<and> (\<exists>s'. rr_run 5 finish s = Inr s' \<and> p_result s' = Some 5)"
proof -
  let ?as = "[Producer, Producer, Producer, Consumer, Consumer]"
  obtain s where s: "rr_run (5 :: nat) ?as (rr_start (ResultReceiver_new 0)) = Inr s" "p_pc s = PWaiting" "rr_alive s"
    by (simp add: rr_start_def ResultReceiver_new_def)
  have "Spurious \<notin> set ?as" "\<not> isPopulatedFlag (ResultReceiver_new (0 :: nat))" by (simp_all add: ResultReceiver_new_def)
  from receiver_handover [OF this(2,1) s(1)] s show ?thesis by blast
qed

text \<open>
  C37. Two ways in which the hand-over goes wrong. A producer that finds the flag set without taking the lock can return
  and end the life of the receiver while the consumer is still about to signal and to release the lock inside it: the
  consumer then uses an object that is gone. And a spurious wakeup makes \<^verbatim>\<open>getValue\<close> return before there is a result. A
  receiver whose scope does not end never causes a fault.
\<close>

theorem receiver_dies_early:
  assumes "\<not> isPopulatedFlag r"
  shows "rr_run v [Consumer, Consumer, Consumer, Producer, Producer, ScopeEnd, Consumer] (rr_start r) = Inl DanglingRef \<and>
    (\<exists>s. rr_run v [Producer, Producer, Producer, Spurious, Producer, Producer, Producer] (rr_start r) = Inr s \<and>
      p_result s = Some (getCurrentValue r) \<and> c_pc s = CStore) \<and>
    (ScopeEnd \<notin> set as \<longrightarrow> (\<exists>s. rr_run v as (rr_start r) = Inr s))"
proof -
  have alive: "\<exists>s'. actor_step v a s = Inr s' \<and> rr_alive s'" if "rr_alive s" "a \<noteq> ScopeEnd" for a s
    using that by (cases a; cases "c_pc s"; cases "p_pc s") simp_all
  have "rr_alive s \<Longrightarrow> ScopeEnd \<notin> set as \<Longrightarrow> \<exists>s'. rr_run v as s = Inr s'" for s
  proof (induction as arbitrary: s)
    case (Cons a as)
    then obtain s' where "actor_step v a s = Inr s'" "rr_alive s'" using alive [of s a] by auto
    then show ?case using Cons by simp
  qed simp
  from this [of "rr_start r"] assms show ?thesis by (auto simp: rr_start_def getCurrentValue_def DataHolder_setValue_def)
qed

theorem receiver_dies_early_witness:
  "rr_run (5 :: nat) [Consumer, Consumer, Consumer, Producer, Producer, ScopeEnd, Consumer] (rr_start (ResultReceiver_new 0)) =
     Inl DanglingRef"
  using receiver_dies_early [of "ResultReceiver_new (0 :: nat)" 5] by (simp add: ResultReceiver_new_def)

end
