(* ===== verification/Data_Properties.thy ===== *)
theory Data_Properties
  imports Data_Strings
begin

text \<open>
  The string utilities against reference definitions: trimming removes the white space at both ends, on strings
  and on C strings alike; a value that is printed reads back; indentation puts the text before every line that is
  not empty.
\<close>

section \<open>Trimming\<close>

text \<open>The reference: drop the white space from both ends.\<close>

definition strip :: "string \<Rightarrow> string" where
  "strip s = dropWhile c_isspace (rev (dropWhile c_isspace (rev s)))"

lemma scanBack_rev:
  "i \<le> length s \<Longrightarrow> take (scanBack s i) s = rev (dropWhile c_isspace (rev (take i s)))"
proof (induction i)
  case 0
  then show ?case by simp
next
  case (Suc i)
  then have "take (Suc i) s = take i s @ [s ! i]" by (simp add: take_Suc_conv_app_nth)
  then show ?case using Suc by simp
qed

lemma trimEnd_rev: "trimEnd s = rev (dropWhile c_isspace (rev s))"
proof (cases "0 < length s \<and> c_isspace (s ! (length s - 1))")
  case True
  then obtain xs x where s: "s = xs @ [x]" by (cases s rule: rev_cases) auto
  have "take (scanBack s (length xs)) s = rev (dropWhile c_isspace (rev xs))"
    using scanBack_rev [of "length xs" s] s by simp
  then show ?thesis using True s by (simp add: trimEnd_def)
next
  case False
  have "dropWhile c_isspace (rev s) = rev s"
  proof (cases s rule: rev_cases)
    case (snoc xs x)
    then show ?thesis using False by simp
  qed simp
  then show ?thesis using False by (auto simp: trimEnd_def)
qed

lemma scanForward_drop: "drop (scanForward s i) s = dropWhile c_isspace (drop i s)"
proof (induction s i rule: scanForward.induct)
  case (1 s i)
  show ?case
  proof (cases "i < length s")
    case True
    then have "drop i s = s ! i # drop (Suc i) s" by (simp add: Cons_nth_drop_Suc)
    then show ?thesis using 1 True by (simp add: scanForward.simps [of s i])
  qed (simp add: scanForward.simps [of s i])
qed

lemma trimStart_dropWhile: "trimStart s = dropWhile c_isspace s"
proof (cases "0 < length s \<and> c_isspace (s ! 0)")
  case True
  then show ?thesis using scanForward_drop [of s 1] by (cases s) (simp_all add: trimStart_def)
next
  case False
  then show ?thesis by (cases s) (auto simp: trimStart_def)
qed

lemma trim_strip: "trim s = strip s"
  by (simp add: trim_def strip_def trimEnd_rev trimStart_dropWhile)

lemma NUL_not_space: "\<not> c_isspace NUL"
  by (simp add: c_isspace_def NUL_def)

lemma scanForward_c_takeWhile:
  "c_string buf (scanForward_c buf i) = dropWhile c_isspace (c_string buf i)"
proof (induction buf i rule: scanForward_c.induct)
  case (1 buf i)
  show ?case
  proof (cases "i < length buf")
    case True
    then have "drop i buf = buf ! i # drop (Suc i) buf" by (simp add: Cons_nth_drop_Suc)
    then show ?thesis using 1 True by (simp add: scanForward_c.simps [of buf i] c_string_def)
  qed (simp add: scanForward_c.simps [of buf i] c_string_def)
qed

text \<open>A buffer starts with its C string and the terminator.\<close>

lemma c_string_split:
  assumes "NUL \<in> set buf"
  shows "c_string buf 0 = take (c_strlen buf) buf" "c_strlen buf < length buf" "NUL \<notin> set (c_string buf 0)"
proof -
  show t: "c_string buf 0 = take (c_strlen buf) buf"
    unfolding c_strlen_def c_string_def by (simp add: takeWhile_eq_take [symmetric])
  show "NUL \<notin> set (c_string buf 0)" unfolding c_string_def by (auto dest: set_takeWhileD)
  then show "c_strlen buf < length buf" using assms t by (metis linorder_not_less take_all_iff)
qed

lemma scanBack_le: "scanBack s i \<le> i"
  by (induction s i rule: scanBack.induct) auto

lemma scanBack_cong: "(\<And>j. j < i \<Longrightarrow> s ! j = t ! j) \<Longrightarrow> scanBack s i = scanBack t i"
  by (induction i) auto

lemma c_string_cut:
  assumes "NUL \<notin> set (take n buf)" and "n < length buf"
  shows "c_string (buf[n := NUL]) 0 = take n buf"
proof -
  have "buf[n := NUL] = take n buf @ NUL # drop (Suc n) buf" using assms(2) by (simp add: upd_conv_take_nth_drop)
  then show ?thesis using assms(1) by (simp add: c_string_def takeWhile_append takeWhile_eq_all_conv split: if_splits)
qed

lemma trimEnd_c_ok:
  assumes "NUL \<in> set buf"
  shows "c_string (trimEnd_c buf) 0 = trimEnd (c_string buf 0)"
proof -
  let ?n = "c_strlen buf"
  note c = c_string_split [OF assms]
  have len: "length (c_string buf 0) = ?n" by (simp add: c_strlen_def)
  have nth: "c_string buf 0 ! j = buf ! j" if "j < ?n" for j using c(1) that by simp
  show ?thesis
  proof (cases "0 < ?n \<and> c_isspace (buf ! (?n - 1))")
    case True
    let ?k = "scanBack buf (?n - 1)"
    have k: "?k < ?n" using scanBack_le [of buf "?n - 1"] True by linarith
    have same: "scanBack (c_string buf 0) (?n - 1) = ?k" using nth True by (intro scanBack_cong) simp
    have "NUL \<notin> set (take ?k buf)" using c(1,3) set_take_subset_set_take [of ?k ?n buf] k by auto
    then have "c_string (trimEnd_c buf) 0 = take ?k buf"
      using c_string_cut [of ?k buf] True k c(2) by (simp add: trimEnd_c_def Let_def)
    also have "\<dots> = trimEnd (c_string buf 0)"
      using True same k len nth [of "?n - 1"] c(1) by (simp add: trimEnd_def min_def)
    finally show ?thesis .
  next
    case False
    then show ?thesis using len nth [of "?n - 1"] by (auto simp: trimEnd_def trimEnd_c_def Let_def)
  qed
qed

lemma last_dropWhile_eq: "dropWhile P xs \<noteq> [] \<Longrightarrow> last (dropWhile P xs) = last xs"
  by (induction xs) auto

text \<open>
  C36. \<^verbatim>\<open>Data::trim\<close> removes exactly the white space at both ends of a string, and its overload for C strings does
  the same on the characters before the terminator, writing inside the buffer only.
\<close>

theorem trim_reference:
  "trim s = strip s \<and> trim (trim s) = trim s \<and>
   (NUL \<in> set buf \<longrightarrow> c_string (fst (trim_c buf)) (snd (trim_c buf)) = strip (c_string buf 0) \<and>
      length (fst (trim_c buf)) = length buf)"
proof -
  have idem: "strip (strip s) = strip s"
  proof -
    have e: "rev (dropWhile c_isspace (rev t)) = t" if "t = [] \<or> \<not> c_isspace (last t)" for t
      using that by (cases t rule: rev_cases) auto
    let ?t = "rev (dropWhile c_isspace (rev s))"
    have l: "?t = [] \<or> \<not> c_isspace (last ?t)"
      by (metis hd_dropWhile last_rev rev_is_Nil_conv)
    then have "strip s = [] \<or> \<not> c_isspace (last (strip s))"
      unfolding strip_def by (metis dropWhile.simps(1) last_dropWhile_eq)
    then have "rev (dropWhile c_isspace (rev (strip s))) = strip s" by (rule e)
    then have "strip (strip s) = dropWhile c_isspace (strip s)" by (simp add: strip_def)
    then show ?thesis by (simp add: strip_def dropWhile_idem)
  qed
  have "c_string (fst (trim_c buf)) (snd (trim_c buf)) = strip (c_string buf 0)" if "NUL \<in> set buf"
    using scanForward_c_takeWhile [of "trimEnd_c buf" 0] trimEnd_c_ok [OF that]
    by (simp add: trim_c_def Let_def strip_def trimEnd_rev)
  moreover have "length (fst (trim_c buf)) = length buf" by (simp add: trim_c_def trimEnd_c_def Let_def)
  ultimately show ?thesis using idem by (simp add: trim_strip)
qed

theorem trim_reference_witness:
  "trim '' ab  c '' = ''ab  c'' \<and> c_string (fst (trim_c ('' xy '' @ [NUL]))) (snd (trim_c ('' xy '' @ [NUL]))) = ''xy''"
proof -
  have "strip '' ab  c '' = ''ab  c''" "strip (c_string ('' xy '' @ [NUL]) 0) = ''xy''"
    by (simp_all add: strip_def c_isspace_def c_string_def NUL_def)
  then show ?thesis using trim_reference [of "'' ab  c ''" "'' xy '' @ [NUL]"] by simp
qed

section \<open>Choices\<close>

definition normal :: "string \<Rightarrow> string" where
  "normal s = lowerCase (strip s)"

lemma chooseLoop_first:
  "chooseLoop str k opts = (if \<forall>opt \<in> set opts. normal opt \<noteq> str then -1
     else int (k + length (takeWhile (\<lambda>opt. normal opt \<noteq> str) opts)))"
  by (induction str k opts rule: chooseLoop.induct) (auto simp: normal_def trim_strip)

text \<open>
  \<^verbatim>\<open>chooseOption\<close> returns the index of the first option that equals the value up to case and surrounding white
  space, and -1 exactly when there is none.
\<close>

theorem choose_option:
  "chooseOption val options =
     (if normal val \<in> normal ` set options
      then int (length (takeWhile (\<lambda>opt. normal opt \<noteq> normal val) options)) else -1)"
  unfolding chooseOption_def chooseLoop_first trim_strip normal_def [symmetric] by (auto simp: image_iff) metis+

section \<open>Booleans\<close>

lemma of_char_tolower:
  "(of_char (c_tolower c) :: nat) = (if 65 \<le> (of_char c :: nat) \<and> (of_char c :: nat) \<le> 90 then of_char c + 32 else of_char c)"
  by (auto simp: c_tolower_def Let_def)

lemma tolower_space [simp]: "c_isspace (c_tolower c) = c_isspace c"
  by (simp add: c_isspace_def of_char_tolower Let_def)

lemma tolower_idem [simp]: "c_tolower (c_tolower c) = c_tolower c"
  by (auto simp: c_tolower_def [of "c_tolower c"] of_char_tolower Let_def)

lemma lowerCase_Nil [simp]: "lowerCase [] = []"
  by (simp add: lowerCase_def)

lemma lowerCase_idem [simp]: "lowerCase (lowerCase s) = lowerCase s"
  by (simp add: lowerCase_def)

lemma strip_no_space: "dropWhile c_isspace (lowerCase (strip s)) = lowerCase (strip s)"
proof -
  have "dropWhile c_isspace (lowerCase t) = lowerCase (dropWhile c_isspace t)" for t
    by (induction t) (auto simp: lowerCase_def)
  then show ?thesis by (simp add: strip_def dropWhile_idem)
qed

text \<open>
  \<^verbatim>\<open>getBoolValue\<close> is true exactly for texts that, up to case and surrounding white space, are "yes" or begin with
  "true"; on a text without any other character it reads a variable that was never assigned. The two printed
  forms of a boolean read back, and \<^verbatim>\<open>succeeded\<close> reports whether the text began with one of the names.
\<close>

theorem bool_value:
  "getBoolValue val =
     (if normal val = [] then Inl UninitRead else Inr (normal val = ''yes'' \<or> take 4 (normal val) = ''true'')) \<and>
   getBoolValue_checked val =
     (if normal val = [] then Inl UninitRead
      else Inr (normal val = ''yes'' \<or> take 4 (normal val) = ''true'',
        normal val = ''yes'' \<or> take 4 (normal val) = ''true'' \<or> take 5 (normal val) = ''false'')) \<and>
   getBoolValue (convertToStringValue_bool b) = Inr b \<and> getBoolValue (getYesNoStringValue b) = Inr b"
proof -
  have n: "dropWhile c_isspace (normal t) = normal t" "lowerCase (normal t) = normal t" for t
    by (simp_all add: normal_def strip_no_space)
  have v: "getBoolValue t = (if normal t = [] then Inl UninitRead else Inr (normal t = ''yes'' \<or> take 4 (normal t) = ''true''))" for t
    unfolding getBoolValue_def convertFromStringValue_bool_def extractBool_def trim_strip normal_def [symmetric] n
    by (auto simp: Let_def n)
  have c: "getBoolValue_checked t = (if normal t = [] then Inl UninitRead
      else Inr (normal t = ''yes'' \<or> take 4 (normal t) = ''true'',
        normal t = ''yes'' \<or> take 4 (normal t) = ''true'' \<or> take 5 (normal t) = ''false''))" for t
    unfolding getBoolValue_checked_def convertFromString_bool_def extractBool_def trim_strip normal_def [symmetric] n
    by (auto simp: Let_def n)
  have e: "normal ''true'' = ''true''" "normal ''false'' = ''false''" "normal ''yes'' = ''yes''" "normal ''no'' = ''no''"
    by (simp_all add: normal_def strip_def c_isspace_def lowerCase_def c_tolower_def Let_def)
  have "getBoolValue (convertToStringValue_bool b) = Inr b" "getBoolValue (getYesNoStringValue b) = Inr b"
    unfolding v convertToStringValue_bool_def getYesNoStringValue_def by (cases b; simp add: e)+
  with v c show ?thesis by simp
qed

section \<open>Integers\<close>

lemma digit_facts:
  assumes "d < 10"
  shows "digit_value (digit d) = d" "is_digit (digit d)" "\<not> c_isspace (digit d)" "digit d \<noteq> CHR ''-''" "digit d \<noteq> CHR ''+''"
proof -
  have o: "(of_char (digit d) :: nat) = d + 48" using assms by (simp add: digit_def)
  then show "digit_value (digit d) = d" "is_digit (digit d)" "\<not> c_isspace (digit d)"
    using assms by (simp_all add: digit_value_def is_digit_def c_isspace_def Let_def)
  have "(of_char (CHR ''-'') :: nat) = 45" "(of_char (CHR ''+'') :: nat) = 43" by simp_all
  with o show "digit d \<noteq> CHR ''-''" "digit d \<noteq> CHR ''+''" by (metis add.commute not_add_less1 numeral_less_iff semiring_norm)+
qed

lemma dec_digits: "dec n \<noteq> []" "\<forall>c \<in> set (dec n). is_digit c" "undec (dec n) = n"
  "\<not> c_isspace (hd (dec n))" "hd (dec n) \<noteq> CHR ''-''" "hd (dec n) \<noteq> CHR ''+''"
proof (induction n rule: dec.induct)
  case (1 n)
  {
    case 1
    show ?case by (simp add: dec.simps [of n])
  next
    case 2
    show ?case using "1.IH"(2) digit_facts(2) by (auto simp: dec.simps [of n])
  next
    case 3
    show ?case using "1.IH"(3) digit_facts(1) by (auto simp: dec.simps [of n] undec_def)
  next
    case 4
    show ?case using "1.IH"(1,4) digit_facts(3) by (auto simp: dec.simps [of n])
  next
    case 5
    show ?case using "1.IH"(1,5) digit_facts(4) by (auto simp: dec.simps [of n])
  next
    case 6
    show ?case using "1.IH"(1,6) digit_facts(5) by (auto simp: dec.simps [of n])
  }
qed

text \<open>An integer within the bounds of its type reads back from its printed form.\<close>

lemma extractInt_print:
  assumes "lo \<le> v" and "v \<le> hi" and "lo \<le> 0"
  shows "extractInt lo hi (convertToStringValue_int v) = (Some v, False)"
proof -
  have d: "dropWhile c_isspace (dec n) = dec n" "takeWhile is_digit (dec n) = dec n" for n
    using dec_digits(1,2,4) [of n] by (cases "dec n"; simp add: takeWhile_eq_all_conv)+
  show ?thesis
  proof (cases "v < 0")
    case True
    have "\<not> c_isspace (CHR ''-'')" by (simp add: c_isspace_def)
    then show ?thesis
      using True assms dec_digits(1,3) [of "nat (- v)"]
      by (simp add: extractInt_def convertToStringValue_int_def Let_def d)
  next
    case False
    then show ?thesis
      using assms dec_digits [of "nat v"]
      by (simp add: extractInt_def convertToStringValue_int_def Let_def d)
  qed
qed

section \<open>Line feeds\<close>

definition chomp :: "string \<Rightarrow> string" where
  "chomp s = rev (dropWhile (\<lambda>c. c = LF) (rev s))"

lemma chomp_snoc: "chomp (s @ [c]) = (if c = LF then chomp s else s @ [c])"
  by (simp add: chomp_def)

lemma chomp_length: "length (chomp s) \<le> length s"
  using length_dropWhile_le [of "\<lambda>c. c = LF" "rev s"] by (simp add: chomp_def)

lemma chomp_prefix: "s = chomp s @ replicate (length s - length (chomp s)) LF"
proof (induction s rule: rev_induct)
  case (snoc c s)
  show ?case using snoc chomp_length [of s] by (auto simp: chomp_snoc Suc_diff_le replicate_append_same [symmetric])
qed (simp add: chomp_def)

lemma scanLF_chomp: "i < length s \<Longrightarrow> Suc (scanLF s i) = max 1 (length (chomp (take (Suc i) s)))"
proof (induction i)
  case 0
  then obtain c t where "s = c # t" by (cases s) auto
  then show ?case by (simp add: chomp_def)
next
  case (Suc i)
  then have "take (Suc (Suc i)) s = take (Suc i) s @ [s ! Suc i]" by (simp add: take_Suc_conv_app_nth)
  then show ?case using Suc by (simp add: chomp_snoc)
qed

text \<open>The first characters of a text that ends in a line feed, up to its last other character and one further.\<close>

lemma chomp_cut:
  assumes "t \<noteq> []"
  defines "k \<equiv> max 1 (length (chomp t))"
  shows "k \<le> length t" "take k (t @ [LF]) = (if chomp t = [] then [LF] else chomp t)"
    "take (Suc k) (t @ [LF]) = take k (t @ [LF]) @ [LF]"
proof -
  show kl: "k \<le> length t" using assms chomp_length [of t] by (cases t) auto
  have t: "t = chomp t @ replicate (length t - length (chomp t)) LF" by (rule chomp_prefix)
  show "take k (t @ [LF]) = (if chomp t = [] then [LF] else chomp t)"
  proof (cases "chomp t = []")
    case True
    then have "t = replicate (length t) LF" using t by simp
    then have "hd t = LF" using assms(1) by (metis hd_replicate length_0_conv)
    then show ?thesis using True assms(1) by (cases t) (auto simp: k_def)
  next
    case False
    then have "k = length (chomp t)" by (cases "chomp t") (auto simp: k_def)
    then have "take k t = chomp t" by (subst t) simp
    then show ?thesis using False kl by simp
  qed
  have "(t @ [LF]) ! k = LF"
  proof (cases "k < length t")
    case True
    have "length (chomp t) \<le> k" by (simp add: k_def)
    then have "t ! k = LF" using True by (subst t) (auto simp: nth_append)
    then show ?thesis using True by (simp add: nth_append)
  next
    case False
    then have "k = length t" using kl by simp
    then show ?thesis by (metis nth_append_length)
  qed
  then show "take (Suc k) (t @ [LF]) = take k (t @ [LF]) @ [LF]"
    using take_Suc_conv_app_nth [of k "t @ [LF]"] kl by simp
qed

text \<open>
  \<^verbatim>\<open>trimTrailingLFs\<close> removes the trailing line feeds, all of them or all but one, of a text that has some other
  character. A text of two or more line feeds and nothing else keeps one more than it should.
\<close>

theorem trim_trailing_LFs:
  "trimTrailingLFs s leaveOne =
     (if s = [] \<or> last s \<noteq> LF then s
      else if chomp s \<noteq> [] then chomp s @ (if leaveOne then [LF] else [])
      else replicate ((if leaveOne then 1 else 0) + (if length s = 1 then 0 else 1)) LF)"
proof (cases "s = [] \<or> last s \<noteq> LF")
  case True
  then show ?thesis by (auto simp: trimTrailingLFs_def last_conv_nth)
next
  case False
  then obtain t where s: "s = t @ [LF]" by (cases s rule: rev_cases) auto
  have ct: "chomp s = chomp t" by (simp add: s chomp_snoc)
  show ?thesis
  proof (cases "t = []")
    case True
    then show ?thesis using s by (simp add: trimTrailingLFs_def chomp_def)
  next
    case False
    define k where "k = max 1 (length (chomp t))"
    define m where "m = scanLF s (length s - 2)"
    note cut = chomp_cut [OF False, folded k_def s]
    have "take (Suc (length s - 2)) s = t" using s False by (cases t) auto
    then have m: "Suc m = k" using scanLF_chomp [of "length s - 2" s] s False by (simp add: m_def k_def)
    have "trimTrailingLFs s leaveOne = take (nat (int m + (if leaveOne then 2 else 1))) s"
      using s False cut(1) m [symmetric] by (auto simp: trimTrailingLFs_def Let_def m_def)
    also have "nat (int m + (if leaveOne then 2 else 1)) = (if leaveOne then Suc k else k)"
      using m by (auto simp: nat_add_distrib)
    finally have "trimTrailingLFs s leaveOne = (if chomp t = [] then [LF] else chomp t) @ (if leaveOne then [LF] else [])"
      using cut(2,3) by auto
    then show ?thesis using s ct False by simp
  qed
qed

section \<open>Indentation\<close>

text \<open>The reference: the indentation goes after every line feed that a character other than a line feed follows.\<close>

fun indentRest :: "string \<Rightarrow> string \<Rightarrow> string" where
  "indentRest ind [] = []"
| "indentRest ind (c # cs) =
     c # (if c = LF \<and> cs \<noteq> [] \<and> hd cs \<noteq> LF then ind @ indentRest ind cs else indentRest ind cs)"

lemma indentRest_line: "LF \<notin> set a \<Longrightarrow> indentRest ind (a @ t) = a @ indentRest ind t"
  by (induction a) auto

lemma findLF_split:
  "findLF r pos = None \<Longrightarrow> indentRest ind (drop pos r) = drop pos r"
  "findLF r pos = Some p \<Longrightarrow> take pos r @ indentRest ind (drop pos r) =
     take (Suc p) r @ (if Suc p < length r \<and> r ! Suc p \<noteq> LF then ind else []) @ indentRest ind (drop (Suc p) r)"
proof -
  show "indentRest ind (drop pos r) = drop pos r" if "findLF r pos = None"
    using that indentRest_line [of "drop pos r" ind "[]"] by (simp add: findLF_def split: if_splits)
  assume p: "findLF r pos = Some p"
  let ?a = "takeWhile (\<lambda>c. c \<noteq> LF) (drop pos r)"
  note b = findLF_bounds [OF p]
  have pa: "p = pos + length ?a" using p by (auto simp: findLF_def split: if_splits)
  have a: "?a = take (p - pos) (drop pos r)" using pa takeWhile_eq_take [of "\<lambda>c. c \<noteq> LF" "drop pos r"] by simp
  have "drop pos r = take (p - pos) (drop pos r) @ drop p r" using b(1) by (metis append_take_drop_id drop_drop le_add_diff_inverse2)
  then have d: "drop pos r = ?a @ LF # drop (Suc p) r" using a b Cons_nth_drop_Suc [OF b(2)] by metis
  have t: "take pos r @ ?a @ [LF] = take (Suc p) r"
    using a b by (simp add: take_Suc_conv_app_nth take_add [symmetric])
  have "LF \<notin> set ?a" by (auto dest: set_takeWhileD)
  then have "indentRest ind (drop pos r) = ?a @ indentRest ind (LF # drop (Suc p) r)"
    using d indentRest_line by metis
  also have "\<dots> = ?a @ LF # (if Suc p < length r \<and> r ! Suc p \<noteq> LF then ind else []) @ indentRest ind (drop (Suc p) r)"
    by (auto simp: hd_drop_conv_nth)
  finally show "take pos r @ indentRest ind (drop pos r) =
     take (Suc p) r @ (if Suc p < length r \<and> r ! Suc p \<noteq> LF then ind else []) @ indentRest ind (drop (Suc p) r)"
    using t by (metis append.assoc append_Cons append_Nil)
qed

lemma indentHere_parts:
  assumes "Suc p < length r"
  shows "indentHere ind (r, Suc p) = (take (Suc p) r @ (if r ! Suc p \<noteq> LF then ind else []) @ drop (Suc p) r,
    Suc p + length (if r ! Suc p \<noteq> LF then ind else []))"
  using assms by (simp add: indentHere_def)

lemma indentLoop_rest: "\<not> first \<Longrightarrow> pos \<le> length r \<Longrightarrow> indentLoop ind first r pos = take pos r @ indentRest ind (drop pos r)"
proof (induction ind first r pos rule: indentLoop.induct)
  case (1 ind first r pos)
  show ?case
  proof (cases "findLF r pos")
    case None
    then show ?thesis using findLF_split(1) [OF None] by (simp add: indentLoop.simps [of ind first r pos])
  next
    case (Some p)
    note sp = findLF_split(2) [OF Some, of ind] and b = findLF_bounds [OF Some]
    show ?thesis
    proof (cases "Suc p = length r")
      case True
      then show ?thesis using sp Some by (simp add: indentLoop.simps [of ind first r pos])
    next
      case False
      then have lt: "Suc p < length r" using b(2) by simp
      let ?i = "if r ! Suc p \<noteq> LF then ind else []"
      have h: "indentHere ind (indentFirst ind first (r, Suc p)) = (take (Suc p) r @ ?i @ drop (Suc p) r, Suc p + length ?i)"
        using "1.prems"(1) indentHere_parts [OF lt] by (simp add: indentFirst_def)
      have "indentLoop ind first r pos = indentLoop ind False (take (Suc p) r @ ?i @ drop (Suc p) r) (Suc p + length ?i)"
        using Some False h by (simp add: indentLoop.simps [of ind first r pos] Let_def)
      also have "\<dots> = take (Suc p + length ?i) (take (Suc p) r @ ?i @ drop (Suc p) r) @
          indentRest ind (drop (Suc p + length ?i) (take (Suc p) r @ ?i @ drop (Suc p) r))"
        using "1.IH" [OF Some False h [symmetric]] lt by simp
      also have "\<dots> = take (Suc p) r @ ?i @ indentRest ind (drop (Suc p) r)" using lt by (simp add: min_def)
      finally show ?thesis using sp lt by simp
    qed
  qed
qed

text \<open>With the first line included: it is indented too, but only when a line follows.\<close>

lemma multi_line: "(\<exists>p. findLF s 0 = Some p \<and> Suc p \<noteq> length s) \<longleftrightarrow> LF \<in> set (butlast s)"
proof (cases "LF \<in> set s")
  case True
  then obtain a t where s: "s = a @ LF # t" "LF \<notin> set a" by (metis split_list_first)
  have "takeWhile (\<lambda>c. c \<noteq> LF) a = a" using s(2) by (auto simp: takeWhile_eq_all_conv)
  then have "findLF s 0 = Some (length a)" using s by (simp add: findLF_def takeWhile_append)
  then show ?thesis using s by (cases t) (auto simp: butlast_append)
next
  case False
  then show ?thesis by (auto simp: findLF_def dest: in_set_butlastD)
qed

lemma indentLoop_first:
  "s \<noteq> [] \<Longrightarrow> indentLoop ind True s 0 = (if LF \<in> set (butlast s) \<and> hd s \<noteq> LF then ind else []) @ indentRest ind s"
proof (cases "\<exists>p. findLF s 0 = Some p \<and> Suc p \<noteq> length s")
  case False
  then show ?thesis
    using multi_line [of s] findLF_split [where r = s and pos = 0 and ind = ind]
    by (cases "findLF s 0") (auto simp: indentLoop.simps [of ind True s 0])
next
  case True
  assume ne: "s \<noteq> []"
  from True obtain p where p: "findLF s 0 = Some p" "Suc p \<noteq> length s" by blast
  have lt: "Suc p < length s" using findLF_bounds(2) [OF p(1)] p(2) by simp
  have multi: "LF \<in> set (butlast s)" using True multi_line by blast
  let ?f = "if hd s \<noteq> LF then ind else []" and ?i = "if s ! Suc p \<noteq> LF then ind else []"
  have "indentFirst ind True (s, Suc p) = (?f @ s, Suc p + length ?f)"
    using ne by (auto simp: indentFirst_def hd_conv_nth)
  moreover have "indentHere ind (?f @ s, Suc p + length ?f) =
      (?f @ take (Suc p) s @ ?i @ drop (Suc p) s, Suc p + length ?f + length ?i)"
    by (auto simp: indentHere_def nth_append)
  ultimately have "indentLoop ind True s 0 =
      indentLoop ind False (?f @ take (Suc p) s @ ?i @ drop (Suc p) s) (Suc p + length ?f + length ?i)"
    using p by (simp add: indentLoop.simps [of ind True s 0] Let_def)
  also have "\<dots> = ?f @ take (Suc p) s @ ?i @ indentRest ind (drop (Suc p) s)"
    using lt indentLoop_rest [of False "Suc p + length ?f + length ?i" "?f @ take (Suc p) s @ ?i @ drop (Suc p) s" ind]
    by (simp add: min_def)
  also have "\<dots> = ?f @ indentRest ind s" using findLF_split(2) [OF p(1), of ind] lt by simp
  finally show ?thesis using multi by simp
qed

text \<open>
  \<^verbatim>\<open>indent\<close> ends for every text and indentation, and puts the indentation before every line that is not empty,
  except the first unless it is asked to, and with \<^verbatim>\<open>indentOnlyMultiLine\<close> before the first line only when another
  line follows.
\<close>

theorem indent_lines:
  "indent s ind f multi =
     (if f \<and> (multi \<longrightarrow> LF \<in> set (butlast s)) \<and> s \<noteq> [] \<and> hd s \<noteq> LF then ind else []) @ indentRest ind s"
proof (cases "s = []")
  case False
  show ?thesis
  proof (cases "f \<and> \<not> multi")
    case True
    have "indentFirst ind True (s, 0) = ((if hd s \<noteq> LF then ind else []) @ s, length (if hd s \<noteq> LF then ind else []))"
      using False by (simp add: indentFirst_def hd_conv_nth)
    then show ?thesis using True False by (simp add: indent_def Let_def indentLoop_rest)
  next
    case other: False
    then show ?thesis using False indentLoop_first [of s ind] by (cases f) (auto simp: indent_def indentLoop_rest)
  qed
qed (simp add: indent_def)

theorem indent_lines_witness:
  "indent (''a'' @ [LF] @ ''b'') ''  '' True True = ''  a'' @ [LF] @ ''  b''"
  using indent_lines [of "''a'' @ [LF] @ ''b''" "''  ''" True True] by (simp add: LF_def)

end
