(* ===== verification/Data_Conversions.thy ===== *)
theory Data_Conversions
  imports Data_Properties
begin

text \<open>
  The conversions of \<^verbatim>\<open>base/Data.h\<close> between texts and the integer types of \<^verbatim>\<open>base/primitiveTypes.h\<close>, at the width
  of each type.

  A value of an integer type is a word of its width; a signed type reads it with \<open>sint\<close>. To a stream the two
  8-bit types are characters.
\<close>

section \<open>Reading integers\<close>

text \<open>\<^verbatim>\<open>convertFromStringValue\<close> and \<^verbatim>\<open>getValue\<close> for a signed and for an unsigned type.\<close>

definition read_signed :: "string \<Rightarrow> 'w::len word result" where
  "read_signed val =
     bind_r (convertFromStringValue_int (- (2 ^ (LENGTH('w) - 1))) (2 ^ (LENGTH('w) - 1) - 1) val) (\<lambda>i. Inr (word_of_int i))"

definition read_signed_checked :: "string \<Rightarrow> ('w::len word \<times> bool) result" where
  "read_signed_checked val =
     bind_r (getValue_int (- (2 ^ (LENGTH('w) - 1))) (2 ^ (LENGTH('w) - 1) - 1) val) (\<lambda>(i, ok). Inr (word_of_int i, ok))"

definition read_unsigned :: "string \<Rightarrow> 'w::len word result" where
  "read_unsigned val = bind_r (convertFromStringValue_int 0 (2 ^ LENGTH('w) - 1) val) (\<lambda>i. Inr (word_of_int i))"

definition read_unsigned_checked :: "string \<Rightarrow> ('w::len word \<times> bool) result" where
  "read_unsigned_checked val = bind_r (getValue_int 0 (2 ^ LENGTH('w) - 1) val) (\<lambda>(i, ok). Inr (word_of_int i, ok))"

text \<open>\<^verbatim>\<open>stream >> skipws >> result\<close> for an 8-bit type: one character.\<close>

definition extractChar :: "string \<Rightarrow> char option \<times> bool" where
  "extractChar s = (case dropWhile c_isspace s of [] \<Rightarrow> (None, True) | c # _ \<Rightarrow> (Some c, False))"

definition byte_of :: "char \<Rightarrow> 8 word" where
  "byte_of c = word_of_nat (of_char c)"

definition getByteValue_checked :: "string \<Rightarrow> (8 word \<times> bool) result" where
  "getByteValue_checked val =
     (let (c, failed) = extractChar val in bind_r (assigned c) (\<lambda>c. Inr (byte_of c, \<not> failed)))"

definition getByteValue :: "string \<Rightarrow> 8 word result" where
  "getByteValue val = bind_r (assigned (fst (extractChar val))) (\<lambda>c. Inr (byte_of c))"

definition getShortValue_checked :: "string \<Rightarrow> (16 word \<times> bool) result" where
  "getShortValue_checked val = read_signed_checked val"

definition getShortValue :: "string \<Rightarrow> 16 word result" where
  "getShortValue val = read_signed val"

definition getIntValue_checked :: "string \<Rightarrow> (32 word \<times> bool) result" where
  "getIntValue_checked val = read_signed_checked val"

definition getIntValue :: "string \<Rightarrow> 32 word result" where
  "getIntValue val = read_signed val"

definition getLongValue_checked :: "string \<Rightarrow> (64 word \<times> bool) result" where
  "getLongValue_checked val = read_signed_checked val"

definition getLongValue :: "string \<Rightarrow> 64 word result" where
  "getLongValue val = read_signed val"

definition getUnsignedByteValue_checked :: "string \<Rightarrow> (8 word \<times> bool) result" where
  "getUnsignedByteValue_checked val =
     (let (c, failed) = extractChar val in bind_r (assigned c) (\<lambda>c. Inr (byte_of c, \<not> failed)))"

definition getUnsignedByteValue :: "string \<Rightarrow> 8 word result" where
  "getUnsignedByteValue val = bind_r (assigned (fst (extractChar val))) (\<lambda>c. Inr (byte_of c))"

definition getUnsignedShortValue_checked :: "string \<Rightarrow> (16 word \<times> bool) result" where
  "getUnsignedShortValue_checked val = read_unsigned_checked val"

definition getUnsignedShortValue :: "string \<Rightarrow> 16 word result" where
  "getUnsignedShortValue val = read_unsigned val"

definition getUnsignedIntValue_checked :: "string \<Rightarrow> (32 word \<times> bool) result" where
  "getUnsignedIntValue_checked val = read_unsigned_checked val"

definition getUnsignedIntValue :: "string \<Rightarrow> 32 word result" where
  "getUnsignedIntValue val = read_unsigned val"

definition getUnsignedLongValue_checked :: "string \<Rightarrow> (64 word \<times> bool) result" where
  "getUnsignedLongValue_checked val = read_unsigned_checked val"

definition getUnsignedLongValue :: "string \<Rightarrow> 64 word result" where
  "getUnsignedLongValue val = read_unsigned val"

section \<open>Printing\<close>

definition print_signed :: "'w::len word \<Rightarrow> string" where
  "print_signed v = convertToStringValue_int (sint v)"

definition print_unsigned :: "'w::len word \<Rightarrow> string" where
  "print_unsigned v = convertToStringValue_int (uint v)"

definition print_byte :: "8 word \<Rightarrow> string" where
  "print_byte v = [char_of (unat v)]"

definition getStringValue_bool :: "bool \<Rightarrow> string" where
  "getStringValue_bool value = convertToStringValue_bool value"

definition getStringValue_INT_32 :: "32 word \<Rightarrow> string" where
  "getStringValue_INT_32 value = print_signed value"

definition getStringValue_INT_64 :: "64 word \<Rightarrow> string" where
  "getStringValue_INT_64 value = print_signed value"

definition getStringValue_INT_8 :: "8 word \<Rightarrow> string" where
  "getStringValue_INT_8 value = print_byte value"

definition getStringValue_INT_16 :: "16 word \<Rightarrow> string" where
  "getStringValue_INT_16 value = print_signed value"

definition getStringValue_UINT_32 :: "32 word \<Rightarrow> string" where
  "getStringValue_UINT_32 value = print_unsigned value"

definition getStringValue_UINT_64 :: "64 word \<Rightarrow> string" where
  "getStringValue_UINT_64 value = print_unsigned value"

definition getStringValue_UINT_8 :: "8 word \<Rightarrow> string" where
  "getStringValue_UINT_8 value = print_byte value"

definition getStringValue_UINT_16 :: "16 word \<Rightarrow> string" where
  "getStringValue_UINT_16 value = print_unsigned value"

section \<open>Round trips\<close>

lemma sint_bounds:
  fixes v :: "'w::len word"
  shows "- (2 ^ (LENGTH('w) - 1)) \<le> sint v" "sint v \<le> 2 ^ (LENGTH('w) - 1) - 1"
  using sint_ge [of v] sint_lt [of v] by simp_all

lemma read_print_signed:
  "read_signed (print_signed v) = Inr v" "read_signed_checked (print_signed v) = Inr (v, True)"
  for v :: "'w::len word"
  using extractInt_print [OF sint_bounds [of v]]
  by (simp_all add: read_signed_def read_signed_checked_def print_signed_def convertFromStringValue_int_def getValue_int_def)

lemma read_print_unsigned:
  "read_unsigned (print_unsigned v) = Inr v" "read_unsigned_checked (print_unsigned v) = Inr (v, True)"
  for v :: "'w::len word"
proof -
  have "uint v \<le> 2 ^ LENGTH('w) - 1" using uint_lt2p [of v] by simp
  from extractInt_print [OF uint_ge_0 this] show "read_unsigned (print_unsigned v) = Inr v"
    "read_unsigned_checked (print_unsigned v) = Inr (v, True)"
    by (simp_all add: read_unsigned_def read_unsigned_checked_def print_unsigned_def convertFromStringValue_int_def getValue_int_def)
qed

lemma byte_less: "unat v < 256" for v :: "8 word"
  using unsigned_less [of v] by simp

lemma byte_of_char: "byte_of (char_of (unat v)) = v" for v :: "8 word"
  using byte_less [of v] by (simp add: byte_of_def)

lemma extractChar_byte:
  "extractChar (print_byte v) =
     (if c_isspace (char_of (unat v)) then (None, True) else (Some (char_of (unat v)), False))"
  by (simp add: extractChar_def print_byte_def)

text \<open>
  C34. Values read back: what \<^verbatim>\<open>getStringValue\<close> prints for a value of 16, 32 or 64 bits, signed or unsigned, the
  reading function of the same type turns into the same value, and reports success. A value of 8 bits is printed
  as the character with that code, and reads back as that character, except that for the six white space
  characters the reading function skips it and then reads a variable that was never assigned.
\<close>

theorem value_roundtrip:
  "getShortValue_checked (getStringValue_INT_16 s) = Inr (s, True) \<and> getShortValue (getStringValue_INT_16 s) = Inr s \<and>
   getIntValue_checked (getStringValue_INT_32 i) = Inr (i, True) \<and> getIntValue (getStringValue_INT_32 i) = Inr i \<and>
   getLongValue_checked (getStringValue_INT_64 l) = Inr (l, True) \<and> getLongValue (getStringValue_INT_64 l) = Inr l \<and>
   getUnsignedShortValue_checked (getStringValue_UINT_16 s) = Inr (s, True) \<and>
   getUnsignedShortValue (getStringValue_UINT_16 s) = Inr s \<and>
   getUnsignedIntValue_checked (getStringValue_UINT_32 i) = Inr (i, True) \<and>
   getUnsignedIntValue (getStringValue_UINT_32 i) = Inr i \<and>
   getUnsignedLongValue_checked (getStringValue_UINT_64 l) = Inr (l, True) \<and>
   getUnsignedLongValue (getStringValue_UINT_64 l) = Inr l \<and>
   getByteValue_checked (getStringValue_INT_8 b) =
     (if b = 32 \<or> 9 \<le> b \<and> b \<le> 13 then Inl UninitRead else Inr (b, True)) \<and>
   getUnsignedByteValue (getStringValue_UINT_8 b) =
     (if b = 32 \<or> 9 \<le> b \<and> b \<le> 13 then Inl UninitRead else Inr b)"
proof -
  have "c_isspace (char_of (unat b)) \<longleftrightarrow> b = 32 \<or> 9 \<le> b \<and> b \<le> 13"
    using byte_less [of b] by (simp add: c_isspace_def Let_def word_le_nat_alt word_unat_eq_iff [of b 32])
  note sp = extractChar_byte [of b, unfolded this]
  show ?thesis
    by (simp add: getShortValue_checked_def getShortValue_def getIntValue_checked_def getIntValue_def getLongValue_checked_def
        getLongValue_def getUnsignedShortValue_checked_def getUnsignedShortValue_def getUnsignedIntValue_checked_def
        getUnsignedIntValue_def getUnsignedLongValue_checked_def getUnsignedLongValue_def getStringValue_INT_16_def
        getStringValue_INT_32_def getStringValue_INT_64_def getStringValue_UINT_16_def getStringValue_UINT_32_def
        getStringValue_UINT_64_def read_print_signed read_print_unsigned getByteValue_checked_def getUnsignedByteValue_def
        getStringValue_INT_8_def getStringValue_UINT_8_def sp byte_of_char)
qed

section \<open>Which texts are numbers\<close>

definition sign_ok :: "string \<Rightarrow> bool" where
  "sign_ok sg \<longleftrightarrow> sg \<in> {[], ''+'', ''-''}"

definition number_value :: "string \<Rightarrow> string \<Rightarrow> int" where
  "number_value sg ds = (if sg = ''-'' then - int (undec ds) else int (undec ds))"

lemma is_digit_not: "is_digit c \<Longrightarrow> \<not> c_isspace c \<and> c \<noteq> CHR ''-'' \<and> c \<noteq> CHR ''+''"
  by (auto simp: is_digit_def c_isspace_def Let_def)

lemma extractInt_text:
  assumes ws: "\<forall>c \<in> set ws. c_isspace c" and sg: "sign_ok sg" and ds: "ds \<noteq> []" "\<forall>c \<in> set ds. is_digit c"
    and r: "r = [] \<or> \<not> is_digit (hd r)"
  shows "extractInt lo hi (ws @ sg @ ds @ r) =
    (let v = number_value sg ds in
     if sg = ''-'' \<and> lo = 0 then (if hi < - v then (Some hi, True) else (Some (v mod (hi + 1)), False))
     else if v < lo then (Some lo, True) else if hi < v then (Some hi, True) else (Some v, False))"
proof -
  have tw: "takeWhile is_digit (ds @ r) = ds"
    using ds(2) r by (cases r) (simp_all add: takeWhile_append)
  have hd: "\<not> c_isspace (hd ds) \<and> hd ds \<noteq> CHR ''-'' \<and> hd ds \<noteq> CHR ''+''"
    using ds is_digit_not [of "hd ds"] by (cases ds) auto
  have sgs: "\<not> c_isspace (CHR ''-'')" "\<not> c_isspace (CHR ''+'')" by (simp_all add: c_isspace_def)
  have dw: "dropWhile c_isspace (ws @ sg @ ds @ r) = sg @ ds @ r"
    using ws hd ds(1) sg sgs by (cases ds) (auto simp: sign_ok_def dropWhile_append2)
  obtain d ds' where d: "ds = d # ds'" using ds(1) by (cases ds) auto
  consider "sg = []" | "sg = ''+''" | "sg = ''-''" using sg by (auto simp: sign_ok_def)
  then show ?thesis
  proof cases
    case 1
    then show ?thesis using hd tw unfolding extractInt_def dw by (simp add: d number_value_def Let_def del: takeWhile.simps)
  next
    case 2
    then show ?thesis using tw unfolding extractInt_def dw by (simp add: d number_value_def Let_def del: takeWhile.simps)
  next
    case 3
    then show ?thesis using tw unfolding extractInt_def dw by (simp add: d number_value_def Let_def del: takeWhile.simps)
  qed
qed

text \<open>
  C35. A text of white space, an optional sign, digits and anything that does not start with a digit is read as the
  number its digits denote; the rest of the text is ignored. Beyond the bounds of a signed type the result is the
  nearest bound and the conversion reports failure. An unsigned type takes a number with a minus sign as the negation
  modulo the size of the type, and reports success. A text with no digit where one is expected is 0 and reports
  failure, and a blank text reads a variable that was never assigned.
\<close>

theorem number_text:
  assumes "\<forall>c \<in> set ws. c_isspace c" and "sign_ok sg" and "ds \<noteq> []" "\<forall>c \<in> set ds. is_digit c"
    and "r = [] \<or> \<not> is_digit (hd r)"
  shows "read_signed_checked (ws @ sg @ ds @ r) =
      (let v = number_value sg ds; lo = - (2 ^ (LENGTH('w::len) - 1)); hi = 2 ^ (LENGTH('w) - 1) - 1
       in Inr (word_of_int (max lo (min hi v)) :: 'w word, lo \<le> v \<and> v \<le> hi)) \<and>
    read_unsigned_checked (ws @ sg @ ds @ r) =
      (let v = number_value sg ds; hi = 2 ^ LENGTH('w) - 1
       in Inr (if hi < \<bar>v\<bar> then word_of_int hi else word_of_int v :: 'w word, \<bar>v\<bar> \<le> hi)) \<and>
    (read_signed_checked ws :: ('w word \<times> bool) result) = Inl UninitRead \<and>
    (\<not> c_isspace c \<and> \<not> is_digit c \<and> c \<noteq> CHR ''+'' \<and> c \<noteq> CHR ''-'' \<longrightarrow>
      (read_signed_checked (ws @ c # t) :: ('w word \<times> bool) result) = Inr (0, False))"
proof -
  let ?v = "number_value sg ds" and ?p = "2 ^ (LENGTH('w) - 1) :: int" and ?q = "2 ^ LENGTH('w) :: int"
  have p: "0 < ?p" "0 < ?q" by simp_all
  note e = extractInt_text [OF assms]
  have "read_signed_checked (ws @ sg @ ds @ r) =
      (let v = ?v; lo = - ?p; hi = ?p - 1 in Inr (word_of_int (max lo (min hi v)) :: 'w word, lo \<le> v \<and> v \<le> hi))"
    using p by (auto simp: read_signed_checked_def getValue_int_def e Let_def)
  moreover have "(word_of_int (?v mod ?q) :: 'w word) = word_of_int ?v" by (simp add: word_of_int_eq_iff take_bit_eq_mod)
  then have "read_unsigned_checked (ws @ sg @ ds @ r) =
      (let v = ?v; hi = ?q - 1 in Inr (if hi < \<bar>v\<bar> then word_of_int hi else word_of_int v :: 'w word, \<bar>v\<bar> \<le> hi))"
    by (auto simp: read_unsigned_checked_def getValue_int_def e Let_def number_value_def)
  moreover have "dropWhile c_isspace ws = []" using assms(1) by simp
  then have "(read_signed_checked ws :: ('w word \<times> bool) result) = Inl UninitRead"
    by (simp add: read_signed_checked_def getValue_int_def extractInt_def Let_def)
  moreover have "(read_signed_checked (ws @ c # t) :: ('w word \<times> bool) result) = Inr (0, False)"
    if c: "\<not> c_isspace c \<and> \<not> is_digit c \<and> c \<noteq> CHR ''+'' \<and> c \<noteq> CHR ''-''"
  proof -
    have "dropWhile c_isspace (ws @ c # t) = c # t" using assms(1) c by (simp add: dropWhile_append2)
    then show ?thesis using c by (simp add: read_signed_checked_def getValue_int_def extractInt_def Let_def)
  qed
  ultimately show ?thesis by blast
qed

theorem number_text_witness:
  "getShortValue_checked '' -40000x'' = Inr (word_of_int (- 32768), False) \<and>
   getUnsignedShortValue_checked '' -1 '' = Inr (word_of_int (- 1), True) \<and>
   getShortValue_checked ''x'' = Inr (0, False)"
proof -
  have d: "undec ''40000'' = 40000" "undec ''1'' = 1" by (simp_all add: undec_def digit_value_def)
  have a: "\<forall>c \<in> set '' ''. c_isspace c" "\<forall>c \<in> set []. c_isspace c" "sign_ok ''-''"
    "\<forall>c \<in> set ''40000''. is_digit c" "\<forall>c \<in> set ''1''. is_digit c"
    "''x'' = [] \<or> \<not> is_digit (hd ''x'')" "'' '' = [] \<or> \<not> is_digit (hd '' '')"
    by (simp_all add: c_isspace_def is_digit_def sign_ok_def Let_def)
  have "getShortValue_checked '' -40000x'' = Inr (word_of_int (- 32768), False)"
    using number_text [OF a(1) a(3) _ a(4) a(6), where 'w = 16] unfolding getShortValue_checked_def
    by (simp add: number_value_def d Let_def)
  moreover have "getUnsignedShortValue_checked '' -1 '' = Inr (word_of_int (- 1), True)"
    using number_text [OF a(1) a(3) _ a(5) a(7), where 'w = 16] unfolding getUnsignedShortValue_checked_def
    by (simp add: number_value_def d Let_def)
  moreover have "getShortValue_checked ''x'' = Inr (0, False)"
    using number_text [OF a(2) a(3) _ a(5) a(7), where 'w = 16, of "CHR ''x''" "[]"] unfolding getShortValue_checked_def
    by (simp add: c_isspace_def is_digit_def Let_def)
  ultimately show ?thesis by blast
qed

end
