(* ===== verification/Data_Holders.thy ===== *)
theory Data_Holders
  imports Data_Conversions
begin

text \<open>
  The holders of primitive values of \<^verbatim>\<open>base/DataHolder.h\<close>, the identity conversions of strings of \<^verbatim>\<open>base/Data.cpp\<close>,
  and the parameter wrappers of \<^verbatim>\<open>base/Data.h\<close> with the objects they refer to.
\<close>

section \<open>Strings\<close>

text \<open>
  The specialisations of \<^verbatim>\<open>DataConverter\<close> for strings return their argument. A converter has a member
  \<^verbatim>\<open>conversionFailed\<close> that no constructor initialises (\<open>None\<close>): the general \<^verbatim>\<open>convertFromString\<close> assigns it, the one
  for strings does not.
\<close>

record DataConverter =
  conversionFailed :: "bool option"

definition DataConverter_new :: DataConverter where
  "DataConverter_new = \<lparr>conversionFailed = None\<rparr>"

definition convertToStringValue_string :: "string \<Rightarrow> string" where
  "convertToStringValue_string value = value"

definition convertFromStringValue_string :: "string \<Rightarrow> string" where
  "convertFromStringValue_string value = value"

definition convertFromString_string :: "string \<Rightarrow> DataConverter \<Rightarrow> string \<times> DataConverter" where
  "convertFromString_string value cv = (value, cv)"

definition convertFromString_int :: "int \<Rightarrow> int \<Rightarrow> string \<Rightarrow> DataConverter \<Rightarrow> int option \<times> DataConverter" where
  "convertFromString_int lo hi val cv =
     (let (v, failed) = extractInt lo hi val in (v, cv\<lparr>conversionFailed := Some failed\<rparr>))"

text \<open>\<^verbatim>\<open>getValue\<close> for an integer type is the conversion by a new converter and the test of its flag.\<close>

lemma getValue_int_converter:
  "getValue_int lo hi val =
     (let (v, cv) = convertFromString_int lo hi val DataConverter_new
      in bind_r (assigned v) (\<lambda>i. bind_r (assigned (conversionFailed cv)) (\<lambda>failed. Inr (i, \<not> failed))))"
  by (simp add: getValue_int_def convertFromString_int_def case_prod_beta Let_def)

section \<open>Holders of primitive values\<close>

record 'a PrimitiveDataHolder =
  ph_value :: 'a

definition PrimitiveDataHolder_new :: "'a \<Rightarrow> 'a PrimitiveDataHolder" where
  "PrimitiveDataHolder_new v = \<lparr>ph_value = v\<rparr>"

definition Primitive_getCurrentValue :: "'a PrimitiveDataHolder \<Rightarrow> 'a" where
  "Primitive_getCurrentValue h = ph_value h"

definition Primitive_getValue :: "bool \<Rightarrow> 'a PrimitiveDataHolder \<Rightarrow> 'a" where
  "Primitive_getValue block h = ph_value h"

definition Primitive_setValue :: "'a \<Rightarrow> 'a PrimitiveDataHolder \<Rightarrow> 'a PrimitiveDataHolder" where
  "Primitive_setValue v h = h\<lparr>ph_value := v\<rparr>"

text \<open>\<open>out\<close> is \<^verbatim>\<open>stream << value\<close> for the value type; without \<^verbatim>\<open>boolalpha\<close> a boolean is printed as a digit.\<close>

definition Primitive_getStringValue :: "('a \<Rightarrow> string) \<Rightarrow> bool \<Rightarrow> 'a PrimitiveDataHolder \<Rightarrow> string" where
  "Primitive_getStringValue out block h = out (Primitive_getValue block h)"

definition print_bool :: "bool \<Rightarrow> string" where
  "print_bool b = (if b then ''1'' else ''0'')"

text \<open>The specialisations: their constructors (\<open>None\<close> is the default constructor).\<close>

definition DataHolder_INT_8 :: "8 word option \<Rightarrow> 8 word PrimitiveDataHolder" where
  "DataHolder_INT_8 v = PrimitiveDataHolder_new (case v of None \<Rightarrow> 0 | Some v \<Rightarrow> v)"

definition DataHolder_INT_16 :: "16 word option \<Rightarrow> 16 word PrimitiveDataHolder" where
  "DataHolder_INT_16 v = PrimitiveDataHolder_new (case v of None \<Rightarrow> 0 | Some v \<Rightarrow> v)"

definition DataHolder_INT_32 :: "32 word option \<Rightarrow> 32 word PrimitiveDataHolder" where
  "DataHolder_INT_32 v = PrimitiveDataHolder_new (case v of None \<Rightarrow> 0 | Some v \<Rightarrow> v)"

definition DataHolder_INT_64 :: "64 word option \<Rightarrow> 64 word PrimitiveDataHolder" where
  "DataHolder_INT_64 v = PrimitiveDataHolder_new (case v of None \<Rightarrow> 0 | Some v \<Rightarrow> v)"

definition DataHolder_UINT_8 :: "8 word option \<Rightarrow> 8 word PrimitiveDataHolder" where
  "DataHolder_UINT_8 v = PrimitiveDataHolder_new (case v of None \<Rightarrow> 0 | Some v \<Rightarrow> v)"

definition DataHolder_UINT_16 :: "16 word option \<Rightarrow> 16 word PrimitiveDataHolder" where
  "DataHolder_UINT_16 v = PrimitiveDataHolder_new (case v of None \<Rightarrow> 0 | Some v \<Rightarrow> v)"

definition DataHolder_UINT_32 :: "32 word option \<Rightarrow> 32 word PrimitiveDataHolder" where
  "DataHolder_UINT_32 v = PrimitiveDataHolder_new (case v of None \<Rightarrow> 0 | Some v \<Rightarrow> v)"

definition DataHolder_UINT_64 :: "64 word option \<Rightarrow> 64 word PrimitiveDataHolder" where
  "DataHolder_UINT_64 v = PrimitiveDataHolder_new (case v of None \<Rightarrow> 0 | Some v \<Rightarrow> v)"

text \<open>
  Floating point numbers are a type parameter, with their zero; the operator that prints them is one of the C++ library.
\<close>

definition DataHolder_double :: "'d \<Rightarrow> 'd option \<Rightarrow> 'd PrimitiveDataHolder" where
  "DataHolder_double zero v = PrimitiveDataHolder_new (case v of None \<Rightarrow> zero | Some v \<Rightarrow> v)"

definition getStringValue_double :: "('d \<Rightarrow> string) \<Rightarrow> 'd \<Rightarrow> string" where
  "getStringValue_double out v = out v"

text \<open>The holder of a boolean is built from a 64-bit integer.\<close>

definition DataHolder_bool :: "64 word option \<Rightarrow> bool PrimitiveDataHolder" where
  "DataHolder_bool v = PrimitiveDataHolder_new (case v of None \<Rightarrow> False | Some v \<Rightarrow> v \<noteq> 0)"

lemmas holder_defs = PrimitiveDataHolder_new_def Primitive_getCurrentValue_def Primitive_getValue_def
  Primitive_setValue_def Primitive_getStringValue_def DataHolder_INT_8_def DataHolder_INT_16_def DataHolder_INT_32_def
  DataHolder_INT_64_def DataHolder_UINT_8_def DataHolder_UINT_16_def DataHolder_UINT_32_def DataHolder_UINT_64_def
  DataHolder_bool_def DataHolder_double_def

text \<open>
  The text of a holder reads back as the value it was built from or last set to, for every integer type of 16, 32
  and 64 bits. The text of a holder of a boolean does not: it is a digit, which \<^verbatim>\<open>getBoolValue\<close> takes
  for false, while the text \<^verbatim>\<open>Data::getStringValue\<close> has for the same boolean reads back.
\<close>

theorem holder_text:
  "getShortValue (Primitive_getStringValue print_signed blk (DataHolder_INT_16 (Some s))) = Inr s \<and>
   getIntValue (Primitive_getStringValue print_signed blk (DataHolder_INT_32 (Some i))) = Inr i \<and>
   getLongValue (Primitive_getStringValue print_signed blk (Primitive_setValue l (DataHolder_INT_64 u))) = Inr l \<and>
   getUnsignedShortValue (Primitive_getStringValue print_unsigned blk (DataHolder_UINT_16 (Some s))) = Inr s \<and>
   getUnsignedIntValue (Primitive_getStringValue print_unsigned blk (DataHolder_UINT_32 (Some i))) = Inr i \<and>
   getUnsignedLongValue (Primitive_getStringValue print_unsigned blk (Primitive_setValue l (DataHolder_UINT_64 u))) = Inr l \<and>
   getBoolValue (Primitive_getStringValue print_bool blk (DataHolder_bool b)) = Inr False \<and>
   getBoolValue (getStringValue_bool (Primitive_getCurrentValue (DataHolder_bool b))) = Inr (b \<noteq> None \<and> b \<noteq> Some 0)"
proof -
  have "getBoolValue (print_bool v) = Inr False" for v
    by (cases v) (simp_all add: getBoolValue_def print_bool_def trim_strip strip_def c_isspace_def lowerCase_def c_tolower_def
        convertFromStringValue_bool_def extractBool_def Let_def)
  moreover have "getBoolValue (getStringValue_bool v) = Inr v" for v
    by (cases v) (simp_all add: getBoolValue_def getStringValue_bool_def convertToStringValue_bool_def trim_strip strip_def
        c_isspace_def lowerCase_def c_tolower_def convertFromStringValue_bool_def extractBool_def Let_def)
  moreover have "ph_value (DataHolder_bool b) = (b \<noteq> None \<and> b \<noteq> Some 0)" by (cases b) (simp_all add: holder_defs)
  ultimately show ?thesis
    by (simp add: holder_defs read_print_signed read_print_unsigned getShortValue_def getIntValue_def getLongValue_def
        getUnsignedShortValue_def getUnsignedIntValue_def getUnsignedLongValue_def)
qed

section \<open>Parameter wrappers\<close>

text \<open>
  A \<^verbatim>\<open>parameter_wrapper\<close> keeps a pointer to the wrapped object: an object of the caller, or its own member
  \<^verbatim>\<open>convertedValue\<close> when the object was a temporary. The store holds the objects and the wrappers that exist; reading
  through a pointer to something that no longer exists is \<open>DanglingRef\<close>. Strings and vectors are lists, and an
  unused \<^verbatim>\<open>convertedValue\<close> is empty.
\<close>

datatype target = Object nat | Converted nat

record 'a parameter_wrapper =
  originalValue :: target
  convertedValue :: "'a list"

record 'a param_store =
  objects :: "nat \<rightharpoonup> 'a list"
  wrappers :: "nat \<rightharpoonup> 'a parameter_wrapper"

definition wrap_reference :: "nat \<Rightarrow> nat \<Rightarrow> 'a param_store \<Rightarrow> 'a param_store" where
  "wrap_reference w that st = st\<lparr>wrappers := (wrappers st)(w \<mapsto> \<lparr>originalValue = Object that, convertedValue = []\<rparr>)\<rparr>"

definition wrap_temporary :: "nat \<Rightarrow> 'a list \<Rightarrow> 'a param_store \<Rightarrow> 'a param_store" where
  "wrap_temporary w that st = st\<lparr>wrappers := (wrappers st)(w \<mapsto> \<lparr>originalValue = Converted w, convertedValue = that\<rparr>)\<rparr>"

definition wrap_read :: "nat \<Rightarrow> 'a param_store \<Rightarrow> 'a list result" where
  "wrap_read w st =
     (case wrappers st w of
        None \<Rightarrow> Inl DanglingRef
      | Some r \<Rightarrow>
          (case originalValue r of
             Object that \<Rightarrow> (case objects st that of None \<Rightarrow> Inl DanglingRef | Some v \<Rightarrow> Inr v)
           | Converted u \<Rightarrow> (case wrappers st u of None \<Rightarrow> Inl DanglingRef | Some x \<Rightarrow> Inr (convertedValue x))))"

text \<open>
  The third constructor is written as a copy constructor that redirects the pointer to the copy's own member, but its
  parameter has type \<^verbatim>\<open>const T &\<close>, so it is not one; a wrapper is copied by the copy constructor the compiler generates,
  member by member.
\<close>

definition wrap_copy_declared :: "nat \<Rightarrow> nat \<Rightarrow> 'a param_store \<Rightarrow> 'a param_store" where
  "wrap_copy_declared w' w st =
     (case wrappers st w of
        None \<Rightarrow> st
      | Some other \<Rightarrow> st\<lparr>wrappers := (wrappers st)(w' \<mapsto>
          \<lparr>originalValue = (if originalValue other = Converted w then Converted w' else originalValue other),
           convertedValue = convertedValue other\<rparr>)\<rparr>)"

definition wrap_copy :: "nat \<Rightarrow> nat \<Rightarrow> 'a param_store \<Rightarrow> 'a param_store" where
  "wrap_copy w' w st =
     (case wrappers st w of None \<Rightarrow> st | Some other \<Rightarrow> st\<lparr>wrappers := (wrappers st)(w' \<mapsto> other)\<rparr>)"

definition wrap_destroy :: "nat \<Rightarrow> 'a param_store \<Rightarrow> 'a param_store" where
  "wrap_destroy w st = st\<lparr>wrappers := (wrappers st)(w := None)\<rparr>"

definition string_wrapper_c :: "nat \<Rightarrow> string option \<Rightarrow> char param_store \<Rightarrow> char param_store" where
  "string_wrapper_c w that st = wrap_temporary w (string_wrapper that) st"

lemmas wrap_defs = wrap_reference_def wrap_temporary_def wrap_read_def wrap_copy_declared_def wrap_copy_def wrap_destroy_def

text \<open>
  A wrapper of an object reads the object as it is at that moment, and so does a copy of it; a wrapper of a
  C string reads its characters. A copy of a wrapper of a C string still points into the wrapper it was copied from:
  when that one is gone the copy is dangling, which the constructor that was written for copies would have avoided.
\<close>

theorem wrapper_copies:
  assumes "w' \<noteq> w" and "objects st that = Some v"
  shows "wrap_read w (wrap_reference w that st) = Inr v \<and>
    wrap_read w' (wrap_destroy w (wrap_copy w' w (wrap_reference w that st))) = Inr v \<and>
    wrap_read w (string_wrapper_c w p st') = Inr (case p of None \<Rightarrow> [] | Some buf \<Rightarrow> c_string buf 0) \<and>
    wrap_read w' (wrap_copy w' w (string_wrapper_c w p st')) = Inr (case p of None \<Rightarrow> [] | Some buf \<Rightarrow> c_string buf 0) \<and>
    wrap_read w' (wrap_destroy w (wrap_copy w' w (string_wrapper_c w p st'))) = Inl DanglingRef \<and>
    wrap_read w' (wrap_destroy w (wrap_copy_declared w' w (string_wrapper_c w p st'))) =
      Inr (case p of None \<Rightarrow> [] | Some buf \<Rightarrow> c_string buf 0)"
  using assms by (simp add: wrap_defs string_wrapper_c_def string_wrapper_def)

theorem wrapper_copies_witness:
  "wrap_read 1 (wrap_destroy 0 (wrap_copy 1 0 (string_wrapper_c 0 (Some [CHR ''x'', NUL]) \<lparr>objects = Map.empty, wrappers = Map.empty\<rparr>))) =
     Inl DanglingRef"
  using wrapper_copies [of 1 0 "\<lparr>objects = [0 \<mapsto> ''o''], wrappers = Map.empty\<rparr>" 0 "''o''" "Some [CHR ''x'', NUL]"
      "\<lparr>objects = Map.empty, wrappers = Map.empty\<rparr>"] by simp

end
