(* ===== verification/Test_Program.thy ===== *)
theory Test_Program
  imports Queue_Processor Producer_Properties Data_Holders
begin

text \<open>
  The test program, \<^verbatim>\<open>sample/testQueues.cpp\<close>: what each thread that fills a queue does, how many entries that makes, and
  how the main program counts the entries the consumers handled.

  What the calls of \<^verbatim>\<open>getNext\<close> and \<^verbatim>\<open>time\<close> return to a thread depends on the other threads and on the clock; it is an
  argument (\<open>nx\<close> and \<open>tm\<close>, by the number of the call). The sleep of the main program is the step in which the workers
  hand entries to the consumers.
\<close>

section \<open>Helpers\<close>

text \<open>\<^verbatim>\<open>print\<close>: the values separated by commas; \<open>out\<close> is the output operator of their type.\<close>

definition print_values :: "('a \<Rightarrow> string) \<Rightarrow> 'a list \<Rightarrow> string" where
  "print_values out values =
     (let s = concat (map (\<lambda>v. out v @ '', '') values)
      in ''['' @ (if 2 \<le> length s then take (length s - 2) s else []) @ '']'' @ [LF])"

definition getNext :: "tid \<Rightarrow> Mutex \<times> int \<Rightarrow> (int \<times> Mutex \<times> int) option" where
  "getNext t s =
     (case Mutex_acquire t (fst s) of
        None \<Rightarrow> None
      | Some m \<Rightarrow> let result = snd s + 1 in Some (result, Mutex_release t m, result))"

definition max_int :: "int \<Rightarrow> int \<Rightarrow> int" where
  "max_int a b = (if b < a then a else b)"

section \<open>A thread that fills the queue\<close>

definition count1 :: nat where "count1 = 7"
definition count2 :: nat where "count2 = 41"
definition count3 :: nat where "count3 = 3"

datatype action = AddEntry queue_entry | WriteStats | StartProcessor | AwaitResult receiver_id

definition entry_text :: "ThreadInfo \<Rightarrow> nat \<Rightarrow> int \<Rightarrow> int \<Rightarrow> string" where
  "entry_text info i tot now =
     ''thread '' @ convertToStringValue_int (getThreadId info) @ '' '' @ convertToStringValue_int (int i) @
     '' total '' @ convertToStringValue_int tot @ '' '' @ convertToStringValue_int now"

definition byte_vector_wrapper_c :: "string option \<Rightarrow> 8 word list result" where
  "byte_vector_wrapper_c that = vector_wrapper (map_option (map byte_of) that)"

definition first_action :: "ThreadInfo \<Rightarrow> nat \<Rightarrow> int \<Rightarrow> int \<Rightarrow> action" where
  "first_action info i tot now =
     AddEntry (SampleQueueEntry1 (QueueEntryData1_new (of_nat i) (entry_text info i tot now) 4 \<lparr>timeSecs = 34567\<rparr> None))"

definition second_actions :: "ThreadInfo \<Rightarrow> nat \<Rightarrow> int \<Rightarrow> int \<Rightarrow> action list" where
  "second_actions info i tot now =
     (let s = entry_text info i tot now in
      [AddEntry (SampleQueueEntry1 (QueueEntryData1_new (of_nat i) s 5 \<lparr>timeSecs = 676868\<rparr> None)),
       AddEntry (SampleQueueEntry2 (QueueEntryData2_new s True \<lparr>timeSecs = 11\<rparr> (string_wrapper (Some (''xy'' @ [NUL])))
         (case byte_vector_wrapper_c (Some (''yz'' @ [NUL])) of Inl _ \<Rightarrow> [] | Inr bs \<Rightarrow> bs) None))])"

definition third_actions :: "ThreadInfo \<Rightarrow> nat \<Rightarrow> int \<Rightarrow> int \<Rightarrow> receiver_id \<Rightarrow> action list" where
  "third_actions info i tot now holder =
     [AddEntry (SampleQueueEntry1
        (QueueEntryData1_new (of_nat i) (entry_text info i tot now) 4 \<lparr>timeSecs = 34567\<rparr> (Some holder))),
      AwaitResult holder]"

definition testPopulate ::
  "int \<Rightarrow> int \<Rightarrow> nat \<Rightarrow> (nat \<Rightarrow> int) \<Rightarrow> (nat \<Rightarrow> int) \<Rightarrow> (nat \<Rightarrow> receiver_id) \<Rightarrow> action list" where
  "testPopulate pid tid self nx tm holders =
     (let info = initAsCurrentThread pid tid self ThreadInfo_new in
      map (\<lambda>i. first_action info i (nx i) (tm i)) [1..<Suc count1] @
      [WriteStats, StartProcessor] @
      concat (map (\<lambda>i. second_actions info i (nx (count1 + i)) (tm (count1 + i))) [1..<Suc count2]) @
      concat (map (\<lambda>i. third_actions info i (nx (count1 + count2 + i)) (tm (count1 + count2 + i)) (holders i)) [1..<Suc count3]) @
      [WriteStats])"

fun added_entries :: "action list \<Rightarrow> queue_entry list" where
  "added_entries [] = []"
| "added_entries (AddEntry e # as) = e # added_entries as"
| "added_entries (_ # as) = added_entries as"

definition adderCount :: nat where "adderCount = 5"

text \<open>
  \<^verbatim>\<open>threading/Thread.h\<close>: a thread object has no handle until it is started; \<^verbatim>\<open>join\<close> waits for a thread that has one.
  \<open>h\<close> is the handle \<^verbatim>\<open>pthread_create\<close> gives out, \<open>ended\<close> the set of handles of threads that have ended.
\<close>

record Thread =
  thread :: nat

definition Thread_new :: Thread where
  "Thread_new = \<lparr>thread = 0\<rparr>"

definition Thread_start :: "nat \<Rightarrow> Thread \<Rightarrow> Thread" where
  "Thread_start h t = t\<lparr>thread := h\<rparr>"

definition Thread_join :: "nat set \<Rightarrow> Thread \<Rightarrow> bool" where
  "Thread_join ended t \<longleftrightarrow> thread t = 0 \<or> thread t \<in> ended"

text \<open>\<^verbatim>\<open>testQueuesMultipleThreads\<close>: every one of the threads runs \<^verbatim>\<open>testPopulate\<close>; they are all joined before it returns.\<close>

definition startThreads :: "(nat \<Rightarrow> nat) \<Rightarrow> Thread list" where
  "startThreads handles = map (\<lambda>i. Thread_start (handles i) Thread_new) [0..<adderCount]"

definition joinThreads :: "nat set \<Rightarrow> Thread list \<Rightarrow> bool" where
  "joinThreads ended ts \<longleftrightarrow> list_all (Thread_join ended) ts"

lemma joinThreads_iff:
  assumes "\<And>i. i < adderCount \<Longrightarrow> handles i \<noteq> 0"
  shows "joinThreads ended (startThreads handles) \<longleftrightarrow> handles ` {..<adderCount} \<subseteq> ended"
proof -
  have "joinThreads ended (startThreads handles) \<longleftrightarrow> (\<forall>i < adderCount. handles i = 0 \<or> handles i \<in> ended)"
    by (auto simp: joinThreads_def startThreads_def list_all_iff Thread_join_def Thread_start_def Thread_new_def)
  then show ?thesis using assms by blast
qed

text \<open>\<open>pid\<close> is the process, \<open>tids\<close> and \<open>handles\<close> identify the threads, as in \<^verbatim>\<open>initAsCurrentThread\<close>.\<close>

definition testQueuesMultipleThreads ::
  "int \<Rightarrow> (nat \<Rightarrow> int) \<Rightarrow> (nat \<Rightarrow> nat) \<Rightarrow> (nat \<Rightarrow> nat \<Rightarrow> int) \<Rightarrow> (nat \<Rightarrow> nat \<Rightarrow> int) \<Rightarrow> (nat \<Rightarrow> nat \<Rightarrow> receiver_id) \<Rightarrow> action list list" where
  "testQueuesMultipleThreads pid tids handles nx tm holders =
     map (\<lambda>t. testPopulate pid (tids t) (thread (startThreads handles ! t)) (nx t) (tm t) (holders t)) [0..<adderCount]"

section \<open>The main program\<close>

text \<open>
  The five processors of \<^verbatim>\<open>main\<close>, each with eight workers, five consumers of its own and a queue of three slots; consumers
  are named by the number of the processor and their own.
\<close>

definition mainConsumers :: "nat \<Rightarrow> (nat \<times> nat) list" where
  "mainConsumers i = map (\<lambda>j. (i, j)) [0..<5]"

definition mainProcessors :: "(nat \<times> nat) QueueProcessor result list" where
  "mainProcessors = map (\<lambda>i. QueueProcessor_new 8 (mainConsumers i) 3) [0..<5]"

text \<open>No constructor throws; the workers from the fifth on share the last consumer.\<close>

lemma main_consumers:
  assumes "i < 5"
  obtains p where "mainProcessors ! i = Inr p" and "length (workers p) = 8"
    and "\<And>j. j < 8 \<Longrightarrow> consumer (workers p ! j) = (i, min 4 j)" and "queueSize p = 3"
proof -
  let ?p = "projr (QueueProcessor_new 8 (mainConsumers i) 3)"
  have n: "mainProcessors ! i = Inr ?p" using assms by (simp add: mainProcessors_def QueueProcessor_new_def mainConsumers_def)
  then have new: "QueueProcessor_new 8 (mainConsumers i) 3 = Inr ?p" using assms by (simp add: mainProcessors_def)
  have "workers ?p = fillWorkers 8 (mainConsumers i) []" "queueSize ?p = 3"
    by (simp_all add: QueueProcessor_new_def mainConsumers_def)
  moreover have "fillWorkers 8 (mainConsumers i) [] = map (\<lambda>j. WorkerCache_new (i, min 4 j)) [0, 1, 2, 3, 4, 5, 6, 7]"
    by (simp add: mainConsumers_def fillWorkers.simps upt_rec numeral_eq_Suc)
  moreover have "j < 8 \<Longrightarrow> j = 0 \<or> j = 1 \<or> j = 2 \<or> j = 3 \<or> j = 4 \<or> j = 5 \<or> j = 6 \<or> j = 7" for j :: nat by auto
  ultimately show ?thesis using that [OF n] by (fastforce simp: WorkerCache_new_def)
qed

definition totalExpected :: c_uint where
  "totalExpected = word_of_int (int adderCount * (int count1 + 2 * int count2 + int count3))"

text \<open>One pass over the consumers, from the last to the first: each counter is swapped with 0 and subtracted.\<close>

fun countDown :: "SampleQueueEntryConsumer list \<Rightarrow> nat \<Rightarrow> c_uint \<Rightarrow> c_uint \<times> SampleQueueEntryConsumer list" where
  "countDown cs 0 tot = (tot, cs)"
| "countDown cs (Suc j) tot =
     (let removed = handledCount (cs ! j) in countDown (cs[j := (cs ! j)\<lparr>handledCount := 0\<rparr>]) j (tot - removed))"

text \<open>The loop of at most three rounds; \<open>work r\<close> is what happens to the consumers during the sleep of round \<open>r\<close>.\<close>

function countLoop ::
  "(nat \<Rightarrow> SampleQueueEntryConsumer list \<Rightarrow> SampleQueueEntryConsumer list) \<Rightarrow> nat \<Rightarrow> c_uint \<Rightarrow> SampleQueueEntryConsumer list \<Rightarrow>
   c_uint \<times> SampleQueueEntryConsumer list" where
  "countLoop work rounds tot cs =
     (if 0 < tot \<and> rounds < 3
      then let cs1 = work rounds cs; (total1, cs2) = countDown cs1 (length cs1) tot in countLoop work (Suc rounds) total1 cs2
      else (tot, cs))"
  by pat_completeness auto
termination by (relation "measure (\<lambda>(work, rounds, tot, cs). 3 - rounds)") auto

declare countLoop.simps [simp del]

text \<open>
  What \<^verbatim>\<open>main\<close> does, in order: for each processor the threads run, the entries its consumers handled are counted, what is
  missing is reported, the statistics are printed and the processor is terminated; then the processors and the
  data arrays are deleted. \<open>work i\<close> is what happens to the consumers of processor \<open>i\<close> during the sleeps.
\<close>

datatype main_event = RunThreads nat | Counting nat c_uint | Missed nat c_uint | PrintStats nat | TerminateProcessor nat
  | DeleteProcessor nat | DeleteArray nat

definition mainRound ::
  "(nat \<Rightarrow> SampleQueueEntryConsumer list \<Rightarrow> SampleQueueEntryConsumer list) \<Rightarrow> nat \<Rightarrow> SampleQueueEntryConsumer list \<Rightarrow>
   main_event list" where
  "mainRound work i cs =
     (let missed = fst (countLoop work 0 totalExpected cs)
      in [RunThreads i, Counting i totalExpected] @ (if 0 < missed then [Missed i missed] else []) @
         [PrintStats i, TerminateProcessor i])"

definition mainProgram ::
  "(nat \<Rightarrow> nat \<Rightarrow> SampleQueueEntryConsumer list \<Rightarrow> SampleQueueEntryConsumer list) \<Rightarrow> (nat \<Rightarrow> SampleQueueEntryConsumer list) \<Rightarrow>
   main_event list" where
  "mainProgram work cs =
     concat (map (\<lambda>i. mainRound (work i) i (cs i)) [0..<length mainProcessors]) @
     concat (map (\<lambda>i. [DeleteProcessor i, DeleteArray i]) [0..<length mainProcessors])"

text \<open>Entries handed to consumers, one after the other: the number of the consumer and the entry.\<close>

fun consume :: "(nat \<times> queue_entry) list \<Rightarrow> SampleQueueEntryConsumer list \<Rightarrow> SampleQueueEntryConsumer list" where
  "consume [] cs = cs"
| "consume ((j, e) # ds) cs = consume ds (cs[j := snd (SampleConsumer_handle e (cs ! j))])"

section \<open>How many entries are added\<close>

lemma added_append [simp]: "added_entries (as @ bs) = added_entries as @ added_entries bs"
  by (induction as rule: added_entries.induct) auto

lemma added_concat: "length (added_entries (concat xss)) = sum_list (map (\<lambda>xs. length (added_entries xs)) xss)"
  by (induction xss) auto

lemma added_first: "length (added_entries (map (\<lambda>i. first_action info i (f i) (g i)) is)) = length is"
  by (induction "is") (auto simp: first_action_def)

lemma added_counts:
  "length (added_entries (second_actions info i x y)) = 2" "length (added_entries (third_actions info i x y h)) = 1"
  by (simp_all add: second_actions_def third_actions_def Let_def)

lemma added_populate: "length (added_entries (testPopulate pid tid self nx tm hs)) = 92"
  by (simp add: testPopulate_def Let_def added_first added_concat added_counts comp_def sum_list_triv del: upt_Suc)
    (simp add: count1_def count2_def count3_def)

lemma no_null:
  "AddEntry NullBase \<notin> set (testPopulate pid tid self nx tm hs)"
  by (auto simp: testPopulate_def Let_def first_action_def second_actions_def third_actions_def)

text \<open>
  The number the main program counts down from is the number of entries its threads add: each of the five threads
  adds 92 entries, none of them null, and 460 fits the type. The last entries a thread adds each carry the address of a
  result receiver of their own, which the thread waits for before it adds the next one.
\<close>

theorem expected_entries:
  "sum_list (map (\<lambda>as. length (added_entries as)) (testQueuesMultipleThreads pid tids handles nx tm hs)) = unat totalExpected \<and>
   unat totalExpected = 460 \<and>
   NullBase \<notin> set (concat (map added_entries (testQueuesMultipleThreads pid tids handles nx tm hs))) \<and>
   (\<exists>pre. testPopulate pid tid self (nx t) (tm t) (hs t) = pre @
      concat (map (\<lambda>i. third_actions (initAsCurrentThread pid tid self ThreadInfo_new) i (nx t (48 + i)) (tm t (48 + i)) (hs t i)) [1, 2, 3]) @
      [WriteStats] \<and> (\<forall>h. AwaitResult h \<notin> set pre))"
proof -
  have null: "NullBase \<in> set (added_entries as) \<longleftrightarrow> AddEntry NullBase \<in> set as" for as
    by (induction as rule: added_entries.induct) auto
  have "unat totalExpected = 460" by (simp add: totalExpected_def adderCount_def count1_def count2_def count3_def)
  moreover have "sum_list (map (\<lambda>as. length (added_entries as)) (testQueuesMultipleThreads pid tids handles nx tm hs)) = 460"
    by (simp add: testQueuesMultipleThreads_def comp_def added_populate sum_list_triv adderCount_def)
  moreover have "[1..<Suc count3] = [1, 2, 3]" by (simp add: count3_def upt_rec)
  ultimately show ?thesis
    using no_null by (auto simp: null testQueuesMultipleThreads_def testPopulate_def Let_def count1_def count2_def
        first_action_def second_actions_def simp del: upt_Suc)
qed

section \<open>Counting what was handled\<close>

definition total_count :: "SampleQueueEntryConsumer list \<Rightarrow> c_uint" where
  "total_count cs = sum_list (map handledCount cs)"

lemma sum_list_upd:
  fixes f :: "'a \<Rightarrow> 'b::ab_group_add"
  shows "j < length xs \<Longrightarrow> sum_list (map f (xs[j := x])) = sum_list (map f xs) - f (xs ! j) + f x"
  by (induction xs arbitrary: j) (auto split: nat.split)

lemma handle_counts: "e \<noteq> NullBase \<Longrightarrow> handledCount (snd (SampleConsumer_handle e c)) = handledCount c + 1"
  by (cases e) (simp_all add: case_prod_beta Let_def)

lemma consume_counts:
  "\<forall>(j, e) \<in> set ds. j < length cs \<and> e \<noteq> NullBase \<Longrightarrow>
   length (consume ds cs) = length cs \<and> total_count (consume ds cs) = total_count cs + of_nat (length ds)"
  by (induction ds cs rule: consume.induct) (auto simp: total_count_def sum_list_upd handle_counts)

lemma countDown_counts:
  "k \<le> length cs \<Longrightarrow> fst (countDown cs k t) = t - sum_list (map handledCount (take k cs)) \<and>
   length (snd (countDown cs k t)) = length cs \<and>
   total_count (snd (countDown cs k t)) = total_count cs - sum_list (map handledCount (take k cs))"
proof (induction k arbitrary: cs t)
  case (Suc k)
  have tk: "take (Suc k) cs = take k cs @ [cs ! k]" using Suc.prems by (simp add: take_Suc_conv_app_nth)
  have "total_count (cs[k := (cs ! k)\<lparr>handledCount := 0\<rparr>]) = total_count cs - handledCount (cs ! k)"
    using Suc.prems by (simp add: total_count_def sum_list_upd)
  then show ?case
    using Suc.IH [of "cs[k := (cs ! k)\<lparr>handledCount := 0\<rparr>]" "t - handledCount (cs ! k)"] Suc.prems
    by (simp add: tk Let_def algebra_simps)
qed simp

lemma countDown_all:
  "fst (countDown cs (length cs) t) = t - total_count cs" "length (snd (countDown cs (length cs) t)) = length cs"
  "total_count (snd (countDown cs (length cs) t)) = 0"
  using countDown_counts [of "length cs" cs t] by (simp_all add: total_count_def)

lemma countLoop_missed:
  assumes "rounds \<le> 3" and "total_count cs = 0"
    and "\<And>r j e. rounds \<le> r \<Longrightarrow> r < 3 \<Longrightarrow> (j, e) \<in> set (d r) \<Longrightarrow> j < length cs \<and> e \<noteq> NullBase"
    and "(\<Sum>r = rounds..<3. length (d r)) + missed < 2 ^ 32"
    and "t = of_nat ((\<Sum>r = rounds..<3. length (d r)) + missed)"
  shows "fst (countLoop (\<lambda>r. consume (d r)) rounds t cs) = of_nat missed"
  using assms
proof (induction "3 - rounds" arbitrary: rounds t cs)
  case 0
  then show ?case by (simp add: countLoop.simps)
next
  case (Suc m)
  let ?S = "\<Sum>r = Suc rounds..<3. length (d r)"
  have r: "rounds < 3" using Suc.hyps(2) by simp
  have sum: "(\<Sum>r = rounds..<3. length (d r)) = length (d rounds) + ?S" using r by (rule sum.atLeast_Suc_lessThan)
  show ?case
  proof (cases "t = 0")
    case True
    then have "of_nat (length (d rounds) + ?S + missed) = (0 :: c_uint)" using Suc.prems(5) sum by simp
    then have "2 ^ 32 dvd length (d rounds) + ?S + missed" unfolding word_of_nat_eq_0_iff by simp
    then have "length (d rounds) + ?S + missed = 0"
      using Suc.prems(4) sum by (metis gr_zeroI nat_dvd_not_less)
    then show ?thesis using True by (simp add: countLoop.simps)
  next
    case False
    let ?c1 = "consume (d rounds) cs"
    let ?p = "countDown ?c1 (length ?c1) t"
    have "\<forall>(j, e) \<in> set (d rounds). j < length cs \<and> e \<noteq> NullBase" using Suc.prems(3) [OF order.refl r] by blast
    from consume_counts [OF this] Suc.prems(2)
    have c1: "length ?c1 = length cs" "total_count ?c1 = of_nat (length (d rounds))" by simp_all
    note p = countDown_all [of ?c1 t]
    have "fst (countLoop (\<lambda>r. consume (d r)) (Suc rounds) (fst ?p) (snd ?p)) = of_nat missed"
    proof (rule Suc.hyps(1))
      show "j < length (snd ?p) \<and> e \<noteq> NullBase" if "Suc rounds \<le> q" "q < 3" "(j, e) \<in> set (d q)" for q j e
        using Suc.prems(3) [of q j e] that p(2) c1(1) by simp
      show "fst ?p = of_nat (?S + missed)" using p(1) c1(2) Suc.prems(5) sum by simp
    qed (use Suc.hyps(2) Suc.prems(4) sum r p(3) in auto)
    moreover have "0 < t" using False by (simp add: word_neq_0_conv)
    ultimately show ?thesis using r by (simp add: countLoop.simps [of _ rounds] case_prod_beta Let_def)
  qed
qed

text \<open>When the consumers are not used by two threads at once, what remains is the number of entries that were not handled.\<close>

lemma counting_exact:
  assumes "\<And>c. c \<in> set cs \<Longrightarrow> handledCount c = 0"
    and "\<And>r j e. r < 3 \<Longrightarrow> (j, e) \<in> set (d r) \<Longrightarrow> j < length cs \<and> e \<noteq> NullBase"
    and "length (d 0) + length (d 1) + length (d 2) + missed = unat totalExpected"
  shows "fst (countLoop (\<lambda>r. consume (d r)) 0 totalExpected cs) = of_nat missed"
proof (rule countLoop_missed)
  show "total_count cs = 0" using assms(1) unfolding total_count_def by (induction cs) auto
  have s: "(\<Sum>r = 0..<3. length (d r)) = length (d 0) + length (d 1) + length (d 2)"
    by (simp add: numeral_eq_Suc)
  then show "(\<Sum>r = 0..<3. length (d r)) + missed < 2 ^ 32" using assms(3) unsigned_less [of totalExpected] by simp
  show "totalExpected = of_nat ((\<Sum>r = 0..<3. length (d r)) + missed)" using s assms(3) by (simp flip: of_nat_add)
qed (use assms(2) in auto)

text \<open>Every processor is terminated before any is deleted; a processor that lost nothing is not reported.\<close>

lemma main_order:
  "\<exists>pre post. mainProgram work cs = pre @ post \<and> (\<forall>i < 5. TerminateProcessor i \<in> set pre \<and> DeleteProcessor i \<in> set post) \<and>
    (\<forall>i. DeleteProcessor i \<notin> set pre \<and> DeleteArray i \<notin> set pre)"
proof -
  have "length mainProcessors = 5" by (simp add: mainProcessors_def)
  then show ?thesis
    by (intro exI [of _ "concat (map (\<lambda>i. mainRound (work i) i (cs i)) [0..<5])"]
        exI [of _ "concat (map (\<lambda>i. [DeleteProcessor i, DeleteArray i]) [0..<5])"])
      (auto simp: mainProgram_def mainRound_def Let_def split: if_splits)
qed

lemma main_reports:
  assumes "\<And>c. c \<in> set cs \<Longrightarrow> handledCount c = 0"
    and "\<And>r j e. r < 3 \<Longrightarrow> (j, e) \<in> set (d r) \<Longrightarrow> j < length cs \<and> e \<noteq> NullBase"
    and "length (d 0) + length (d 1) + length (d 2) + missed = unat totalExpected"
  shows "Missed i m \<in> set (mainRound (\<lambda>r. consume (d r)) i cs) \<longleftrightarrow> 0 < missed \<and> m = of_nat missed"
proof -
  have "unat totalExpected < 2 ^ LENGTH(32)" by (rule unsigned_less)
  then have "missed < 2 ^ 32" using assms(3) by simp
  then have "(of_nat missed :: c_uint) = 0 \<longleftrightarrow> missed = 0"
    unfolding word_of_nat_eq_0_iff by (auto dest: dvd_imp_le)
  then show ?thesis using counting_exact [OF assms] by (auto simp: mainRound_def Let_def word_neq_0_conv [symmetric])
qed

section \<open>A run of the test program\<close>


text \<open>A worker has joined and waits, and nothing was added yet.\<close>

lemma test_start:
  "\<exists>c. pq_reach (sample_ops 256) (pq_init (sample_ops 256) 3 DataArray_init (\<lambda>_. 0)) c \<and> \<not> terminated c \<and>
    accepted (sqs c) = [] \<and> delivered (sqs c) = [] \<and> moved (sqs c) = {} \<and> (\<forall>y. listed (sqs c) y \<longrightarrow> \<not> finished (sqs c) y) \<and>
    rl_back (sq (sqs c)) = Some 0 \<and> fst (SyncQueue_isEmpty 0 (sq (sqs c)))"
proof -
  let ?ops = "sample_ops 256"
  let ?i = "sq_init ?ops 3 DataArray_init True (\<lambda>_. 0)" and ?p = "pq_init ?ops 3 DataArray_init (\<lambda>_. 0)"
  have inv: "sq_inv ?ops ?i [] 0 (\<lambda>_. 0) []" by (rule sample.init_inv) simp_all
  then have ok: "rlist_ok (sq ?i) []" "\<And>x. \<not> listed ?i x" by (auto simp: sq_inv_def list_part_def rlist_ok_def)
  from add_first_refines [OF ok(1), of 0] obtain s where s: "readerList_add 0 (sq ?i) = Inr s"
    "flags_set (sq ?i) 0 False True True s"
    "rl_post (sq ?i) \<lparr>order = [0], slot = (rd_index (sq ?i))(0 := readIndex (sq ?i)), rindex = readIndex (sq ?i)\<rparr> s" by blast
  let ?s = "?i\<lparr>sq := s\<rparr>"
  have inv1: "sq_inv ?ops ?s [0] 0 ((\<lambda>_. 0)(0 := 0)) []" by (rule start_first_inv [OF inv ok(2) s(2,3)])
  then have rp: "ring_part ?ops ?s 0 []" and lp: "list_part ?s [0] 0 ((\<lambda>_. 0)(0 := 0))" by (auto simp: sq_inv_def)
  note R = ring_partD [OF rp] and L = list_partD [OF lp]
  have acc: "accepted ?s = []" "delivered ?s = []" "moved ?s = {}" by (simp_all add: sq_init_def)
  have "liveCount s = 0" using R(6) acc by simp
  then have e: "fst (SyncQueue_isEmpty 0 s)"
    using SyncQueue_isEmpty_iff [OF R(2), of 0 0] L(9) [of 0] R(3) by simp
  have b: "rl_back s = Some 0" using L(1) by (simp add: rlist_ok_def)
  have st: "sq_step ?ops ?i ?s" by (rule sq_step.Start [OF ok(2) [of 0]]) (simp add: startAccess_def s(1))
  have "currentSize s = currentSize (sq ?i)" using rl_postD(2) [OF s(3)] list_frameD(3) by blast
  then have "pq_step ?ops None ?p (?p\<lparr>sqs := ?s\<rparr>)"
    using st by (intro pq_step.Work) (simp_all add: pq_init_def)
  then have "pq_reach ?ops ?p (?p\<lparr>sqs := ?s\<rparr>)" by (blast intro: pq_reach.intros)
  moreover have "\<forall>y. listed ?s y \<longrightarrow> \<not> finished ?s y" using s(2) ok(2) by (auto simp: flags_set_def)
  ultimately show ?thesis using acc e b by (intro exI [of _ "?p\<lparr>sqs := ?s\<rparr>"]) (simp add: pq_init_def)
qed


end
