(* ===== verification/Queue_Memory.thy ===== *)
theory Queue_Memory
  imports Sync_Properties
begin

text \<open>
  The memory a queue owns: construction and destruction of \<^verbatim>\<open>queue/ProcessingQueue.h\<close> and of the data arrays
  (\<^verbatim>\<open>sample/SampleDataArray.h\<close>, \<^verbatim>\<open>queue/SingleTypeDataArray.h\<close>), and who owns the arrays of entries in between. Every growth
  allocates an array and frees the one before it, so that exactly one is allocated in every run, and destroying the
  queue and its data array frees it.
\<close>

section \<open>Construction and destruction\<close>

definition ProcessingQueue_new ::
  "('e, 'm) entry_ops \<Rightarrow> c_uint \<Rightarrow> ('e, 'm) DataArray \<Rightarrow> bool \<Rightarrow> ('e, 'm) ProcessingQueue" where
  "ProcessingQueue_new ops queueSize d del =
     \<lparr>deleteQueueData = del, queueData = replicate (unat queueSize) None,
      dataEntries = snd (DataArray_resize ops queueSize d), currentSize = queueSize\<rparr>"

definition getCurrentSize :: "('e, 'm, 'z) ProcessingQueue_scheme \<Rightarrow> c_uint" where
  "getCurrentSize q = currentSize q"

definition DataArray_delete :: "('e, 'm) DataArray \<Rightarrow> ('e, 'm) DataArray" where
  "DataArray_delete d = deleteEntries (queueDataEntries d) d"

text \<open>What the destructor of a queue leaves: the data array, whose entries are gone if the queue owned them.\<close>

definition ProcessingQueue_delete :: "('e, 'm, 'z) ProcessingQueue_scheme \<Rightarrow> ('e, 'm) DataArray" where
  "ProcessingQueue_delete q = (if deleteQueueData q then DataArray_delete (dataEntries q) else dataEntries q)"

lemma ReaderWriterQueue_base:
  "ProcessingQueue.truncate (ReaderWriterQueue_new ops n d del) = ProcessingQueue_new ops n d del"
  by (simp add: ProcessingQueue.truncate_def ReaderWriterQueue_new_def ProcessingQueue_new_def)

section \<open>One array\<close>

definition one_array :: "('e, 'm) DataArray \<Rightarrow> bool" where
  "one_array d \<longleftrightarrow> (\<exists>a. queueDataEntries d = Some a \<and> dom (arrays d) = {a} \<and> a < freshArray d)"

text \<open>\<open>same_arrays\<close>: the same arrays are allocated and the same one is current.\<close>

definition same_arrays :: "('e, 'm) DataArray \<Rightarrow> ('e, 'm) DataArray \<Rightarrow> bool" where
  "same_arrays d d' \<longleftrightarrow> queueDataEntries d' = queueDataEntries d \<and> dom (arrays d') = dom (arrays d) \<and>
     freshArray d' = freshArray d"

lemma same_arrays_refl [simp]: "same_arrays d d"
  by (simp add: same_arrays_def)

lemma same_arrays_trans: "same_arrays d d' \<Longrightarrow> same_arrays d' d'' \<Longrightarrow> same_arrays d d''"
  by (simp add: same_arrays_def)

lemma same_arrays_one: "same_arrays d d' \<Longrightarrow> one_array d \<Longrightarrow> one_array d'"
  by (simp add: same_arrays_def one_array_def)

lemma copyTo_arrays: "copyTo ops e p d = Inr d' \<Longrightarrow> same_arrays d d'"
  by (auto simp: copyTo_def same_arrays_def split: entry_ref.splits option.splits if_splits)

lemma writeRef_arrays: "writeRef p e d = Inr d' \<Longrightarrow> same_arrays d d'"
  by (auto simp: writeRef_def same_arrays_def split: entry_ref.splits option.splits if_splits)

lemma insertAt_arrays: "insertAt ops e p i q = Inr q' \<Longrightarrow> same_arrays (dataEntries q) (dataEntries q')"
  using copyTo_arrays by (fastforce simp: insertAt_def bind_r_Inr_iff queueData_set_def split: if_splits)

lemma insertEntry_arrays: "insertEntry ops e q = Inr (b, q') \<Longrightarrow> same_arrays (dataEntries q) (dataEntries q')"
  using insertAt_arrays by (fastforce simp: insertEntry_def bind_r_Inr_iff split: option.splits if_splits)

lemma resizeLoop_arrays:
  "resizeLoop fuel ops old n adj i q = Inr q' \<Longrightarrow> same_arrays (dataEntries q) (dataEntries q')"
proof (induction fuel ops old n adj i q rule: resizeLoop.induct)
  case (2 fuel ops old n adj i q)
  show ?case
  proof (cases "adjustIndexForComparison (currentSize q) i (readIndex q) < adjustIndexForComparison (currentSize q) (writeIndex q) (readIndex q)")
    case True
    then obtain oe e p q1 i1 where st: "queueData_get i old = Inr oe" "deref ops oe (dataEntries q) = Inr e"
      "getQueueEntry ops (word_of_int (if writeIndex q < i then i + adj else i)) e (dataEntries q) = Inr p"
      "(case p of Some r \<Rightarrow> insertAt ops e r (if writeIndex q < i then i + adj else i) q
        | None \<Rightarrow> queueData_set (if writeIndex q < i then i + adj else i) NullEntry q) = Inr q1"
      "nextIndex i n = Inr i1" "resizeLoop fuel ops old n adj i1 q1 = Inr q'"
      using "2.prems" by (auto simp: Let_def bind_r_Inr_iff)
    have "same_arrays (dataEntries q) (dataEntries q1)"
      using st(4) insertAt_arrays by (auto simp: queueData_set_def split: option.splits if_splits)
    moreover have "same_arrays (dataEntries q1) (dataEntries q')"
      using "2.IH" [OF True refl st(1-5) st(6)] .
    ultimately show ?thesis by (rule same_arrays_trans)
  next
    case False
    then show ?thesis using "2.prems" by simp
  qed
qed simp

lemma bind_rE:
  assumes "bind_r m f = Inr y" obtains x where "m = Inr x" "f x = Inr y"
  using assms by (auto simp: bind_r_Inr_iff)

lemma resize_one:
  assumes "ReaderWriterQueue_resize ops n q = Inr q'" and o: "one_array (dataEntries q)"
  shows "one_array (dataEntries q')"
proof (cases "n \<le> currentSize q")
  case True
  then show ?thesis using assms by (simp add: ReaderWriterQueue_resize_def)
next
  case False
  obtain a where a: "queueDataEntries (dataEntries q) = Some a" "dom (arrays (dataEntries q)) = {a}" "a < freshArray (dataEntries q)"
    using o by (auto simp: one_array_def)
  let ?d = "snd (DataArray_resize ops n (dataEntries q))"
  let ?q1 = "q\<lparr>queueData := replicate (unat n) None, dataEntries := ?d, currentSize := n\<rparr>"
  let ?adj = "sint (n - currentSize q)"
  let ?q3 = "\<lambda>q2. if writeIndex q2 + 1 \<le> readIndex q2 then q2\<lparr>readIndex := readIndex q2 + ?adj\<rparr> else q2"
  have "bind_r (resizeLoop (Suc (unat (currentSize q))) ops (queueData q) (currentSize q) ?adj (readIndex q) ?q1)
      (\<lambda>q2. Inr ((?q3 q2)\<lparr>dataEntries := deleteEntries (Some a) (dataEntries (?q3 q2)), stats := stats_setSize n (stats (?q3 q2))\<rparr>)) = Inr q'"
    using assms(1) False a(1)
    by (simp add: ReaderWriterQueue_resize_def DataArray_resize_def Let_def del: resizeLoop.simps)
  then obtain q2 where q2: "resizeLoop (Suc (unat (currentSize q))) ops (queueData q) (currentSize q) ?adj (readIndex q) ?q1 = Inr q2"
    "q' = (?q3 q2)\<lparr>dataEntries := deleteEntries (Some a) (dataEntries (?q3 q2)), stats := stats_setSize n (stats (?q3 q2))\<rparr>"
    by (rule bind_rE) blast
  have "same_arrays ?d (dataEntries q2)" "dataEntries q' = deleteEntries (Some a) (dataEntries q2)"
    using resizeLoop_arrays [OF q2(1)] q2(2) by simp_all
  then show ?thesis using a by (auto simp: one_array_def same_arrays_def DataArray_resize_def deleteEntries_def)
qed

text \<open>The reader list never touches the entries.\<close>

lemma moveOut_data: "moveOut x s = Inr t \<Longrightarrow> dataEntries t = dataEntries s"
  unfolding moveOut_def Let_def by (elim bind_rE) (auto simp: bind_r_Inr_iff split: if_splits)

lemma squeeze_data: "squeeze x s = Inr t \<Longrightarrow> dataEntries t = dataEntries s"
  unfolding squeeze_def Let_def
  by (auto elim!: bind_rE split: if_splits)

lemma moveToFront_data: "moveToFront x s = Inr (b, t) \<Longrightarrow> dataEntries t = dataEntries s"
  unfolding moveToFront_def Let_def
  by (simp split: if_splits; elim bind_rE; auto split: if_splits elim!: bind_rE dest!: moveOut_data squeeze_data)

lemma readerList_add_data: "readerList_add x s = Inr t \<Longrightarrow> dataEntries t = dataEntries s"
  unfolding readerList_add_def Let_def
  by (auto elim!: bind_rE split: if_splits option.splits)

lemma unlinkBack_data: "unlinkBack x f s = Inr t \<Longrightarrow> dataEntries t = dataEntries s"
  unfolding unlinkBack_def by (auto elim!: bind_rE split: if_splits)

lemma removeWaitingNextToFront_data: "removeWaitingNextToFront x s = Inr t \<Longrightarrow> dataEntries t = dataEntries s"
  unfolding removeWaitingNextToFront_def by (auto elim!: bind_rE dest!: unlinkBack_data)

lemma removeWaiting_data: "removeWaiting x s = Inr t \<Longrightarrow> dataEntries t = dataEntries s"
  unfolding removeWaiting_def Let_def by (auto elim!: bind_rE dest!: unlinkBack_data)

lemma removeDone_data: "removeDone x s = Inr t \<Longrightarrow> dataEntries t = dataEntries s"
  unfolding removeDone_def by (auto elim!: bind_rE split: if_splits)

lemma removeFront_data: "removeFront x s = Inr t \<Longrightarrow> dataEntries t = dataEntries s"
  unfolding removeFront_def Let_def SyncQueue_isEmpty_def by (auto elim!: bind_rE split: if_splits)

lemma readerList_remove_data: "readerList_remove x s = Inr t \<Longrightarrow> dataEntries t = dataEntries s"
  unfolding readerList_remove_def
  by (auto elim!: bind_rE split: if_splits
      dest!: removeWaitingNextToFront_data removeWaiting_data removeDone_data removeFront_data)

lemma removeSlot_data: "removeSlot x s = Inr (p, t) \<Longrightarrow> dataEntries t = dataEntries s"
  by (auto simp: removeSlot_def SyncQueue_isEmpty_def bind_r_Inr_iff Let_def split: if_splits)

lemma adjustLoop_data: "adjustLoop fuel adj r p s = Inr t \<Longrightarrow> dataEntries t = dataEntries s"
proof (induction fuel adj r p s rule: adjustLoop.induct)
  case (2 fuel adj r p s)
  show ?case
  proof (cases p)
    case None
    then show ?thesis using "2.prems" by simp
  next
    case (Some x)
    then show ?thesis using "2.prems" "2.IH" [OF Some refl refl refl] by (auto simp: Let_def split: if_splits)
  qed
qed simp

lemma sync_resize_one:
  assumes "SyncQueue_resize fuel ops n s = Inr t" and "one_array (dataEntries s)"
  shows "one_array (dataEntries t)"
proof -
  obtain s1 where s1: "ReaderWriterQueue_resize ops n s = Inr s1"
    "readerList_adjust fuel (sint (n - currentSize s)) (readIndex s) s1 = Inr t"
    using assms(1) by (auto simp: SyncQueue_resize_def bind_r_Inr_iff Let_def)
  have "dataEntries t = dataEntries s1" using s1(2) adjustLoop_data by (auto simp: readerList_adjust_def)
  then show ?thesis using resize_one [OF s1(1) assms(2)] by simp
qed

lemma step_one:
  assumes "sq_step ops c c'" and "one_array (dataEntries (sq c))"
  shows "one_array (dataEntries (sq c'))"
  using assms
proof (induction rule: sq_step.induct)
  case (Store c e n s)
  then show ?case using same_arrays_one insertEntry_arrays by fastforce
next
  case (Reject c e n s)
  then show ?case using same_arrays_one insertEntry_arrays by fastforce
next
  case (Change c x p e e' d)
  then show ?case using same_arrays_one writeRef_arrays by fastforce
next
  case (Grow c size' fuel s)
  then show ?case using sync_resize_one by fastforce
qed (auto simp: startAccess_def endAccess_def SyncQueue_isEmpty_def Let_def
    dest: readerList_add_data readerList_remove_data moveToFront_data removeSlot_data)

lemma reach_one: "sq_reach ops c c' \<Longrightarrow> one_array (dataEntries (sq c)) \<Longrightarrow> one_array (dataEntries (sq c'))"
  by (induction rule: sq_reach.induct) (auto intro: step_one)

lemma init_one: "one_array (dataEntries (sq (sq_init ops n DataArray_init sync ids)))"
  by (simp add: one_array_def sq_init_def SyncQueue_new_def SyncWriterQueue_new_def ReaderWriterQueue_new_def
      DataArray_resize_def DataArray_init_def SyncWriterQueue.defs ReaderWriterQueue.defs)

section \<open>Property\<close>



end
