(* ===== verification/Date_Time.thy ===== *)
theory Date_Time
  imports Sample_Entries Data_Conversions
begin

text \<open>
  Time stamps, \<^verbatim>\<open>base/DateTime.h\<close>: copies, and the conversions to and from text. A stream prints and reads the number of
  seconds, a 64-bit \<^verbatim>\<open>time_t\<close>. The constructor from a text and the conversion to a text call \<^verbatim>\<open>strptime\<close>, \<^verbatim>\<open>mktime\<close>,
  \<^verbatim>\<open>localtime_r\<close> and \<^verbatim>\<open>strftime\<close>, which are arguments; \<^verbatim>\<open>strptime\<close> gets the structure it fills, whose members have
  not been assigned before (\<open>garbage\<close>).
\<close>

section \<open>Construction\<close>

definition DateTime_copy :: "DateTime \<Rightarrow> DateTime" where
  "DateTime_copy that = \<lparr>timeSecs = timeSecs that\<rparr>"

definition DateTime_assign :: "DateTime \<Rightarrow> DateTime \<Rightarrow> DateTime" where
  "DateTime_assign this that = this\<lparr>timeSecs := timeSecs that\<rparr>"

definition DateTime_time :: "DateTime \<Rightarrow> int" where
  "DateTime_time this = timeSecs this"

definition DATE_TIME_FORMAT :: string where
  "DATE_TIME_FORMAT = ''%Y-%m-%d %H:%M:%S''"

definition DateTime_parse ::
  "(string \<Rightarrow> string \<Rightarrow> 'tm \<Rightarrow> 'tm) \<Rightarrow> ('tm \<Rightarrow> int) \<Rightarrow> 'tm \<Rightarrow> string \<Rightarrow> DateTime" where
  "DateTime_parse strptime mktime garbage text = \<lparr>timeSecs = mktime (strptime text DATE_TIME_FORMAT garbage)\<rparr>"

definition DateTime_text :: "(int \<Rightarrow> 'tm) \<Rightarrow> (string \<Rightarrow> 'tm \<Rightarrow> string) \<Rightarrow> DateTime \<Rightarrow> string" where
  "DateTime_text localtime strftime this = strftime DATE_TIME_FORMAT (localtime (timeSecs this))"

section \<open>Streams\<close>

text \<open>A failed extraction of a stream with nothing to read leaves the time as it is.\<close>

definition DateTime_output :: "string \<Rightarrow> DateTime \<Rightarrow> string" where
  "DateTime_output stream this = stream @ convertToStringValue_int (timeSecs this)"

definition DateTime_input :: "string \<Rightarrow> DateTime \<Rightarrow> DateTime \<times> bool" where
  "DateTime_input stream this =
     (let (v, failed) = extractInt (- 9223372036854775808) 9223372036854775807 stream
      in (case v of None \<Rightarrow> this | Some t \<Rightarrow> this\<lparr>timeSecs := t\<rparr>, failed))"

text \<open>What is printed is read back; a copy and an assignment give the same time.\<close>

lemma date_stream_roundtrip:
  assumes "- 9223372036854775808 \<le> timeSecs d" and "timeSecs d \<le> 9223372036854775807"
  shows "DateTime_input (DateTime_output [] d) e = (DateTime_copy d, False)"
  using extractInt_print [of "- 9223372036854775808" "timeSecs d" 9223372036854775807] assms
  by (simp add: DateTime_input_def DateTime_output_def DateTime_copy_def)

lemma date_assign_copy: "DateTime_assign d e = DateTime_copy e"
  by (simp add: DateTime_assign_def DateTime_copy_def)

end
