(* ===== verification/Processor_Objects.thy ===== *)
theory Processor_Objects
  imports Queue_Memory Test_Program Processor_Claims
begin

text \<open>
  The objects of a processor: what a new worker of \<^verbatim>\<open>consumer/QueueConsumerWorker.h\<close> consists of, its debug flag and its
  statistics, what workers and processors tell about themselves, and the destructor of the processor.
\<close>

section \<open>Workers\<close>

record 'c QueueConsumerWorker =
  qw_thread :: Worker
  qw_identifier :: int
  qw_name :: string
  qw_debug :: bool
  qw_access :: QueueAccess
  qw_consumer :: 'c
  qw_numWorkers :: int

text \<open>The reader index of worker \<open>i\<close> is named by the worker.\<close>

definition QueueConsumerWorker_new :: "nat \<Rightarrow> int \<Rightarrow> 'c \<Rightarrow> 'c QueueConsumerWorker" where
  "QueueConsumerWorker_new i n c =
     \<lparr>qw_thread = Worker_new, qw_identifier = int i, qw_name = Worker_getName (int i) None, qw_debug = False,
      qw_access = QueueAccess_new i, qw_consumer = c, qw_numWorkers = n\<rparr>"

text \<open>
  \<^verbatim>\<open>queueAccess.queue\<close> has the static type \<^verbatim>\<open>ReaderWriterQueue *\<close> and \<^verbatim>\<open>setDebug\<close> is not virtual: only the flag of the ring
  is set.
\<close>

definition ReaderWriterQueue_setDebug :: "bool \<Rightarrow> ('e, 'm, 'z) ReaderWriterQueue_scheme \<Rightarrow> ('e, 'm, 'z) ReaderWriterQueue_scheme" where
  "ReaderWriterQueue_setDebug b q = q\<lparr>rwDebug := b\<rparr>"

definition QueueConsumerWorker_setDebug ::
  "bool \<Rightarrow> 'c QueueConsumerWorker \<Rightarrow> ('e, 'm, 'z) SyncQueue_scheme \<Rightarrow> 'c QueueConsumerWorker \<times> ('e, 'm, 'z) SyncQueue_scheme" where
  "QueueConsumerWorker_setDebug b w s = (w\<lparr>qw_debug := b\<rparr>, ReaderWriterQueue_setDebug b s)"

definition QueueConsumerWorker_updateStats ::
  "'c QueueConsumerWorker \<Rightarrow> ('e, 'm, 'z) SyncQueue_scheme \<Rightarrow> 'c QueueConsumerWorker \<times> ('e, 'm, 'z) SyncQueue_scheme" where
  "QueueConsumerWorker_updateStats w s = (let (a, s') = access_updateStats (qw_access w) s in (w\<lparr>qw_access := a\<rparr>, s'))"

definition Worker_isDead :: "Worker \<Rightarrow> bool" where "Worker_isDead w = isDeadFlag w"
definition Worker_isTerminated :: "Worker \<Rightarrow> bool" where "Worker_isTerminated w = isTerminatedFlag w"
definition Worker_isStarted :: "Worker \<Rightarrow> bool" where "Worker_isStarted w = isStartedFlag w"
definition Worker_isPaused :: "Worker \<Rightarrow> bool" where "Worker_isPaused w = isPausedFlag w"

text \<open>The debug flag of the reader list is never set through a processor; \<^verbatim>\<open>SyncQueue::setDebug\<close> would set it.\<close>

theorem debug_skips_list:
  "rlDebug (snd (QueueConsumerWorker_setDebug b w s)) = rlDebug s" "rlDebug (SyncQueue_setDebug b s) = b"
  by (simp_all add: QueueConsumerWorker_setDebug_def ReaderWriterQueue_setDebug_def SyncQueue_setDebug_def)

text \<open>After \<^verbatim>\<open>updateStats\<close> the worker has nothing left to report, and the queue has counted what it had.\<close>

lemma updateStats_reports:
  "accessCount (qw_access (fst (QueueConsumerWorker_updateStats w s))) = 0"
  "stats (snd (QueueConsumerWorker_updateStats w s)) = incrementRemovedCountBy (accessCount (qw_access w)) (stats s)"
  by (simp_all add: QueueConsumerWorker_updateStats_def access_updateStats_def)

section \<open>Processors\<close>

definition QueueProcessor_isTerminated :: "'c QueueProcessor \<Rightarrow> bool" where
  "QueueProcessor_isTerminated p = qp_isTerminatedFlag p"
definition QueueProcessor_isRunning :: "'c QueueProcessor \<Rightarrow> bool" where
  "QueueProcessor_isRunning p = qp_isRunningFlag p"
definition QueueProcessor_isPaused :: "'c QueueProcessor \<Rightarrow> bool" where
  "QueueProcessor_isPaused p = qp_isPausedFlag p"

definition QueueProcessor_delete :: "'c QueueProcessor \<Rightarrow> 'c QueueProcessor" where
  "QueueProcessor_delete p = QueueProcessor_terminate p"

text \<open>
  The destructor of a processor that was terminated has nothing left to do, so that the deletions at the end of the test
  program return at once; on a processor that never ran it only drops the workers.
\<close>

lemma delete_returns:
  "QueueProcessor_isTerminated p \<Longrightarrow> QueueProcessor_delete p = p"
  "qp_at p = Ready \<Longrightarrow> \<not> QueueProcessor_isTerminated p \<Longrightarrow> \<not> QueueProcessor_isRunning p \<Longrightarrow>
    QueueProcessor_delete p = p\<lparr>qp_isTerminatedFlag := True, workers := []\<rparr>"
  by (simp_all add: QueueProcessor_delete_def QueueProcessor_isTerminated_def QueueProcessor_isRunning_def qp_ops)

end
